(* ===== verification/Pintos_Prelude.thy ===== *)
theory Pintos_Prelude
  imports Main "HOL-Library.Word" "HOL-Library.Monad_Syntax" "HOL-Library.Multiset"
    "HOL-Library.Signed_Division"
begin

text \<open>
  Shared vocabulary of the development: the types that stand for the C types of the kernel,
  the partiality of kernel code (\<^const>\<open>None\<close> is a kernel panic, a failed \<open>ASSERT\<close> or the
  dereference of a null pointer), arithmetic on \<open>size_t\<close>, and the lemmas on lists that the
  components share.
\<close>

section \<open>C types and partial operations\<close>

text \<open>An address of kernel memory; \<open>NULL\<close> is address 0.\<close>

type_synonym addr = nat

abbreviation (input) NULL :: addr where
  "NULL \<equiv> 0"

type_synonym u8 = "8 word"
type_synonym u16 = "16 word"
type_synonym u32 = "32 word"
type_synonym u64 = "64 word"

text \<open>
  \<open>ASSERT (c)\<close> of \<open>lib/debug.h\<close>: the kernel panics when \<open>c\<close> is false.  Operations that may
  panic return an option and are composed with the \<open>do\<close> notation of the option monad.
\<close>

definition ASSERT :: "bool \<Rightarrow> unit option" where
  "ASSERT c = (if c then Some () else None)"

text \<open>\<open>size_t\<close> is 32 bits wide on the i386 target, and its arithmetic wraps around.\<close>

definition size_t :: "nat \<Rightarrow> nat" where
  "size_t n = n mod 2 ^ 32"

text \<open>
  Conversion of a mathematical integer to the C integer types: the value stored in a variable of
  that type.
\<close>

definition to_u32 :: "int \<Rightarrow> int" where
  "to_u32 x = x mod 2 ^ 32"

definition to_u64 :: "int \<Rightarrow> int" where
  "to_u64 x = x mod 2 ^ 64"

definition to_s32 :: "int \<Rightarrow> int" where
  "to_s32 x = (x + 2 ^ 31) mod 2 ^ 32 - 2 ^ 31"

definition to_s64 :: "int \<Rightarrow> int" where
  "to_s64 x = (x + 2 ^ 63) mod 2 ^ 64 - 2 ^ 63"

abbreviation is_u32 :: "int \<Rightarrow> bool" where
  "is_u32 x \<equiv> 0 \<le> x \<and> x < 2 ^ 32"

abbreviation is_u64 :: "int \<Rightarrow> bool" where
  "is_u64 x \<equiv> 0 \<le> x \<and> x < 2 ^ 64"

abbreviation is_s32 :: "int \<Rightarrow> bool" where
  "is_s32 x \<equiv> - (2 ^ 31) \<le> x \<and> x < 2 ^ 31"

abbreviation is_s64 :: "int \<Rightarrow> bool" where
  "is_s64 x \<equiv> - (2 ^ 63) \<le> x \<and> x < 2 ^ 63"

section \<open>Lemma collections\<close>

named_theorems panic_simps \<open>evaluation of code that may panic\<close>

lemma ASSERT_True [simp, panic_simps]: "c \<Longrightarrow> ASSERT c = Some ()"
  by (simp add: ASSERT_def)

lemma ASSERT_False [simp, panic_simps]: "\<not> c \<Longrightarrow> ASSERT c = None"
  by (simp add: ASSERT_def)

lemma ASSERT_Some_iff [simp, panic_simps]: "ASSERT c = Some u \<longleftrightarrow> c"
  by (simp add: ASSERT_def)

lemma ASSERT_None_iff [simp, panic_simps]: "ASSERT c = None \<longleftrightarrow> \<not> c"
  by (simp add: ASSERT_def)

lemma size_t_id [simp]: "n < 2 ^ 32 \<Longrightarrow> size_t n = n"
  by (simp add: size_t_def)

lemma size_t_less [simp]: "size_t n < 2 ^ 32"
  by (simp add: size_t_def)

text \<open>A decrement of a \<open>size_t\<close> is written as adding its largest value.\<close>

lemma size_t_dec [simp]:
  assumes "0 < n" and "n < 2 ^ 32"
  shows "size_t (n + (2 ^ 32 - 1)) = n - 1"
proof -
  have "n + (2 ^ 32 - 1) = (n - 1) + 2 ^ 32" using assms by simp
  then have "size_t (n + (2 ^ 32 - 1)) = (n - 1) mod 2 ^ 32"
    unfolding size_t_def by (simp only: mod_add_self2)
  then show ?thesis using assms by simp
qed

lemma to_u32_id [simp]: "is_u32 x \<Longrightarrow> to_u32 x = x"
  by (simp add: to_u32_def)

lemma to_u64_id [simp]: "is_u64 x \<Longrightarrow> to_u64 x = x"
  by (simp add: to_u64_def)

lemma to_s32_id [simp]: "is_s32 x \<Longrightarrow> to_s32 x = x"
  by (simp add: to_s32_def)

lemma to_s64_id [simp]: "is_s64 x \<Longrightarrow> to_s64 x = x"
  by (simp add: to_s64_def)

lemma to_u32_range: "is_u32 (to_u32 x)"
  by (simp add: to_u32_def)

lemma to_u64_range: "is_u64 (to_u64 x)"
  by (simp add: to_u64_def)

lemma to_s32_range: "is_s32 (to_s32 x)"
  using pos_mod_bound [of "2 ^ 32" "x + 2 ^ 31"] pos_mod_sign [of "2 ^ 32" "x + 2 ^ 31"]
  unfolding to_s32_def by simp

lemma to_s64_range: "is_s64 (to_s64 x)"
  using pos_mod_bound [of "2 ^ 64" "x + 2 ^ 63"] pos_mod_sign [of "2 ^ 64" "x + 2 ^ 63"]
  unfolding to_s64_def by simp

lemma zdiv_less_iff: "0 < (d :: int) \<Longrightarrow> a div d < b \<longleftrightarrow> a < b * d"
proof -
  assume d: "0 < d"
  have "(a div d + 1) * d = a div d * d + d"
    by (simp add: algebra_simps)
  then have *: "a div d * d \<le> a" "a < (a div d + 1) * d"
    using div_mult_mod_eq [of a d] pos_mod_sign [OF d, of a] pos_mod_bound [OF d, of a] by linarith+
  show ?thesis
  proof
    assume "a div d < b"
    then have "(a div d + 1) * d \<le> b * d"
      using d by (intro mult_right_mono) auto
    then show "a < b * d" using * by linarith
  next
    assume "a < b * d"
    then have "a div d * d < b * d" using * by linarith
    then show "a div d < b" using d by simp
  qed
qed

lemma zle_div_iff: "0 < (d :: int) \<Longrightarrow> b \<le> a div d \<longleftrightarrow> b * d \<le> a"
  using zdiv_less_iff [of d a b] by linarith

text \<open>The signed conversions only depend on the value modulo the width, and keep it.\<close>

lemma signed_wrap_mod: "((x + h) mod m - h) mod m = (x :: int) mod m"
  by (simp add: mod_diff_left_eq)

lemma to_s32_mod: "to_s32 x mod 2 ^ 32 = x mod 2 ^ 32"
  unfolding to_s32_def by (rule signed_wrap_mod)

lemma to_s64_mod: "to_s64 x mod 2 ^ 64 = x mod 2 ^ 64"
  unfolding to_s64_def by (rule signed_wrap_mod)

lemma to_s32_cong: "x mod 2 ^ 32 = y mod 2 ^ 32 \<Longrightarrow> to_s32 x = to_s32 y"
  unfolding to_s32_def by (metis mod_add_left_eq)

lemma to_s64_cong: "x mod 2 ^ 64 = y mod 2 ^ 64 \<Longrightarrow> to_s64 x = to_s64 y"
  unfolding to_s64_def by (metis mod_add_left_eq)

lemma to_u64_neg:
  assumes "- (2 ^ 64) \<le> x" and "x < 0"
  shows "to_u64 x = x + 2 ^ 64"
proof -
  have "to_u64 x = to_u64 (x + 2 ^ 64)"
    unfolding to_u64_def by (rule mod_add_self2 [symmetric])
  also have "\<dots> = x + 2 ^ 64"
    using assms by (intro to_u64_id) auto
  finally show ?thesis .
qed

end
