(* ===== verification/Klist.thy ===== *)
theory Klist
  imports Pintos_Prelude
begin

text \<open>
  The doubly linked lists of \<open>src/src/lib/kernel/list.c\<close>, at the level of the pointers: a heap
  maps the address of a \<open>struct list_elem\<close> to its two links, and every routine reads and
  writes that heap in the order of the C code.  \<open>is_list h l xs\<close> says that the list \<open>l\<close>
  represents the sequence \<open>xs\<close> of element addresses; each routine is proved to implement the
  operation on sequences that its comment promises.
\<close>

section \<open>Heap of list elements\<close>

record list_elem =
  le_prev :: addr
  le_next :: addr

type_synonym lheap = "addr \<Rightarrow> list_elem"

text \<open>A \<open>struct list\<close>, by the addresses of its two header elements.\<close>

record klist =
  head :: addr
  tail :: addr

definition set_prev :: "addr \<Rightarrow> addr \<Rightarrow> lheap \<Rightarrow> lheap" where
  "set_prev a v h = h(a := (h a)\<lparr>le_prev := v\<rparr>)"

definition set_next :: "addr \<Rightarrow> addr \<Rightarrow> lheap \<Rightarrow> lheap" where
  "set_next a v h = h(a := (h a)\<lparr>le_next := v\<rparr>)"

section \<open>Routines of list.c\<close>

definition is_head :: "lheap \<Rightarrow> addr \<Rightarrow> bool" where
  "is_head h elem \<longleftrightarrow> elem \<noteq> NULL \<and> le_prev (h elem) = NULL \<and> le_next (h elem) \<noteq> NULL"

definition is_interior :: "lheap \<Rightarrow> addr \<Rightarrow> bool" where
  "is_interior h elem \<longleftrightarrow> elem \<noteq> NULL \<and> le_prev (h elem) \<noteq> NULL \<and> le_next (h elem) \<noteq> NULL"

definition is_tail :: "lheap \<Rightarrow> addr \<Rightarrow> bool" where
  "is_tail h elem \<longleftrightarrow> elem \<noteq> NULL \<and> le_prev (h elem) \<noteq> NULL \<and> le_next (h elem) = NULL"

definition list_init :: "klist \<Rightarrow> lheap \<Rightarrow> lheap" where
  "list_init l h =
     set_next (tail l) NULL
       (set_prev (tail l) (head l)
         (set_next (head l) (tail l)
           (set_prev (head l) NULL h)))"

definition list_begin :: "klist \<Rightarrow> lheap \<Rightarrow> addr" where
  "list_begin l h = le_next (h (head l))"

definition list_next :: "lheap \<Rightarrow> addr \<Rightarrow> addr option" where
  "list_next h elem = do {
     ASSERT (is_head h elem \<or> is_interior h elem);
     Some (le_next (h elem))
   }"

definition list_end :: "klist \<Rightarrow> addr" where
  "list_end l = tail l"

definition list_rbegin :: "klist \<Rightarrow> lheap \<Rightarrow> addr" where
  "list_rbegin l h = le_prev (h (tail l))"

definition list_prev :: "lheap \<Rightarrow> addr \<Rightarrow> addr option" where
  "list_prev h elem = do {
     ASSERT (is_interior h elem \<or> is_tail h elem);
     Some (le_prev (h elem))
   }"

definition list_rend :: "klist \<Rightarrow> addr" where
  "list_rend l = head l"

definition list_insert :: "addr \<Rightarrow> addr \<Rightarrow> lheap \<Rightarrow> lheap option" where
  "list_insert before elem h = do {
     ASSERT (is_interior h before \<or> is_tail h before);
     ASSERT (elem \<noteq> NULL);
     let h = set_prev elem (le_prev (h before)) h;
     let h = set_next elem before h;
     let h = set_next (le_prev (h before)) elem h;
     let h = set_prev before elem h;
     Some h
   }"

definition list_splice :: "addr \<Rightarrow> addr \<Rightarrow> addr \<Rightarrow> lheap \<Rightarrow> lheap option" where
  "list_splice before fst_e lst_e h = do {
     ASSERT (is_interior h before \<or> is_tail h before);
     if fst_e = lst_e then Some h
     else do {
       lst_e \<leftarrow> list_prev h lst_e;
       ASSERT (is_interior h fst_e);
       ASSERT (is_interior h lst_e);
       let h = set_next (le_prev (h fst_e)) (le_next (h lst_e)) h;
       let h = set_prev (le_next (h lst_e)) (le_prev (h fst_e)) h;
       let h = set_prev fst_e (le_prev (h before)) h;
       let h = set_next lst_e before h;
       let h = set_next (le_prev (h before)) fst_e h;
       let h = set_prev before lst_e h;
       Some h
     }
   }"

definition list_push_front :: "klist \<Rightarrow> addr \<Rightarrow> lheap \<Rightarrow> lheap option" where
  "list_push_front l elem h = list_insert (list_begin l h) elem h"

definition list_push_back :: "klist \<Rightarrow> addr \<Rightarrow> lheap \<Rightarrow> lheap option" where
  "list_push_back l elem h = list_insert (list_end l) elem h"

text \<open>Returns the element that followed the removed one, and the new heap.\<close>

definition list_remove :: "addr \<Rightarrow> lheap \<Rightarrow> (addr \<times> lheap) option" where
  "list_remove elem h = do {
     ASSERT (is_interior h elem);
     let h = set_next (le_prev (h elem)) (le_next (h elem)) h;
     let h = set_prev (le_next (h elem)) (le_prev (h elem)) h;
     Some (le_next (h elem), h)
   }"

definition list_empty :: "klist \<Rightarrow> lheap \<Rightarrow> bool" where
  "list_empty l h \<longleftrightarrow> list_begin l h = list_end l"

definition list_front :: "klist \<Rightarrow> lheap \<Rightarrow> addr option" where
  "list_front l h = do { ASSERT (\<not> list_empty l h); Some (le_next (h (head l))) }"

definition list_back :: "klist \<Rightarrow> lheap \<Rightarrow> addr option" where
  "list_back l h = do { ASSERT (\<not> list_empty l h); Some (le_prev (h (tail l))) }"

definition list_pop_front :: "klist \<Rightarrow> lheap \<Rightarrow> (addr \<times> lheap) option" where
  "list_pop_front l h = do {
     front \<leftarrow> list_front l h;
     (_, h) \<leftarrow> list_remove front h;
     Some (front, h)
   }"

definition list_pop_back :: "klist \<Rightarrow> lheap \<Rightarrow> (addr \<times> lheap) option" where
  "list_pop_back l h = do {
     back \<leftarrow> list_back l h;
     (_, h) \<leftarrow> list_remove back h;
     Some (back, h)
   }"

text \<open>The loop of \<open>list_size\<close>, from element \<open>e\<close> with the count so far.\<close>

partial_function (option) list_size_loop :: "klist \<Rightarrow> lheap \<Rightarrow> addr \<Rightarrow> nat \<Rightarrow> nat option" where
  "list_size_loop l h e cnt =
     (if e = list_end l then Some cnt
      else do { e' \<leftarrow> list_next h e; list_size_loop l h e' (size_t (cnt + 1)) })"

definition list_size :: "klist \<Rightarrow> lheap \<Rightarrow> nat option" where
  "list_size l h = list_size_loop l h (list_begin l h) 0"

text \<open>\<open>swap (&e->prev, &e->next)\<close>\<close>

definition swap_links :: "addr \<Rightarrow> lheap \<Rightarrow> lheap" where
  "swap_links e h = h(e := \<lparr>le_prev = le_next (h e), le_next = le_prev (h e)\<rparr>)"

partial_function (option) list_reverse_loop :: "klist \<Rightarrow> lheap \<Rightarrow> addr \<Rightarrow> lheap option" where
  "list_reverse_loop l h e =
     (if e = list_end l then Some h
      else if e = NULL then None
      else list_reverse_loop l (swap_links e h) (le_prev (swap_links e h e)))"

definition list_reverse :: "klist \<Rightarrow> lheap \<Rightarrow> lheap option" where
  "list_reverse l h =
     (if list_empty l h then Some h
      else do {
        h \<leftarrow> list_reverse_loop l h (list_begin l h);
        let (n, p) = (le_next (h (head l)), le_prev (h (tail l)));
        let h = set_prev (tail l) n (set_next (head l) p h);
        let (a, b) = (le_next (h (head l)), le_prev (h (tail l)));
        let (p, n) = (le_prev (h a), le_next (h b));
        Some (set_next b p (set_prev a n h))
      })"

section \<open>The sequence a list represents\<close>

text \<open>
  \<open>dchain h ys\<close>: consecutive cells of \<open>ys\<close> are linked in both directions.  A list represents
  \<open>xs\<close> when its front header, \<open>xs\<close> and its back header form such a chain of distinct
  cells, closed by null links at both ends.
\<close>

definition linked :: "lheap \<Rightarrow> addr \<Rightarrow> addr \<Rightarrow> bool" where
  "linked h a b \<longleftrightarrow> le_next (h a) = b \<and> le_prev (h b) = a"

abbreviation dchain :: "lheap \<Rightarrow> addr list \<Rightarrow> bool" where
  "dchain h \<equiv> successively (linked h)"

text \<open>The cells a list owns: its front header, its elements, its back header.\<close>

abbreviation cells :: "klist \<Rightarrow> addr list \<Rightarrow> addr list" where
  "cells l xs \<equiv> head l # xs @ [tail l]"

definition is_list :: "lheap \<Rightarrow> klist \<Rightarrow> addr list \<Rightarrow> bool" where
  "is_list h l xs \<longleftrightarrow>
     distinct (cells l xs) \<and> NULL \<notin> set (cells l xs) \<and>
     le_prev (h (head l)) = NULL \<and> le_next (h (tail l)) = NULL \<and> dchain h (cells l xs)"

lemma le_prev_set_prev [simp]: "le_prev (set_prev a v h b) = (if b = a then v else le_prev (h b))"
  by (simp add: set_prev_def)

lemma le_next_set_prev [simp]: "le_next (set_prev a v h b) = le_next (h b)"
  by (simp add: set_prev_def)

lemma le_next_set_next [simp]: "le_next (set_next a v h b) = (if b = a then v else le_next (h b))"
  by (simp add: set_next_def)

lemma le_prev_set_next [simp]: "le_prev (set_next a v h b) = le_prev (h b)"
  by (simp add: set_next_def)

lemma set_prev_other [simp]: "b \<noteq> a \<Longrightarrow> set_prev a v h b = h b"
  by (simp add: set_prev_def)

lemma set_next_other [simp]: "b \<noteq> a \<Longrightarrow> set_next a v h b = h b"
  by (simp add: set_next_def)

text \<open>A chain is undisturbed by changes to other links.\<close>

lemma dchain_frame:
  assumes "dchain h ys"
    and "\<And>a. a \<in> set (butlast ys) \<Longrightarrow> le_next (h' a) = le_next (h a)"
    and "\<And>a. a \<in> set (tl ys) \<Longrightarrow> le_prev (h' a) = le_prev (h a)"
  shows "dchain h' ys"
  using assms
proof (induction ys rule: induct_list012)
  case (3 x y zs)
  then show ?case
    by (auto simp: linked_def split: if_splits)
qed auto

lemma dchain_append [simp]:
  "xs \<noteq> [] \<Longrightarrow> ys \<noteq> [] \<Longrightarrow>
   dchain h (xs @ ys) \<longleftrightarrow> dchain h xs \<and> linked h (last xs) (hd ys) \<and> dchain h ys"
  by (auto simp: successively_append_iff)

text \<open>The two ends of a chain of distinct cells, for the side conditions of the frame lemma.\<close>

lemma distinct_ends [simp]:
  assumes "distinct xs" and "xs \<noteq> []"
  shows "last xs \<notin> set (butlast xs)" and "hd xs \<notin> set (tl xs)"
proof -
  from assms(2) have "xs = butlast xs @ [last xs]" by simp
  with assms(1) show "last xs \<notin> set (butlast xs)"
    by (metis distinct_append distinct_singleton not_distinct_conv_prefix)
  from assms show "hd xs \<notin> set (tl xs)" by (cases xs) auto
qed

lemma dchain_unique:
  "dchain h (p # xs @ [q]) \<Longrightarrow> dchain h (p # ys @ [q]) \<Longrightarrow> q \<notin> set xs \<Longrightarrow> q \<notin> set ys \<Longrightarrow> xs = ys"
proof (induction xs arbitrary: p ys)
  case Nil
  then show ?case by (cases ys) (auto simp: linked_def)
next
  case (Cons x xs)
  then show ?case by (cases ys) (auto simp: linked_def)
qed

text \<open>A heap and a list header determine the sequence.\<close>

lemma is_list_unique: "is_list h l xs \<Longrightarrow> is_list h l ys \<Longrightarrow> xs = ys"
  by (auto simp: is_list_def intro: dchain_unique)

section \<open>Insertion, removal and splicing on chains\<close>

text \<open>All three operations set links in pairs: \<open>relink a b\<close> makes \<open>b\<close> the successor of \<open>a\<close>.\<close>

definition relink :: "addr \<Rightarrow> addr \<Rightarrow> lheap \<Rightarrow> lheap" where
  "relink a b h = set_prev b a (set_next a b h)"

lemma dchain_relink [simp]:
  assumes "a \<notin> set (butlast xs)" and "b \<notin> set (tl xs)"
  shows "dchain (relink a b h) xs = dchain h xs"
proof
  assume "dchain h xs"
  then show "dchain (relink a b h) xs"
    by (rule dchain_frame) (use assms in \<open>auto simp: relink_def\<close>)
next
  assume "dchain (relink a b h) xs"
  then show "dchain h xs"
    by (rule dchain_frame) (use assms in \<open>auto simp: relink_def\<close>)
qed

lemma linked_relink [simp]:
  "linked (relink a b h) a b"
  "c \<noteq> a \<Longrightarrow> d \<noteq> b \<Longrightarrow> linked (relink a b h) c d = linked h c d"
  by (auto simp: relink_def linked_def)

lemma in_butlast_tl [simp]:
  "a \<notin> set xs \<Longrightarrow> a \<notin> set (butlast xs)" "a \<notin> set xs \<Longrightarrow> a \<notin> set (tl xs)"
  by (auto dest: in_set_butlastD) (cases xs; auto)

lemma relink_other: "c \<noteq> a \<Longrightarrow> c \<noteq> b \<Longrightarrow> relink a b h c = h c"
  by (simp add: relink_def)

lemma le_next_relink [simp]: "le_next (relink a b h c) = (if c = a then b else le_next (h c))"
  by (simp add: relink_def)

lemma le_prev_relink [simp]: "le_prev (relink a b h c) = (if c = b then a else le_prev (h c))"
  by (simp add: relink_def)

text \<open>Cells at the ends of disjoint parts of a chain are distinct.\<close>

lemma hd_last_distinct:
  assumes "distinct (xs @ ys)" and "xs \<noteq> []" and "ys \<noteq> []"
  shows "last xs \<notin> set ys" and "hd ys \<notin> set xs" and "hd xs \<notin> set ys" and "last ys \<notin> set xs"
  using assms by (auto dest: last_in_set list.set_sel(1))

lemma dchain_insert:
  assumes "dchain h (xs @ ys)" and "distinct (xs @ e # ys)" and "xs \<noteq> []" and "ys \<noteq> []"
  shows "dchain (relink e (hd ys) (relink (last xs) e h)) (xs @ e # ys)"
proof -
  have "last xs \<notin> set ys" "hd ys \<notin> set xs" "last xs \<noteq> e" "hd ys \<noteq> e"
    using assms hd_last_distinct [of xs ys] by auto
  with assms show ?thesis by (simp add: successively_Cons)
qed

lemma dchain_remove:
  assumes "dchain h (xs @ e # ys)" and "distinct (xs @ e # ys)" and "xs \<noteq> []" and "ys \<noteq> []"
  shows "dchain (relink (last xs) (hd ys) h) (xs @ ys)"
proof -
  have "last xs \<notin> set ys" "hd ys \<notin> set xs"
    using assms hd_last_distinct [of xs ys] by auto
  with assms show ?thesis by (simp add: successively_Cons)
qed

text \<open>Moving the cells \<open>zs\<close> of a chain in front of the cells \<open>ys\<close>.\<close>

lemma dchain_splice:
  assumes "dchain h (ws @ ys @ zs @ vs)" and "distinct (ws @ ys @ zs @ vs)"
    and "ws \<noteq> []" and "ys \<noteq> []" and "zs \<noteq> []" and "vs \<noteq> []"
  shows "dchain (relink (last zs) (hd ys) (relink (last ws) (hd zs) (relink (last ys) (hd vs) h)))
           (ws @ zs @ ys @ vs)"
proof -
  have mem: "last ws \<in> set ws" "last ys \<in> set ys" "last zs \<in> set zs"
    "hd ys \<in> set ys" "hd zs \<in> set zs" "hd vs \<in> set vs"
    using assms(3-6) by auto
  then have neq: "last ws \<notin> set ys" "last ws \<notin> set zs" "last ws \<notin> set vs"
    "last ys \<notin> set ws" "last ys \<notin> set zs" "last ys \<notin> set vs"
    "last zs \<notin> set ws" "last zs \<notin> set ys" "last zs \<notin> set vs"
    "hd ys \<notin> set ws" "hd ys \<notin> set zs" "hd ys \<notin> set vs"
    "hd zs \<notin> set ws" "hd zs \<notin> set ys" "hd zs \<notin> set vs"
    "hd vs \<notin> set ws" "hd vs \<notin> set ys" "hd vs \<notin> set zs"
    using assms(2) by auto
  with mem assms have "hd ys \<noteq> hd zs" "hd ys \<noteq> hd vs" "hd zs \<noteq> hd vs" 
    "last ys \<noteq> last zs" "last ws \<noteq> last zs" "last ws \<noteq> last ys"
    by metis+
  with neq assms show ?thesis by simp
qed

section \<open>Correctness of the routines\<close>

text \<open>
  Each routine returns (it does not panic) on a well-formed list, and its result represents the
  sequence the comments of \<open>list.c\<close> promise.  \<open>frame h h' cs\<close> says that no cell outside \<open>cs\<close>
  was written, so other lists are untouched.
\<close>

definition frame :: "lheap \<Rightarrow> lheap \<Rightarrow> addr set \<Rightarrow> bool" where
  "frame h h' cs \<longleftrightarrow> (\<forall>a. a \<notin> cs \<longrightarrow> h' a = h a)"

lemma frame_refl [simp, intro]: "frame h h cs"
  by (simp add: frame_def)

lemma frame_trans: "frame h h' cs \<Longrightarrow> frame h' h'' ds \<Longrightarrow> cs \<subseteq> es \<Longrightarrow> ds \<subseteq> es \<Longrightarrow> frame h h'' es"
  unfolding frame_def by (metis subsetD)

lemma frame_relink: "frame h h' cs \<Longrightarrow> a \<in> cs \<Longrightarrow> b \<in> cs \<Longrightarrow> frame h (relink a b h') cs"
  unfolding frame_def by (metis relink_other)

text \<open>A list that owns none of the written cells still represents the same sequence.\<close>

lemma is_list_frame:
  assumes "is_list h l xs" and "frame h h' cs" and "cs \<inter> set (cells l xs) = {}"
  shows "is_list h' l xs"
proof -
  have eq: "a \<in> set (cells l xs) \<Longrightarrow> h' a = h a" for a
    using assms(2,3) unfolding frame_def by blast
  have "dchain h' (cells l xs)"
  proof (rule dchain_frame [of h])
    show "dchain h (cells l xs)"
      using assms(1) by (simp add: is_list_def)
  next
    fix a assume "a \<in> set (butlast (cells l xs))"
    then show "le_next (h' a) = le_next (h a)"
      by (metis eq in_set_butlastD)
  next
    fix a assume "a \<in> set (tl (cells l xs))"
    then show "le_prev (h' a) = le_prev (h a)"
      by (metis eq list.sel(3) list.set_intros(2))
  qed
  moreover have "h' (head l) = h (head l)" and "h' (tail l) = h (tail l)"
    by (rule eq, simp)+
  ultimately show ?thesis
    using assms(1) by (simp add: is_list_def)
qed

lemma is_list_links:
  assumes "is_list h l (xs @ ys)"
  shows "le_next (h (last (head l # xs))) = hd (ys @ [tail l])"
    and "le_prev (h (hd (ys @ [tail l]))) = last (head l # xs)"
proof -
  have "dchain h ((head l # xs) @ (ys @ [tail l]))"
    using assms by (simp add: is_list_def)
  then have "linked h (last (head l # xs)) (hd (ys @ [tail l]))"
    by (subst (asm) dchain_append) auto
  then show "le_next (h (last (head l # xs))) = hd (ys @ [tail l])"
    and "le_prev (h (hd (ys @ [tail l]))) = last (head l # xs)"
    by (auto simp: linked_def)
qed

lemma is_list_begin: "is_list h l xs \<Longrightarrow> list_begin l h = hd (xs @ [tail l])"
  using is_list_links(1) [of h l "[]" xs] by (simp add: list_begin_def)

lemma is_list_rbegin: "is_list h l xs \<Longrightarrow> list_rbegin l h = last (head l # xs)"
  using is_list_links(2) [of h l xs "[]"] by (simp add: list_rbegin_def)

lemma is_list_next_link: "is_list h l (xs @ x # ys) \<Longrightarrow> le_next (h x) = hd (ys @ [tail l])"
  using is_list_links(1) [of h l "xs @ [x]" ys] by simp

lemma is_list_prev_link: "is_list h l (xs @ x # ys) \<Longrightarrow> le_prev (h x) = last (head l # xs)"
  using is_list_links(2) [of h l xs "x # ys"] by simp

lemma is_list_nonnull:
  assumes "is_list h l xs" and "set ys \<subseteq> set xs"
  shows "hd (ys @ [tail l]) \<noteq> NULL" and "last (head l # ys) \<noteq> NULL"
proof -
  have "hd (ys @ [tail l]) \<in> set (ys @ [tail l])" and "last (head l # ys) \<in> set (head l # ys)"
    by (rule hd_in_set, simp) (rule last_in_set, simp)
  then have "hd (ys @ [tail l]) \<in> set (cells l xs)" and "last (head l # ys) \<in> set (cells l xs)"
    using assms(2) by auto
  moreover have "NULL \<notin> set (cells l xs)"
    using assms(1) by (simp add: is_list_def)
  ultimately show "hd (ys @ [tail l]) \<noteq> NULL" and "last (head l # ys) \<noteq> NULL"
    by metis+
qed

lemma is_list_interior:
  assumes "is_list h l (xs @ x # ys)"
  shows "is_interior h x"
proof -
  have "hd (ys @ [tail l]) \<noteq> NULL" and "last (head l # xs) \<noteq> NULL"
    by (rule is_list_nonnull [OF assms], force)+
  moreover have "x \<noteq> NULL"
    using assms by (simp add: is_list_def)
  ultimately show ?thesis
    using is_list_next_link [OF assms] is_list_prev_link [OF assms] by (simp add: is_interior_def)
qed

lemma is_list_interior_mem: "is_list h l xs \<Longrightarrow> x \<in> set xs \<Longrightarrow> is_interior h x"
  by (auto simp: in_set_conv_decomp intro: is_list_interior)

lemma is_list_tail:
  assumes "is_list h l xs"
  shows "is_tail h (tail l)"
proof -
  have "last (head l # xs) \<noteq> NULL"
    by (rule is_list_nonnull [OF assms order_refl])
  with assms is_list_rbegin [OF assms] show ?thesis
    unfolding is_tail_def list_rbegin_def is_list_def by simp
qed

lemma is_list_head:
  assumes "is_list h l xs"
  shows "is_head h (head l)"
proof -
  have "hd (xs @ [tail l]) \<noteq> NULL"
    by (rule is_list_nonnull [OF assms order_refl])
  with assms is_list_begin [OF assms] show ?thesis
    unfolding is_head_def list_begin_def is_list_def by simp
qed

lemma is_list_before:
  "is_list h l (xs @ ys) \<Longrightarrow> is_interior h (hd (ys @ [tail l])) \<or> is_tail h (hd (ys @ [tail l]))"
  by (cases ys) (auto intro: is_list_interior is_list_tail)

lemma list_next_correct:
  "is_list h l (xs @ x # ys) \<Longrightarrow> list_next h x = Some (hd (ys @ [tail l]))"
  by (simp add: list_next_def is_list_interior is_list_next_link)

lemma list_prev_correct:
  "is_list h l (xs @ ys) \<Longrightarrow> list_prev h (hd (ys @ [tail l])) = Some (last (head l # xs))"
  using is_list_before [of h l xs ys] is_list_links(2) [of h l xs ys] by (simp add: list_prev_def)

lemma list_empty_correct: "is_list h l xs \<Longrightarrow> list_empty l h \<longleftrightarrow> xs = []"
  using is_list_begin [of h l xs] by (cases xs) (auto simp: list_empty_def list_end_def is_list_def)

lemma list_init_correct:
  assumes "head l \<noteq> tail l" and "head l \<noteq> NULL" and "tail l \<noteq> NULL"
  shows "is_list (list_init l h) l []" and "frame h (list_init l h) {head l, tail l}"
  using assms by (auto simp: list_init_def is_list_def linked_def frame_def)

lemma list_insert_heap:
  assumes "is_interior h before \<or> is_tail h before" and "elem \<noteq> NULL"
    and "elem \<noteq> before" and "elem \<noteq> le_prev (h before)" and "before \<noteq> le_prev (h before)"
  shows "list_insert before elem h =
           Some (relink elem before (relink (le_prev (h before)) elem h))"
  using assms by (auto simp: list_insert_def Let_def relink_def set_prev_def set_next_def)

lemma list_insert_correct:
  assumes l: "is_list h l (xs @ ys)" and e: "elem \<notin> set (cells l (xs @ ys))" "elem \<noteq> NULL"
  shows "\<exists>h'. list_insert (hd (ys @ [tail l])) elem h = Some h' \<and> is_list h' l (xs @ elem # ys) \<and>
              frame h h' (set (cells l (xs @ elem # ys)))"
proof -
  let ?v = "hd (ys @ [tail l])" and ?u = "last (head l # xs)"
  let ?h = "relink elem ?v (relink ?u elem h)"
  have d: "distinct ((head l # xs) @ elem # (ys @ [tail l]))"
    using l e by (auto simp: is_list_def)
  have mem: "?u \<in> set (head l # xs)" "?v \<in> set (ys @ [tail l])"
    by (rule last_in_set, simp) (rule hd_in_set, simp)
  have "?u \<notin> set (ys @ [tail l])" "?v \<notin> set (head l # xs)"
    using hd_last_distinct [of "head l # xs" "ys @ [tail l]"] d by auto
  with mem d have neq: "elem \<noteq> ?v" "elem \<noteq> ?u" "?v \<noteq> ?u" "?v \<noteq> head l" "?u \<noteq> tail l"
    by auto
  have ins: "list_insert ?v elem h = Some ?h"
    using list_insert_heap [of h ?v elem] is_list_before [OF l] is_list_links(2) [OF l] e(2) neq
    by simp
  have "dchain h ((head l # xs) @ (ys @ [tail l]))"
    using l by (simp add: is_list_def)
  then have "dchain ?h ((head l # xs) @ elem # (ys @ [tail l]))"
    using d by (rule dchain_insert) auto
  then have "is_list ?h l (xs @ elem # ys)"
    using l e d neq by (auto simp: is_list_def)
  moreover have "frame h ?h (set (cells l (xs @ elem # ys)))"
    by (intro frame_relink frame_refl) (use mem in auto)
  ultimately show ?thesis using ins by blast
qed

lemma list_push_front_correct:
  assumes "is_list h l xs" and "elem \<notin> set (cells l xs)" and "elem \<noteq> NULL"
  shows "\<exists>h'. list_push_front l elem h = Some h' \<and> is_list h' l (elem # xs) \<and>
              frame h h' (set (cells l (elem # xs)))"
  using list_insert_correct [of h l "[]" xs elem] assms is_list_begin [OF assms(1)]
  by (simp add: list_push_front_def)

lemma list_push_back_correct:
  assumes "is_list h l xs" and "elem \<notin> set (cells l xs)" and "elem \<noteq> NULL"
  shows "\<exists>h'. list_push_back l elem h = Some h' \<and> is_list h' l (xs @ [elem]) \<and>
              frame h h' (set (cells l (xs @ [elem])))"
  using list_insert_correct [of h l xs "[]" elem] assms
  by (simp add: list_push_back_def list_end_def)

lemma list_remove_correct:
  assumes l: "is_list h l (xs @ e # ys)"
  shows "\<exists>h'. list_remove e h = Some (hd (ys @ [tail l]), h') \<and> is_list h' l (xs @ ys) \<and>
              frame h h' (set (cells l (xs @ ys)))"
proof -
  let ?v = "hd (ys @ [tail l])" and ?u = "last (head l # xs)"
  let ?h = "relink ?u ?v h"
  have d: "distinct ((head l # xs) @ e # (ys @ [tail l]))"
    using l by (auto simp: is_list_def)
  have mem: "?u \<in> set (head l # xs)" "?v \<in> set (ys @ [tail l])"
    by (rule last_in_set, simp) (rule hd_in_set, simp)
  have "?u \<notin> set (ys @ [tail l])" "?v \<notin> set (head l # xs)"
    using hd_last_distinct [of "head l # xs" "ys @ [tail l]"] d by auto
  with mem d have neq: "e \<noteq> ?v" "e \<noteq> ?u" "?v \<noteq> ?u" "?v \<noteq> head l" "?u \<noteq> tail l"
    by auto
  have rem: "list_remove e h = Some (?v, ?h)"
    using is_list_interior [OF l] is_list_next_link [OF l] is_list_prev_link [OF l] neq
    by (simp add: list_remove_def Let_def relink_def)
  have "dchain h ((head l # xs) @ e # (ys @ [tail l]))"
    using l by (simp add: is_list_def)
  then have "dchain ?h ((head l # xs) @ (ys @ [tail l]))"
    using d by (rule dchain_remove) auto
  then have "is_list ?h l (xs @ ys)"
    using l d neq by (auto simp: is_list_def)
  moreover have "frame h ?h (set (cells l (xs @ ys)))"
    by (intro frame_relink frame_refl) (use mem in auto)
  ultimately show ?thesis using rem by blast
qed

lemma list_pop_front_correct:
  assumes "is_list h l (x # xs)"
  shows "\<exists>h'. list_pop_front l h = Some (x, h') \<and> is_list h' l xs \<and> frame h h' (set (cells l xs))"
proof -
  have "list_front l h = Some x"
    using assms is_list_begin [OF assms] list_empty_correct [OF assms]
    by (simp add: list_front_def list_begin_def)
  with list_remove_correct [of h l "[]" x xs] assms show ?thesis
    by (auto simp: list_pop_front_def)
qed

lemma list_pop_back_correct:
  assumes "is_list h l (xs @ [x])"
  shows "\<exists>h'. list_pop_back l h = Some (x, h') \<and> is_list h' l xs \<and> frame h h' (set (cells l xs))"
proof -
  have "list_back l h = Some x"
    using assms is_list_rbegin [OF assms] list_empty_correct [OF assms]
    by (simp add: list_back_def list_rbegin_def)
  with list_remove_correct [of h l xs x "[]"] assms show ?thesis
    by (auto simp: list_pop_back_def)
qed

text \<open>
  \<open>list_splice\<close> within one list moves the elements \<open>zs\<close> in front of the nonempty \<open>ys\<close>; this is
  how \<open>inplace_merge\<close> uses it.
\<close>

lemma lheap_eqI:
  assumes "\<And>a. le_prev (h a) = le_prev (h' a)" and "\<And>a. le_next (h a) = le_next (h' a)"
  shows "h = (h' :: lheap)"
  using assms by (intro ext) (metis (full_types) list_elem.surjective old.unit.exhaust)

lemma list_splice_heap:
  assumes "is_interior h before \<or> is_tail h before" and "fst_e \<noteq> lst_e"
    and "list_prev h lst_e = Some q" and "is_interior h fst_e" and "is_interior h q"
    and "le_prev (h fst_e) = p" and "le_next (h q) = n" and "le_prev (h before) = u"
    and "p \<noteq> q" and "n \<noteq> fst_e" and "n \<noteq> before" and "fst_e \<noteq> before" and "u \<noteq> q" and "u \<noteq> p"
  shows "list_splice before fst_e lst_e h =
           Some (relink q before (relink u fst_e (relink p n h)))"
  using assms by (auto simp: list_splice_def Let_def intro!: lheap_eqI)

lemma list_splice_correct:
  assumes l: "is_list h l (ws @ ys @ zs @ vs)" and ne: "ys \<noteq> []" "zs \<noteq> []"
  shows "\<exists>h'. list_splice (hd ys) (hd zs) (hd (vs @ [tail l])) h = Some h' \<and>
              is_list h' l (ws @ zs @ ys @ vs) \<and> frame h h' (set (cells l (ws @ ys @ zs @ vs)))"
proof -
  define W V where "W = head l # ws" and "V = vs @ [tail l]"
  have WV: "W \<noteq> []" "V \<noteq> []" "hd W = head l" "last V = tail l"
    by (simp_all add: W_def V_def)
  have cs: "cells l (ws @ ys @ zs @ vs) = W @ ys @ zs @ V"
    "cells l (ws @ zs @ ys @ vs) = W @ zs @ ys @ V"
    by (simp_all add: W_def V_def)
  let ?h = "relink (last zs) (hd ys) (relink (last W) (hd zs) (relink (last ys) (hd V) h))"
  have d: "distinct (W @ ys @ zs @ V)" and c: "dchain h (W @ ys @ zs @ V)"
    and n: "NULL \<notin> set (W @ ys @ zs @ V)"
    and ends: "le_prev (h (head l)) = NULL" "le_next (h (tail l)) = NULL"
    using l unfolding is_list_def cs by auto
  have links: "linked h (last W) (hd ys)" "linked h (last ys) (hd zs)" "linked h (last zs) (hd V)"
    using c ne WV by simp_all
  have mem: "last W \<in> set W" "last ys \<in> set ys" "last zs \<in> set zs"
    "hd W \<in> set W" "hd ys \<in> set ys" "hd zs \<in> set zs" "hd V \<in> set V" "last V \<in> set V"
    using ne WV(1,2) by auto
  have int: "is_interior h x" if "x \<in> set ys \<union> set zs" for x
    using is_list_interior_mem [OF l, of x] that by auto
  have prv: "list_prev h (hd V) = Some (last zs)"
    using list_prev_correct [of h l "ws @ ys @ zs" vs] l ne by (simp add: V_def)
  have spl: "list_splice (hd ys) (hd zs) (hd V) h = Some ?h"
    using mem d
    by (intro list_splice_heap) (use int prv links in \<open>auto simp: linked_def\<close>)
  have "dchain ?h (W @ zs @ ys @ V)"
    using c d WV(1) ne WV(2) by (rule dchain_splice)
  moreover have "le_prev (?h (head l)) = NULL" "le_next (?h (tail l)) = NULL"
    using ends mem d WV(3,4) by (auto simp: disjoint_iff)
  ultimately have "is_list ?h l (ws @ zs @ ys @ vs)"
    using d n unfolding is_list_def cs by auto
  moreover have "frame h ?h (set (cells l (ws @ ys @ zs @ vs)))"
    unfolding cs by (intro frame_relink frame_refl) (use mem in auto)
  ultimately show ?thesis
    using spl by (auto simp: V_def)
qed

lemma list_size_loop_correct:
  "is_list h l (xs @ ys) \<Longrightarrow>
   list_size_loop l h (hd (ys @ [tail l])) n = Some (if ys = [] then n else size_t (n + length ys))"
proof (induction ys arbitrary: xs n)
  case Nil
  then show ?case by (simp add: list_size_loop.simps list_end_def)
next
  case (Cons y ys)
  have "y \<noteq> tail l"
    using Cons.prems by (auto simp: is_list_def)
  moreover have "list_next h y = Some (hd (ys @ [tail l]))"
    using Cons.prems by (rule list_next_correct)
  moreover have "is_list h l ((xs @ [y]) @ ys)"
    using Cons.prems by simp
  ultimately show ?case
    using Cons.IH [of "xs @ [y]" "size_t (n + 1)"]
    by (simp add: list_size_loop.simps [of l h y] list_end_def size_t_def mod_simps)
qed

lemma list_size_correct: "is_list h l xs \<Longrightarrow> list_size l h = Some (size_t (length xs))"
  using list_size_loop_correct [of h l "[]" xs 0]
  by (simp add: list_size_def is_list_begin size_t_def split: if_splits)

text \<open>The loop of \<open>list_reverse\<close> swaps the links of the elements it has passed and no others.\<close>

definition swap_all :: "addr set \<Rightarrow> lheap \<Rightarrow> lheap" where
  "swap_all cs h = (\<lambda>a. if a \<in> cs then \<lparr>le_prev = le_next (h a), le_next = le_prev (h a)\<rparr> else h a)"

lemma list_reverse_loop_correct:
  assumes "is_list h l (xs @ ys)"
  shows "list_reverse_loop l (swap_all (set xs) h) (hd (ys @ [tail l])) = Some (swap_all (set (xs @ ys)) h)"
  using assms
proof (induction ys arbitrary: xs)
  case Nil
  then show ?case by (simp add: list_reverse_loop.simps list_end_def)
next
  case (Cons y ys)
  have y: "y \<noteq> tail l" "y \<noteq> NULL" "y \<notin> set xs"
    using Cons.prems by (auto simp: is_list_def)
  have nxt: "le_next (h y) = hd (ys @ [tail l])"
    using Cons.prems by (rule is_list_next_link)
  have swp: "swap_links y (swap_all (set xs) h) = swap_all (set (xs @ [y])) h"
    using y by (auto simp: swap_links_def swap_all_def)
  have "is_list h l ((xs @ [y]) @ ys)"
    using Cons.prems by simp
  from Cons.IH [OF this] show ?case
    using y nxt swp by (simp add: list_reverse_loop.simps [of l _ y] list_end_def swap_all_def)
qed

lemma dchain_swap_all:
  assumes "dchain h xs" and "set xs \<subseteq> cs"
  shows "dchain (swap_all cs h) (rev xs)"
proof -
  have "successively (\<lambda>x y. linked (swap_all cs h) y x) xs = dchain h xs"
    using assms(2) by (intro successively_cong) (auto simp: linked_def swap_all_def)
  then show ?thesis
    using assms(1) by simp
qed

lemma list_reverse_heap:
  assumes "is_list h l xs" and "xs \<noteq> []"
  shows "list_reverse l h = Some (relink (hd xs) (tail l) (relink (head l) (last xs) (swap_all (set xs) h)))"
proof -
  let ?h = "swap_all (set xs) h"
  have neq: "head l \<notin> set xs" "tail l \<notin> set xs" "head l \<noteq> tail l"
    using assms(1) by (auto simp: is_list_def)
  have mem: "hd xs \<in> set xs" "last xs \<in> set xs"
    using assms(2) by simp_all
  have neq': "hd xs \<noteq> head l" "hd xs \<noteq> tail l" "last xs \<noteq> head l" "last xs \<noteq> tail l"
    using mem neq by metis+
  have bgn: "list_begin l h = hd xs" and rbgn: "le_prev (h (tail l)) = last xs"
    using is_list_begin [OF assms(1)] is_list_rbegin [OF assms(1)] assms(2)
    by (simp_all add: list_rbegin_def)
  have loop: "list_reverse_loop l h (hd xs) = Some ?h"
    using list_reverse_loop_correct [of h l "[]" xs] assms by (simp add: swap_all_def)
  have "le_next (h (last xs)) = tail l" "le_prev (h (hd xs)) = head l"
    using is_list_next_link [of h l "butlast xs" "last xs" "[]"]
      is_list_prev_link [of h l "[]" "hd xs" "tl xs"] assms by simp_all
  then have sw: "le_next (?h (head l)) = hd xs" "le_prev (?h (tail l)) = last xs"
    "le_prev (?h (last xs)) = tail l" "le_next (?h (hd xs)) = head l"
    using neq bgn rbgn mem by (simp_all add: swap_all_def list_begin_def)
  show ?thesis
    using assms bgn loop neq neq' by (simp add: list_reverse_def list_empty_correct sw relink_def)
      (rule lheap_eqI; simp)
qed

lemma list_reverse_correct:
  assumes "is_list h l xs"
  shows "\<exists>h'. list_reverse l h = Some h' \<and> is_list h' l (rev xs) \<and> frame h h' (set (cells l xs))"
proof (cases "xs = []")
  case True
  then show ?thesis
    using assms by (auto simp: list_reverse_def list_empty_correct)
next
  case False
  let ?h = "relink (hd xs) (tail l) (relink (head l) (last xs) (swap_all (set xs) h))"
  have d: "distinct xs" "head l \<notin> set xs" "tail l \<notin> set xs" "head l \<noteq> tail l"
    "NULL \<notin> set (cells l xs)" "le_prev (h (head l)) = NULL" "le_next (h (tail l)) = NULL"
    using assms by (auto simp: is_list_def)
  have "dchain h ([head l] @ xs @ [tail l])"
    using assms by (simp add: is_list_def)
  then have "dchain h xs"
    unfolding successively_append_iff by simp
  then have "dchain (swap_all (set xs) h) (rev xs)"
    by (rule dchain_swap_all) simp
  moreover have "hd xs \<notin> set (tl xs)" "last xs \<notin> set (butlast xs)"
    using d(1) False by simp_all
  moreover have neq: "hd xs \<noteq> head l" "hd xs \<noteq> tail l" "last xs \<noteq> head l" "last xs \<noteq> tail l"
    using False d(2,3) by (metis hd_in_set last_in_set)+
  ultimately have "dchain ?h (rev xs)"
    using d(2,3) butlast_rev [of "rev xs"] by (simp add: butlast_rev del: successively_rev)
  moreover have "linked ?h (head l) (hd (rev xs))" "linked ?h (last (rev xs)) (tail l)"
    using neq d(4) False by (simp_all add: hd_rev last_rev)
  ultimately have "dchain ?h ([head l] @ rev xs @ [tail l])"
    unfolding successively_append_iff using False by simp
  then have "is_list ?h l (rev xs)"
    using d neq False by (auto simp: is_list_def swap_all_def)
  moreover have "frame h ?h (set (cells l xs))"
    using False by (intro frame_relink) (auto simp: frame_def swap_all_def)
  ultimately show ?thesis
    using list_reverse_heap [OF assms False] by blast
qed

end
