(* ===== verification/Klist_Sort.thy ===== *)
theory Klist_Sort
  imports Klist
begin

text \<open>
  The routines of \<open>src/src/lib/kernel/list.c\<close> that take a comparison function: the natural merge
  sort \<open>list_sort\<close>, \<open>list_insert_ordered\<close>, \<open>list_unique\<close>, \<open>list_max\<close> and
  \<open>list_min\<close>.  The locale \<open>list_less_func\<close> states what these routines need of the comparison
  function they are given.
\<close>

section \<open>Routines\<close>

type_synonym less_fun = "addr \<Rightarrow> addr \<Rightarrow> bool"

partial_function (option) is_sorted_loop :: "less_fun \<Rightarrow> lheap \<Rightarrow> addr \<Rightarrow> addr \<Rightarrow> bool option" where
  "is_sorted_loop lt h a b = do {
     a \<leftarrow> list_next h a;
     if a = b then Some True
     else do {
       p \<leftarrow> list_prev h a;
       if lt a p then Some False else is_sorted_loop lt h a b
     }
   }"

definition is_sorted :: "less_fun \<Rightarrow> lheap \<Rightarrow> addr \<Rightarrow> addr \<Rightarrow> bool option" where
  "is_sorted lt h a b = (if a \<noteq> b then is_sorted_loop lt h a b else Some True)"

partial_function (option) find_end_of_run_loop :: "less_fun \<Rightarrow> lheap \<Rightarrow> addr \<Rightarrow> addr \<Rightarrow> addr option" where
  "find_end_of_run_loop lt h a b = do {
     a \<leftarrow> list_next h a;
     if a = b then Some a
     else do {
       p \<leftarrow> list_prev h a;
       if lt a p then Some a else find_end_of_run_loop lt h a b
     }
   }"

definition find_end_of_run :: "less_fun \<Rightarrow> lheap \<Rightarrow> addr \<Rightarrow> addr \<Rightarrow> addr option" where
  "find_end_of_run lt h a b = do {
     ASSERT (a \<noteq> NULL);
     ASSERT (b \<noteq> NULL);
     ASSERT (a \<noteq> b);
     find_end_of_run_loop lt h a b
   }"

partial_function (option) inplace_merge_loop :: "less_fun \<Rightarrow> addr \<Rightarrow> addr \<Rightarrow> addr \<Rightarrow> lheap \<Rightarrow> lheap option" where
  "inplace_merge_loop lt a0 a1b0 b1 h =
     (if a0 \<noteq> a1b0 \<and> a1b0 \<noteq> b1 then
        if \<not> lt a1b0 a0 then do {
          a0 \<leftarrow> list_next h a0;
          inplace_merge_loop lt a0 a1b0 b1 h
        }
        else do {
          a1b0 \<leftarrow> list_next h a1b0;
          p \<leftarrow> list_prev h a1b0;
          h \<leftarrow> list_splice a0 p a1b0 h;
          inplace_merge_loop lt a0 a1b0 b1 h
        }
      else Some h)"

definition inplace_merge :: "less_fun \<Rightarrow> addr \<Rightarrow> addr \<Rightarrow> addr \<Rightarrow> lheap \<Rightarrow> lheap option" where
  "inplace_merge lt a0 a1b0 b1 h = do {
     ASSERT (a0 \<noteq> NULL);
     ASSERT (a1b0 \<noteq> NULL);
     ASSERT (b1 \<noteq> NULL);
     s \<leftarrow> is_sorted lt h a0 a1b0;
     ASSERT s;
     s \<leftarrow> is_sorted lt h a1b0 b1;
     ASSERT s;
     inplace_merge_loop lt a0 a1b0 b1 h
   }"

text \<open>One pass of \<open>list_sort\<close> over the list: the \<open>for\<close> loop, with the number of runs output.\<close>

partial_function (option) list_sort_pass ::
    "less_fun \<Rightarrow> klist \<Rightarrow> addr \<Rightarrow> nat \<Rightarrow> lheap \<Rightarrow> (nat \<times> lheap) option" where
  "list_sort_pass lt l a0 output_run_cnt h =
     (if a0 = list_end l then Some (output_run_cnt, h)
      else do {
        let output_run_cnt = size_t (output_run_cnt + 1);
        a1b0 \<leftarrow> find_end_of_run lt h a0 (list_end l);
        if a1b0 = list_end l then Some (output_run_cnt, h)
        else do {
          b1 \<leftarrow> find_end_of_run lt h a1b0 (list_end l);
          h \<leftarrow> inplace_merge lt a0 a1b0 b1 h;
          list_sort_pass lt l b1 output_run_cnt h
        }
      })"

partial_function (option) list_sort_loop :: "less_fun \<Rightarrow> klist \<Rightarrow> lheap \<Rightarrow> lheap option" where
  "list_sort_loop lt l h = do {
     (output_run_cnt, h) \<leftarrow> list_sort_pass lt l (list_begin l h) 0 h;
     if output_run_cnt > 1 then list_sort_loop lt l h else Some h
   }"

definition list_sort :: "less_fun \<Rightarrow> klist \<Rightarrow> lheap \<Rightarrow> lheap option" where
  "list_sort lt l h = do {
     h \<leftarrow> list_sort_loop lt l h;
     s \<leftarrow> is_sorted lt h (list_begin l h) (list_end l);
     ASSERT s;
     Some h
   }"

partial_function (option) list_insert_ordered_loop ::
    "less_fun \<Rightarrow> klist \<Rightarrow> addr \<Rightarrow> lheap \<Rightarrow> addr \<Rightarrow> addr option" where
  "list_insert_ordered_loop lt l elem h e =
     (if e = list_end l then Some e
      else if lt elem e then Some e
      else do { e \<leftarrow> list_next h e; list_insert_ordered_loop lt l elem h e })"

definition list_insert_ordered :: "less_fun \<Rightarrow> klist \<Rightarrow> addr \<Rightarrow> lheap \<Rightarrow> lheap option" where
  "list_insert_ordered lt l elem h = do {
     ASSERT (elem \<noteq> NULL);
     e \<leftarrow> list_insert_ordered_loop lt l elem h (list_begin l h);
     list_insert e elem h
   }"

text \<open>\<open>duplicates\<close> is the list that collects the removed elements; \<open>None\<close> is the null pointer.\<close>

partial_function (option) list_unique_loop ::
    "less_fun \<Rightarrow> klist \<Rightarrow> klist option \<Rightarrow> addr \<Rightarrow> lheap \<Rightarrow> lheap option" where
  "list_unique_loop lt l duplicates elem h = do {
     nxt \<leftarrow> list_next h elem;
     if nxt = list_end l then Some h
     else if \<not> lt elem nxt \<and> \<not> lt nxt elem then do {
       (_, h) \<leftarrow> list_remove nxt h;
       h \<leftarrow> (case duplicates of None \<Rightarrow> Some h | Some d \<Rightarrow> list_push_back d nxt h);
       list_unique_loop lt l duplicates elem h
     }
     else list_unique_loop lt l duplicates nxt h
   }"

definition list_unique :: "less_fun \<Rightarrow> klist \<Rightarrow> klist option \<Rightarrow> lheap \<Rightarrow> lheap option" where
  "list_unique lt l duplicates h =
     (if list_empty l h then Some h
      else list_unique_loop lt l duplicates (list_begin l h) h)"

partial_function (option) list_max_loop ::
    "less_fun \<Rightarrow> klist \<Rightarrow> lheap \<Rightarrow> addr \<Rightarrow> addr \<Rightarrow> addr option" where
  "list_max_loop lt l h mx e =
     (if e = list_end l then Some mx
      else do {
        e' \<leftarrow> list_next h e;
        list_max_loop lt l h (if lt mx e then e else mx) e'
      })"

definition list_max :: "less_fun \<Rightarrow> klist \<Rightarrow> lheap \<Rightarrow> addr option" where
  "list_max lt l h =
     (let mx = list_begin l h in
      if mx \<noteq> list_end l then do {
        e \<leftarrow> list_next h mx;
        list_max_loop lt l h mx e
      }
      else Some mx)"

partial_function (option) list_min_loop ::
    "less_fun \<Rightarrow> klist \<Rightarrow> lheap \<Rightarrow> addr \<Rightarrow> addr \<Rightarrow> addr option" where
  "list_min_loop lt l h mn e =
     (if e = list_end l then Some mn
      else do {
        e' \<leftarrow> list_next h e;
        list_min_loop lt l h (if lt e mn then e else mn) e'
      })"

definition list_min :: "less_fun \<Rightarrow> klist \<Rightarrow> lheap \<Rightarrow> addr option" where
  "list_min lt l h =
     (let mn = list_begin l h in
      if mn \<noteq> list_end l then do {
        e \<leftarrow> list_next h mn;
        list_min_loop lt l h mn e
      }
      else Some mn)"

section \<open>The same routines on sequences\<close>

abbreviation in_order :: "('a \<Rightarrow> 'a \<Rightarrow> bool) \<Rightarrow> 'a list \<Rightarrow> bool" where
  "in_order lt \<equiv> successively (\<lambda>x y. \<not> lt y x)"

fun split_run :: "('a \<Rightarrow> 'a \<Rightarrow> bool) \<Rightarrow> 'a list \<Rightarrow> 'a list \<times> 'a list" where
  "split_run lt [] = ([], [])"
| "split_run lt [x] = ([x], [])"
| "split_run lt (x # y # zs) =
     (if lt y x then ([x], y # zs)
      else (let (r, s) = split_run lt (y # zs) in (x # r, s)))"

fun merge :: "('a \<Rightarrow> 'a \<Rightarrow> bool) \<Rightarrow> 'a list \<Rightarrow> 'a list \<Rightarrow> 'a list" where
  "merge lt [] bs = bs"
| "merge lt as [] = as"
| "merge lt (a # as) (b # bs) =
     (if \<not> lt b a then a # merge lt as (b # bs) else b # merge lt (a # as) bs)"

fun descents :: "('a \<Rightarrow> 'a \<Rightarrow> bool) \<Rightarrow> 'a list \<Rightarrow> nat" where
  "descents lt [] = 0"
| "descents lt [x] = 0"
| "descents lt (x # y # zs) = (if lt y x then 1 else 0) + descents lt (y # zs)"

lemma split_run_append: "split_run lt xs = (r, s) \<Longrightarrow> xs = r @ s"
  by (induction lt xs arbitrary: r s rule: split_run.induct)
    (auto split: if_splits prod.splits)

lemma split_run_nonempty: "split_run lt xs = (r, s) \<Longrightarrow> xs \<noteq> [] \<Longrightarrow> r \<noteq> []"
  by (induction lt xs arbitrary: r s rule: split_run.induct)
    (auto split: if_splits prod.splits)

lemma split_run_hd: "split_run lt (x # xs) = (r, s) \<Longrightarrow> \<exists>r'. r = x # r'"
  by (metis append_eq_Cons_conv list.distinct(1) split_run_append split_run_nonempty)

lemma split_run_in_order: "split_run lt xs = (r, s) \<Longrightarrow> in_order lt r"
proof (induction lt xs arbitrary: r s rule: split_run.induct)
  case (3 lt x y zs)
  then show ?case
    using split_run_hd [of lt y zs] by (fastforce split: if_splits prod.splits)
qed auto

lemma split_run_descents:
  "split_run lt xs = (r, s) \<Longrightarrow> s \<noteq> [] \<Longrightarrow> descents lt xs = Suc (descents lt s)"
  by (induction lt xs arbitrary: r s rule: split_run.induct)
    (auto split: if_splits prod.splits)

lemma split_run_length [termination_simp]:
  "(r, s) = split_run lt xs \<Longrightarrow> xs \<noteq> [] \<Longrightarrow> length s < length xs"
  using split_run_append [of lt xs r s] split_run_nonempty [of lt xs r s] by auto

function merge_pass :: "('a \<Rightarrow> 'a \<Rightarrow> bool) \<Rightarrow> 'a list \<Rightarrow> nat \<times> 'a list" where
  "merge_pass lt xs =
     (if xs = [] then (0, [])
      else let (r1, s1) = split_run lt xs in
        if s1 = [] then (1, r1)
        else let (r2, s2) = split_run lt s1; (n, ys) = merge_pass lt s2
          in (n + 1, merge lt r1 r2 @ ys))"
  by pat_completeness auto
termination
  by (relation "measure (\<lambda>(_, xs). length xs)")
    (auto dest!: split_run_length intro: less_trans)

declare merge_pass.simps [simp del]

lemma merge_pass_Nil [simp]: "merge_pass lt [] = (0, [])"
  by (simp add: merge_pass.simps)

lemma in_order_descents: "in_order lt xs \<longleftrightarrow> descents lt xs = 0"
  by (induction lt xs rule: descents.induct) auto

lemma descents_append: "descents lt (xs @ ys) \<le> descents lt xs + descents lt ys + 1"
proof (induction lt xs rule: descents.induct)
  case (2 lt x)
  then show ?case by (cases ys) auto
qed auto

lemma merge_induct [case_names Nil1 Nil2 Cons]:
  assumes "\<And>bs. P [] bs" and "\<And>a as. P (a # as) []"
    and "\<And>a as b bs. (\<not> lt b a \<Longrightarrow> P as (b # bs)) \<Longrightarrow> (lt b a \<Longrightarrow> P (a # as) bs) \<Longrightarrow> P (a # as) (b # bs)"
  shows "P (as :: 'a list) (bs :: 'a list)"
  using merge.induct [of "\<lambda>l xs ys. l = lt \<longrightarrow> P xs ys" lt as bs] assms by auto

lemma mset_merge [simp]: "mset (merge lt as bs) = mset as + mset bs"
  by (induction lt as bs rule: merge.induct) auto

lemma set_merge [simp]: "set (merge lt as bs) = set as \<union> set bs"
  by (metis mset_merge set_mset_mset set_mset_union)

lemma length_merge [simp]: "length (merge lt as bs) = length as + length bs"
  by (metis mset_merge size_mset size_union)


lemma merge_pass_cases [consumes 1, case_names Nil One Two]:
  assumes "merge_pass lt xs = (n, ys)"
  obtains "xs = []" "n = 0" "ys = []"
  | "xs \<noteq> []" "split_run lt xs = (xs, [])" "n = 1" "ys = xs" "in_order lt xs"
  | r1 r2 s2 m zs where "split_run lt xs = (r1, r2 @ s2)" "split_run lt (r2 @ s2) = (r2, s2)"
      "merge_pass lt s2 = (m, zs)" "n = m + 1" "ys = merge lt r1 r2 @ zs" "xs = r1 @ r2 @ s2"
      "r1 \<noteq> []" "r2 \<noteq> []" "in_order lt r1" "in_order lt r2" "length s2 < length xs"
proof (cases "xs = []")
  case True
  then show ?thesis using assms that(1) by simp
next
  case False
  obtain r1 s1 where r1: "split_run lt xs = (r1, s1)" by fastforce
  obtain r2 s2 where r2: "split_run lt s1 = (r2, s2)" by fastforce
  obtain m zs where m: "merge_pass lt s2 = (m, zs)" by fastforce
  have app: "xs = r1 @ s1" "s1 = r2 @ s2"
    using r1 r2 by (auto dest: split_run_append)
  have ne: "r1 \<noteq> []" "s1 \<noteq> [] \<Longrightarrow> r2 \<noteq> []"
    using r1 r2 False by (auto dest: split_run_nonempty)
  have eq: "(n, ys) = (if s1 = [] then (1, r1) else (m + 1, merge lt r1 r2 @ zs))"
    unfolding assms [symmetric] merge_pass.simps [of lt xs] using False by (simp add: r1 r2 m)
  show ?thesis
  proof (cases "s1 = []")
    case True
    then have "n = 1" "ys = xs"
      using eq app by simp_all
    then show ?thesis
      using that(2) r1 app True False split_run_in_order [OF r1] by simp
  next
    case ne': False
    then have "n = m + 1" "ys = merge lt r1 r2 @ zs"
      using eq by simp_all
    then show ?thesis
      using that(3) r1 r2 m app ne ne' split_run_in_order [OF r1] split_run_in_order [OF r2] by simp
  qed
qed

lemma merge_pass_mset: "merge_pass lt xs = (n, ys) \<Longrightarrow> mset ys = mset xs"
proof (induction "length xs" arbitrary: xs n ys rule: less_induct)
  case less
  from less.prems show ?case
  proof (cases rule: merge_pass_cases)
    case (Two r1 r2 s2 m zs)
    then show ?thesis
      using less.hyps [OF Two(11,3)] by simp
  qed simp_all
qed

lemma merge_pass_count:
  "merge_pass lt xs = (n, ys) \<Longrightarrow> 2 * n \<le> descents lt xs + 2 \<and> n \<le> length xs \<and> (n = 0 \<longleftrightarrow> xs = [])"
proof (induction "length xs" arbitrary: xs n ys rule: less_induct)
  case less
  from less.prems show ?case
  proof (cases rule: merge_pass_cases)
    case (Two r1 r2 s2 m zs)
    have "descents lt xs = Suc (descents lt (r2 @ s2))"
      using Two by (intro split_run_descents) auto
    moreover have "s2 \<noteq> [] \<Longrightarrow> descents lt (r2 @ s2) = Suc (descents lt s2)"
      using Two by (intro split_run_descents) auto
    ultimately show ?thesis
      using less.hyps [OF Two(11,3)] Two by (cases "s2 = []"; cases r1) auto
  qed (auto simp: Suc_leI)
qed

definition incomparable :: "('a \<Rightarrow> 'a \<Rightarrow> bool) \<Rightarrow> 'a \<Rightarrow> 'a \<Rightarrow> bool" where
  "incomparable lt a b \<longleftrightarrow> \<not> lt a b \<and> \<not> lt b a"

text \<open>
  What the routines rely on: the function they are given is a strict weak order, that is, it is
  asymmetric and incomparability is transitive.
\<close>

locale list_less_func =
  fixes lt :: "'a \<Rightarrow> 'a \<Rightarrow> bool"
  assumes lt_asym: "lt a b \<Longrightarrow> \<not> lt b a"
    and not_lt_trans: "\<not> lt b a \<Longrightarrow> \<not> lt c b \<Longrightarrow> \<not> lt c a"
begin

lemma lt_irrefl [simp]: "\<not> lt a a"
  using lt_asym by blast

lemma in_order_sorted: "in_order lt xs \<longleftrightarrow> sorted_wrt (\<lambda>x y. \<not> lt y x) xs"
  by (rule successively_conv_sorted_wrt, rule transpI, rule not_lt_trans)

lemma merge_sorted:
  "in_order lt as \<Longrightarrow> in_order lt bs \<Longrightarrow> in_order lt (merge lt as bs)"
  unfolding in_order_sorted
proof (induction as bs rule: merge_induct [where lt = lt])
  case (Cons a as b bs)
  show ?case
  proof (cases "lt b a")
    case True
    then have "\<not> lt x b" if "\<not> lt x a" for x
      using that lt_asym not_lt_trans by blast
    then show ?thesis
      using Cons True lt_asym [OF True] by auto
  next
    case False
    then have "\<not> lt x a" if "\<not> lt x b" for x
      using that not_lt_trans by blast
    then show ?thesis
      using Cons False by auto
  qed
qed auto

lemma same_before: "lt b a \<Longrightarrow> \<not> lt y a \<Longrightarrow> incomparable lt x b \<Longrightarrow> \<not> incomparable lt x y"
  unfolding incomparable_def using not_lt_trans by blast

lemma merge_stable:
  "in_order lt as \<Longrightarrow> in_order lt bs \<Longrightarrow>
   filter (incomparable lt x) (merge lt as bs) = filter (incomparable lt x) as @ filter (incomparable lt x) bs"
  unfolding in_order_sorted
proof (induction as bs rule: merge_induct [where lt = lt])
  case (Cons a as b bs)
  have "filter (incomparable lt x) (a # as) = []" if "lt b a" "incomparable lt x b"
    using Cons.prems(1) that same_before [of b a] by (auto simp: filter_empty_conv)
  then show ?case
    using Cons by auto
qed auto

lemma merge_pass_descents: "merge_pass lt xs = (n, ys) \<Longrightarrow> descents lt ys \<le> n - 1"
proof (induction "length xs" arbitrary: xs n ys rule: less_induct)
  case less
  from less.prems show ?case
  proof (cases rule: merge_pass_cases)
    case (Two r1 r2 s2 m zs)
    have "in_order lt (merge lt r1 r2)"
      using Two by (intro merge_sorted)
    then have "descents lt ys \<le> descents lt zs + 1"
      using Two(5) descents_append [of lt "merge lt r1 r2" zs] by (simp add: in_order_descents)
    moreover have "descents lt zs \<le> m - 1"
      using less.hyps [OF Two(11,3)] .
    moreover have "zs = [] \<Longrightarrow> descents lt ys = 0"
      using Two(5) \<open>in_order lt (merge lt r1 r2)\<close> by (simp add: in_order_descents)
    moreover have "zs \<noteq> [] \<Longrightarrow> m \<noteq> 0"
      using merge_pass_count [OF Two(3)] Two(3) by auto
    ultimately show ?thesis
      using Two(4) by (cases "zs = []") auto
  qed (auto simp: in_order_descents)
qed

lemma merge_pass_stable:
  "merge_pass lt xs = (n, ys) \<Longrightarrow> filter (incomparable lt x) ys = filter (incomparable lt x) xs"
proof (induction "length xs" arbitrary: xs n ys rule: less_induct)
  case less
  from less.prems show ?case
  proof (cases rule: merge_pass_cases)
    case (Two r1 r2 s2 m zs)
    show ?thesis
      using less.hyps [OF Two(11,3)] merge_stable [OF Two(9,10)] by (simp add: Two(5,6))
  qed simp_all
qed

text \<open>A pass that outputs more than one run leaves strictly fewer descents; one that does not, sorts.\<close>

lemma merge_pass_decreases:
  assumes "merge_pass lt xs = (n, ys)"
  shows "1 < n \<Longrightarrow> descents lt ys < descents lt xs" and "n \<le> 1 \<Longrightarrow> in_order lt ys"
proof -
  have *: "descents lt ys \<le> n - 1" "2 * n \<le> descents lt xs + 2"
    using merge_pass_descents [OF assms] merge_pass_count [OF assms] by blast+
  show "1 < n \<Longrightarrow> descents lt ys < descents lt xs"
    using * by linarith
  show "n \<le> 1 \<Longrightarrow> in_order lt ys"
    using * by (simp add: in_order_descents)
qed

end

section \<open>The pointer routines implement the routines on sequences\<close>

lemma is_list_cut_neq: "is_list h l (xs @ y # ys @ zs) \<Longrightarrow> y \<noteq> hd (zs @ [tail l])"
  by (cases zs) (auto simp: is_list_def)

lemma is_sorted_loop_correct:
  "is_list h l (ws @ x # xs @ vs) \<Longrightarrow>
   is_sorted_loop lt h x (hd (vs @ [tail l])) = Some (in_order lt (x # xs))"
proof (induction xs arbitrary: ws x)
  case Nil
  then show ?case
    using list_next_correct [of h l ws x vs] by (simp add: is_sorted_loop.simps)
next
  case (Cons y ys)
  have nx: "list_next h x = Some y"
    using list_next_correct [of h l ws x "y # ys @ vs"] Cons.prems by simp
  have pv: "list_prev h y = Some x"
    using list_prev_correct [of h l "ws @ [x]" "y # ys @ vs"] Cons.prems by simp
  have neq: "y \<noteq> hd (vs @ [tail l])"
    using is_list_cut_neq [of h l "ws @ [x]" y ys vs] Cons.prems by simp
  show ?case
    using Cons.IH [of "ws @ [x]" y] Cons.prems nx pv neq
    by (subst is_sorted_loop.simps) simp
qed

lemma is_sorted_correct:
  assumes "is_list h l (ws @ xs @ vs)"
  shows "is_sorted lt h (hd (xs @ vs @ [tail l])) (hd (vs @ [tail l])) = Some (in_order lt xs)"
proof (cases xs)
  case (Cons y ys)
  then show ?thesis
    using is_sorted_loop_correct [of h l ws y ys vs] is_list_cut_neq [of h l ws y ys vs] assms
    by (simp add: is_sorted_def)
qed (simp add: is_sorted_def)

lemma find_end_of_run_loop_correct:
  "is_list h l (ws @ x # xs @ vs) \<Longrightarrow>
   find_end_of_run_loop lt h x (hd (vs @ [tail l])) =
     Some (hd (snd (split_run lt (x # xs)) @ vs @ [tail l]))"
proof (induction xs arbitrary: ws x)
  case Nil
  then show ?case
    using list_next_correct [of h l ws x vs] by (simp add: find_end_of_run_loop.simps)
next
  case (Cons y ys)
  have nx: "list_next h x = Some y"
    using list_next_correct [of h l ws x "y # ys @ vs"] Cons.prems by simp
  have pv: "list_prev h y = Some x"
    using list_prev_correct [of h l "ws @ [x]" "y # ys @ vs"] Cons.prems by simp
  have neq: "y \<noteq> hd (vs @ [tail l])"
    using is_list_cut_neq [of h l "ws @ [x]" y ys vs] Cons.prems by simp
  show ?case
    using Cons.IH [of "ws @ [x]" y] Cons.prems nx pv neq
    by (subst find_end_of_run_loop.simps) (simp add: case_prod_unfold Let_def)
qed

lemma is_list_hd_neq_tail: "is_list h l (ws @ ys) \<Longrightarrow> ys \<noteq> [] \<Longrightarrow> hd (ys @ [tail l]) \<noteq> tail l"
  by (cases ys) (auto simp: is_list_def)

lemma is_list_NULL: "is_list h l (xs @ ys) \<Longrightarrow> hd (ys @ [tail l]) \<noteq> NULL"
  by (cases ys) (auto simp: is_list_def)

lemma find_end_of_run_correct:
  assumes "is_list h l (ws @ xs)" and "split_run lt xs = (r, s)" and "xs \<noteq> []"
  shows "find_end_of_run lt h (hd (xs @ [tail l])) (tail l) = Some (hd (s @ [tail l]))"
proof -
  obtain y ys where xs: "xs = y # ys"
    using assms(3) by (cases xs) auto
  show ?thesis
    using find_end_of_run_loop_correct [of h l ws y ys "[]" lt] assms is_list_cut_neq [of h l ws y ys "[]"]
      is_list_NULL [of h l ws xs] is_list_NULL [of h l "ws @ xs" "[]"]
    by (simp add: find_end_of_run_def xs)
qed

lemma inplace_merge_loop_correct:
  assumes "is_list h l (ws @ as @ bs @ vs)"
  shows "\<exists>h'. inplace_merge_loop lt (hd (as @ bs @ vs @ [tail l])) (hd (bs @ vs @ [tail l])) (hd (vs @ [tail l])) h
                = Some h' \<and> is_list h' l (ws @ merge lt as bs @ vs) \<and> frame h h' (set (cells l (ws @ as @ bs @ vs)))"
  using assms
proof (induction as bs arbitrary: ws h rule: merge_induct [where lt = lt])
  case (Nil1 bs)
  then show ?case by (subst inplace_merge_loop.simps) simp
next
  case (Nil2 a as)
  then show ?case by (subst inplace_merge_loop.simps) simp
next
  case (Cons a as b bs)
  have neq: "a \<noteq> b" "b \<noteq> hd (vs @ [tail l])"
    using is_list_cut_neq [of h l "ws @ a # as" b bs vs] Cons.prems by (auto simp: is_list_def)
  show ?case
  proof (cases "lt b a")
    case False
    have "list_next h a = Some (hd (as @ b # bs @ vs @ [tail l]))"
      using list_next_correct [of h l ws a "as @ b # bs @ vs"] Cons.prems by simp
    then show ?thesis
      using Cons.IH(1) [of h "ws @ [a]"] Cons.prems neq False
      by (subst inplace_merge_loop.simps) simp
  next
    case True
    have nx: "list_next h b = Some (hd (bs @ vs @ [tail l]))"
      using list_next_correct [of h l "ws @ a # as" b "bs @ vs"] Cons.prems by simp
    have pv: "list_prev h (hd (bs @ vs @ [tail l])) = Some b"
      using list_prev_correct [of h l "ws @ a # as @ [b]" "bs @ vs"] Cons.prems by simp
    obtain h1 where h1: "list_splice a b (hd (bs @ vs @ [tail l])) h = Some h1"
        "is_list h1 l (ws @ [b] @ (a # as) @ bs @ vs)" "frame h h1 (set (cells l (ws @ (a # as) @ (b # bs) @ vs)))"
      using list_splice_correct [of h l ws "a # as" "[b]" "bs @ vs"] Cons.prems by auto
    have "is_list h1 l ((ws @ [b]) @ (a # as) @ bs @ vs)"
      using h1(2) by simp
    from Cons.IH(2) [OF True this] obtain h2 where
      h2: "inplace_merge_loop lt a (hd (bs @ vs @ [tail l])) (hd (vs @ [tail l])) h1 = Some h2"
        "is_list h2 l ((ws @ [b]) @ merge lt (a # as) bs @ vs)"
        "frame h1 h2 (set (cells l ((ws @ [b]) @ (a # as) @ bs @ vs)))"
      by auto
    have "frame h h2 (set (cells l (ws @ (a # as) @ (b # bs) @ vs)))"
      using h1(3) h2(3) by (rule frame_trans) auto
    then show ?thesis
      using h1(1) h2(1,2) nx pv True neq by (subst inplace_merge_loop.simps) simp
  qed
qed

lemma inplace_merge_correct:
  assumes "is_list h l (ws @ as @ bs @ vs)" and "in_order lt as" and "in_order lt bs"
  shows "\<exists>h'. inplace_merge lt (hd (as @ bs @ vs @ [tail l])) (hd (bs @ vs @ [tail l])) (hd (vs @ [tail l])) h
                = Some h' \<and> is_list h' l (ws @ merge lt as bs @ vs) \<and> frame h h' (set (cells l (ws @ as @ bs @ vs)))"
proof -
  have "is_sorted lt h (hd (as @ bs @ vs @ [tail l])) (hd (bs @ vs @ [tail l])) = Some True"
    "is_sorted lt h (hd (bs @ vs @ [tail l])) (hd (vs @ [tail l])) = Some True"
    using is_sorted_correct [of h l ws as "bs @ vs" lt] is_sorted_correct [of h l "ws @ as" bs vs lt] assms
    by simp_all
  moreover have "hd (as @ bs @ vs @ [tail l]) \<noteq> NULL" "hd (bs @ vs @ [tail l]) \<noteq> NULL" "hd (vs @ [tail l]) \<noteq> NULL"
    using is_list_NULL [of h l ws "as @ bs @ vs"] is_list_NULL [of h l "ws @ as" "bs @ vs"]
      is_list_NULL [of h l "ws @ as @ bs" vs] assms(1) by simp_all
  ultimately show ?thesis
    using inplace_merge_loop_correct [OF assms(1), of lt] by (auto simp: inplace_merge_def)
qed

lemma list_sort_pass_correct:
  assumes "is_list h l (ws @ xs)" and "merge_pass lt xs = (n, ys)" and "length xs + m < 2 ^ 32"
  shows "\<exists>h'. list_sort_pass lt l (hd (xs @ [tail l])) m h = Some (m + n, h') \<and> is_list h' l (ws @ ys) \<and>
              frame h h' (set (cells l (ws @ xs)))"
  using assms
proof (induction "length xs" arbitrary: ws xs n ys m h rule: less_induct)
  case less
  have sz: "size_t (m + 1) = m + 1" if "xs \<noteq> []"
    using less.prems(3) that by (cases xs) (auto simp: size_t_id)
  have neq: "xs \<noteq> [] \<Longrightarrow> hd (xs @ [tail l]) \<noteq> tail l"
    using is_list_hd_neq_tail [OF less.prems(1)] .
  from less.prems(2) show ?case
  proof (cases rule: merge_pass_cases)
    case Nil
    then show ?thesis
      using less.prems by (subst list_sort_pass.simps) (simp add: list_end_def)
  next
    case One
    then show ?thesis
      using less.prems(1) sz neq find_end_of_run_correct [OF less.prems(1) One(2,1)]
      by (subst list_sort_pass.simps) (simp add: list_end_def)
  next
    case (Two r1 r2 s2 k zs)
    define a0 a1b0 b1 where ptrs: "a0 = hd (xs @ [tail l])" "a1b0 = hd ((r2 @ s2) @ [tail l])"
      "b1 = hd (s2 @ [tail l])"
    have f1: "find_end_of_run lt h a0 (tail l) = Some a1b0"
      unfolding ptrs using Two less.prems(1) by (intro find_end_of_run_correct) auto
    have f2: "find_end_of_run lt h a1b0 (tail l) = Some b1"
      unfolding ptrs using Two less.prems(1) by (intro find_end_of_run_correct [of h l "ws @ r1"]) auto
    obtain h1 where h1: "inplace_merge lt a0 a1b0 b1 h = Some h1"
        "is_list h1 l ((ws @ merge lt r1 r2) @ s2)" "frame h h1 (set (cells l (ws @ xs)))"
      using inplace_merge_correct [OF less.prems(1) [unfolded Two(6)] Two(9,10)] unfolding ptrs Two(6)
      by auto
    obtain h2 where h2: "list_sort_pass lt l b1 (m + 1) h1 = Some (m + 1 + k, h2)"
        "is_list h2 l ((ws @ merge lt r1 r2) @ zs)" "frame h1 h2 (set (cells l ((ws @ merge lt r1 r2) @ s2)))"
      unfolding ptrs
      using less.hyps [OF Two(11) h1(2) Two(3), of "m + 1"] Two(11) less.prems(3) by auto
    have fr: "frame h h2 (set (cells l (ws @ xs)))"
      using h1(3) h2(3) by (rule frame_trans) (auto simp: Two(6))
    have neqs: "a1b0 \<noteq> tail l" "a0 \<noteq> tail l"
      unfolding ptrs using is_list_hd_neq_tail [of h l "ws @ r1" "r2 @ s2"] less.prems(1) Two(6,7,8) neq
      by simp_all
    have "list_sort_pass lt l a0 m h = Some (m + 1 + k, h2)"
      using h1(1) h2(1) f1 f2 sz Two(6,7) neqs
      by (subst list_sort_pass.simps) (simp add: list_end_def)
    then show ?thesis
      using h2(2) fr Two(4,5) by (simp add: ptrs)
  qed
qed

lemma list_sort_loop_correct:
  assumes "list_less_func lt" and "is_list h l xs" and "length xs < 2 ^ 32"
  shows "\<exists>h' ys. list_sort_loop lt l h = Some h' \<and> is_list h' l ys \<and> in_order lt ys \<and> mset ys = mset xs \<and>
           (\<forall>x. filter (incomparable lt x) ys = filter (incomparable lt x) xs) \<and>
           frame h h' (set (cells l xs))"
  using assms(2,3)
proof (induction "descents lt xs" arbitrary: xs h rule: less_induct)
  case less
  obtain n zs where mp: "merge_pass lt xs = (n, zs)"
    by fastforce
  obtain h1 where h1: "list_sort_pass lt l (list_begin l h) 0 h = Some (n, h1)" "is_list h1 l zs"
      "frame h h1 (set (cells l xs))"
    using list_sort_pass_correct [of h l "[]" xs lt n zs 0] less.prems mp by (auto simp: is_list_begin)
  have zs: "mset zs = mset xs" "filter (incomparable lt x) zs = filter (incomparable lt x) xs" for x
    using merge_pass_mset [OF mp] list_less_func.merge_pass_stable [OF assms(1) mp] by auto
  have len: "length zs = length xs" and sets: "set zs = set xs"
    using zs(1) by (metis size_mset, metis set_mset_mset)
  note dec = list_less_func.merge_pass_decreases [OF assms(1) mp]
  show ?case
  proof (cases "1 < n")
    case False
    have "list_sort_loop lt l h = Some h1"
      using h1(1) False by (subst list_sort_loop.simps) simp
    then show ?thesis
      using h1(2,3) dec(2) False zs by auto
  next
    case True
    obtain h2 ys where h2: "list_sort_loop lt l h1 = Some h2" "is_list h2 l ys" "in_order lt ys" "mset ys = mset zs"
        "\<forall>x. filter (incomparable lt x) ys = filter (incomparable lt x) zs"
        "frame h1 h2 (set (cells l zs))"
      using less.hyps [OF dec(1) [OF True] h1(2)] less.prems(2) len by auto
    have "list_sort_loop lt l h = Some h2"
      using h1(1) h2(1) True by (subst list_sort_loop.simps) simp
    moreover have "frame h h2 (set (cells l xs))"
      using h1(3) h2(6) by (rule frame_trans) (simp_all add: sets)
    ultimately show ?thesis
      using h2(2-5) zs by auto
  qed
qed

lemma list_sort_correct:
  assumes "list_less_func lt" and "is_list h l xs" and "length xs < 2 ^ 32"
  shows "\<exists>h' ys. list_sort lt l h = Some h' \<and> is_list h' l ys \<and> sorted_wrt (\<lambda>x y. \<not> lt y x) ys \<and> mset ys = mset xs \<and>
           (\<forall>x. filter (incomparable lt x) ys = filter (incomparable lt x) xs) \<and>
           frame h h' (set (cells l xs))"
proof -
  obtain h' ys where h': "list_sort_loop lt l h = Some h'" "is_list h' l ys" "in_order lt ys" "mset ys = mset xs"
      "\<forall>x. filter (incomparable lt x) ys = filter (incomparable lt x) xs"
      "frame h h' (set (cells l xs))"
    using list_sort_loop_correct [OF assms] by blast
  have "is_sorted lt h' (list_begin l h') (list_end l) = Some True"
    using is_sorted_correct [of h' l "[]" ys "[]" lt] h'(2,3) by (simp add: is_list_begin list_end_def)
  then have "list_sort lt l h = Some h'"
    using h'(1) by (simp add: list_sort_def)
  then show ?thesis
    using h'(2-6) assms(1) by (auto simp: list_less_func.in_order_sorted)
qed

lemma list_insert_ordered_loop_correct:
  "is_list h l (ws @ xs) \<Longrightarrow>
   list_insert_ordered_loop lt l elem h (hd (xs @ [tail l])) =
     Some (hd (dropWhile (\<lambda>e. \<not> lt elem e) xs @ [tail l]))"
proof (induction xs arbitrary: ws)
  case Nil
  then show ?case by (subst list_insert_ordered_loop.simps) (simp add: list_end_def)
next
  case (Cons x xs)
  then show ?case
    using list_next_correct [of h l ws x xs] is_list_hd_neq_tail [of h l ws "x # xs"]
      Cons.IH [of "ws @ [x]"]
    by (subst list_insert_ordered_loop.simps) (simp add: list_end_def)
qed

lemma list_insert_ordered_correct:
  assumes "is_list h l xs" and "elem \<notin> set (cells l xs)" and "elem \<noteq> NULL"
  shows "\<exists>h'. list_insert_ordered lt l elem h = Some h' \<and>
           is_list h' l (takeWhile (\<lambda>e. \<not> lt elem e) xs @ elem # dropWhile (\<lambda>e. \<not> lt elem e) xs) \<and>
           frame h h' (set (cells l (elem # xs)))"
proof -
  let ?ts = "takeWhile (\<lambda>e. \<not> lt elem e) xs" and ?ds = "dropWhile (\<lambda>e. \<not> lt elem e) xs"
  have "list_insert_ordered_loop lt l elem h (list_begin l h) = Some (hd (?ds @ [tail l]))"
    using list_insert_ordered_loop_correct [of h l "[]" xs lt elem] assms(1) by (simp add: is_list_begin)
  moreover have "set ?ts \<union> set ?ds = set xs"
    by (metis set_append takeWhile_dropWhile_id)
  then have "set (cells l (?ts @ elem # ?ds)) = set (cells l (elem # xs))"
    by auto
  ultimately show ?thesis
    using list_insert_correct [of h l ?ts ?ds elem] assms
    by (simp add: list_insert_ordered_def)
qed

fun unique_from :: "('a \<Rightarrow> 'a \<Rightarrow> bool) \<Rightarrow> 'a \<Rightarrow> 'a list \<Rightarrow> 'a list \<times> 'a list" where
  "unique_from lt x [] = ([x], [])"
| "unique_from lt x (y # ys) =
     (if incomparable lt x y
      then (let (ks, ds) = unique_from lt x ys in (ks, y # ds))
      else (let (ks, ds) = unique_from lt y ys in (x # ks, ds)))"

definition first_max :: "('a \<Rightarrow> 'a \<Rightarrow> bool) \<Rightarrow> 'a list \<Rightarrow> 'a \<Rightarrow> bool" where
  "first_max lt xs m \<longleftrightarrow> (\<exists>us vs. xs = us @ m # vs \<and> (\<forall>u\<in>set us. lt u m) \<and> (\<forall>v\<in>set vs. \<not> lt m v))"

text \<open>The specification of the comparison routines, for a comparison function that is a weak order.\<close>

context list_less_func
begin

lemma insert_ordered_sorted:
  assumes "in_order lt xs"
  shows "in_order lt (takeWhile (\<lambda>e. \<not> lt x e) xs @ x # dropWhile (\<lambda>e. \<not> lt x e) xs)"
  using assms unfolding in_order_sorted
proof (induction xs)
  case (Cons y ys)
  have "\<not> lt u x" if "lt x y" "\<not> lt u y" for u
    using that lt_asym not_lt_trans by blast
  moreover have "u \<in> set ys" if "u \<in> set (takeWhile (\<lambda>e. \<not> lt x e) ys)" for u
    using that by (rule set_takeWhileD [THEN conjunct1])
  moreover have "u \<in> set ys" if "u \<in> set (dropWhile (\<lambda>e. \<not> lt x e) ys)" for u
    using that by (rule set_dropWhileD)
  ultimately show ?case
    using Cons lt_asym [of x y] by auto
qed simp

lemma lt_trans: "lt a b \<Longrightarrow> lt b c \<Longrightarrow> lt a c"
  using lt_asym not_lt_trans by blast

lemma first_max_foldl: "first_max lt (x # xs) (foldl (\<lambda>m e. if lt m e then e else m) x xs)"
proof (induction xs rule: rev_induct)
  case Nil
  show ?case
    unfolding first_max_def by (intro exI [of _ "[]"]) simp
next
  case (snoc e xs)
  let ?m = "foldl (\<lambda>m e. if lt m e then e else m) x xs"
  obtain us vs where m: "x # xs = us @ ?m # vs" "\<forall>u\<in>set us. lt u ?m" "\<forall>v\<in>set vs. \<not> lt ?m v"
    using snoc by (auto simp: first_max_def)
  show ?case
  proof (cases "lt ?m e")
    case True
    have "lt u e" if "u \<in> set (x # xs)" for u
    proof -
      have "u \<in> set us \<or> u = ?m \<or> u \<in> set vs"
        using that arg_cong [OF m(1), of set] by auto
      then show ?thesis
        using True m(2,3) lt_trans not_lt_trans by blast
    qed
    then show ?thesis
      unfolding first_max_def using True by (intro exI [of _ "x # xs"] exI [of _ "[]"]) simp
  next
    case False
    then show ?thesis
      unfolding first_max_def by (intro exI [of _ us] exI [of _ "vs @ [e]"]) (use m in simp)
  qed
qed

lemma dual: "list_less_func (\<lambda>a b. lt b a)"
  by unfold_locales (use lt_asym not_lt_trans in blast)+

end

lemma list_max_loop_correct:
  "is_list h l (ws @ xs) \<Longrightarrow>
   list_max_loop lt l h m (hd (xs @ [tail l])) = Some (foldl (\<lambda>m e. if lt m e then e else m) m xs)"
proof (induction xs arbitrary: ws m)
  case Nil
  then show ?case by (subst list_max_loop.simps) (simp add: list_end_def)
next
  case (Cons x xs)
  then show ?case
    using list_next_correct [of h l ws x xs] is_list_hd_neq_tail [of h l ws "x # xs"]
      Cons.IH [of "ws @ [x]"]
    by (subst list_max_loop.simps) (simp add: list_end_def)
qed

lemma list_min_loop_correct:
  "is_list h l (ws @ xs) \<Longrightarrow>
   list_min_loop lt l h m (hd (xs @ [tail l])) = Some (foldl (\<lambda>m e. if lt e m then e else m) m xs)"
proof (induction xs arbitrary: ws m)
  case Nil
  then show ?case by (subst list_min_loop.simps) (simp add: list_end_def)
next
  case (Cons x xs)
  then show ?case
    using list_next_correct [of h l ws x xs] is_list_hd_neq_tail [of h l ws "x # xs"]
      Cons.IH [of "ws @ [x]"]
    by (subst list_min_loop.simps) (simp add: list_end_def)
qed

lemma list_max_correct:
  assumes "list_less_func lt" and "is_list h l xs" and "xs \<noteq> []"
  shows "\<exists>m. list_max lt l h = Some m \<and> first_max lt xs m"
proof -
  obtain y ys where xs: "xs = y # ys" using assms(3) by (cases xs) auto
  then show ?thesis
    using assms(2) list_next_correct [of h l "[]" y ys] list_max_loop_correct [of h l "[y]" ys lt y]
      list_less_func.first_max_foldl [OF assms(1), of y ys] is_list_hd_neq_tail [of h l "[]" xs]
    by (simp add: list_max_def is_list_begin list_end_def)
qed

lemma list_min_correct:
  assumes "list_less_func lt" and "is_list h l xs" and "xs \<noteq> []"
  shows "\<exists>m. list_min lt l h = Some m \<and> first_max (\<lambda>a b. lt b a) xs m"
proof -
  obtain y ys where xs: "xs = y # ys" using assms(3) by (cases xs) auto
  then show ?thesis
    using assms(2) list_next_correct [of h l "[]" y ys] list_min_loop_correct [of h l "[y]" ys lt y]
      list_less_func.first_max_foldl [OF list_less_func.dual [OF assms(1)], of y ys]
      is_list_hd_neq_tail [of h l "[]" xs]
    by (simp add: list_min_def is_list_begin list_end_def)
qed

lemma list_unique_loop_correct:
  assumes "is_list h l (ws @ x # xs)" and "is_list h d us" and "set (cells l (ws @ x # xs)) \<inter> set (cells d us) = {}"
    and "unique_from lt x xs = (ks, ds)"
  shows "\<exists>h'. list_unique_loop lt l (Some d) x h = Some h' \<and> is_list h' l (ws @ ks) \<and> is_list h' d (us @ ds)"
  using assms
proof (induction xs arbitrary: ws x h us ks ds)
  case Nil
  then show ?case
    using list_next_correct [of h l ws x "[]"] by (subst list_unique_loop.simps) (auto simp: list_end_def)
next
  case (Cons y ys)
  have nx: "list_next h x = Some y" and neq: "y \<noteq> tail l"
    using list_next_correct [of h l ws x "y # ys"] is_list_hd_neq_tail [of h l "ws @ [x]" "y # ys"] Cons.prems
    by simp_all
  show ?case
  proof (cases "incomparable lt x y")
    case False
    obtain ks' where ks': "unique_from lt y ys = (ks', ds)" "ks = x # ks'"
      using Cons.prems(4) False by (auto split: prod.splits)
    have "\<exists>h'. list_unique_loop lt l (Some d) y h = Some h' \<and> is_list h' l ((ws @ [x]) @ ks') \<and> is_list h' d (us @ ds)"
      by (rule Cons.IH [OF _ Cons.prems(2)]) (use Cons.prems ks' in auto)
    then show ?thesis
      using nx neq False ks'(2)
      by (subst list_unique_loop.simps) (auto simp: list_end_def incomparable_def)
  next
    case True
    obtain ds' where ds': "unique_from lt x ys = (ks, ds')" "ds = y # ds'"
      using Cons.prems(4) True by (auto split: prod.splits)
    obtain h1 where h1: "list_remove y h = Some (hd (ys @ [tail l]), h1)" "is_list h1 l ((ws @ [x]) @ ys)"
        "frame h h1 (set (cells l ((ws @ [x]) @ ys)))"
      using list_remove_correct [of h l "ws @ [x]" y ys] Cons.prems(1) by auto
    have "is_list h1 d us"
      using Cons.prems(2) h1(3) by (rule is_list_frame) (use Cons.prems(3) in auto)
    moreover have "y \<notin> set (cells d us)" "y \<noteq> NULL" "y \<notin> set (cells l (ws @ x # ys))"
      using Cons.prems(1,3) by (auto simp: is_list_def)
    ultimately obtain h2 where h2: "list_push_back d y h1 = Some h2" "is_list h2 d (us @ [y])"
        "frame h1 h2 (set (cells d (us @ [y])))"
      using list_push_back_correct [of h1 d us y] by auto
    have "is_list h2 l ((ws @ [x]) @ ys)"
      using h1(2) h2(3) by (rule is_list_frame)
        (use Cons.prems(3) \<open>y \<notin> set (cells l (ws @ x # ys))\<close> in auto)
    then have "\<exists>h'. list_unique_loop lt l (Some d) x h2 = Some h' \<and> is_list h' l (ws @ ks) \<and> is_list h' d ((us @ [y]) @ ds')"
      by (intro Cons.IH [OF _ h2(2)]) (use Cons.prems(3) ds' \<open>y \<notin> set (cells l (ws @ x # ys))\<close> in auto)
    then show ?thesis
      using nx neq True h1(1) h2(1) ds'(2)
      by (subst list_unique_loop.simps) (auto simp: list_end_def incomparable_def)
  qed
qed

lemma unique_from_distinct_neighbours:
  "unique_from lt x xs = (ks, ds) \<Longrightarrow>
     mset (x # xs) = mset ks + mset ds \<and> successively (\<lambda>a b. \<not> incomparable lt a b) ks \<and>
     (\<exists>ks'. ks = x # ks')"
proof (induction xs arbitrary: x ks ds)
  case (Cons y ys)
  show ?case
  proof (cases "incomparable lt x y")
    case True
    then obtain ds' where ds': "unique_from lt x ys = (ks, ds')" "ds = y # ds'"
      using Cons.prems by (auto split: prod.splits)
    show ?thesis
      using Cons.IH [OF ds'(1)] ds'(2) by simp
  next
    case False
    then obtain ks' where ks': "unique_from lt y ys = (ks', ds)" "ks = x # ks'"
      using Cons.prems by (auto split: prod.splits)
    obtain ks'' where "ks' = y # ks''"
      using Cons.IH [OF ks'(1)] by blast
    then show ?thesis
      using Cons.IH [OF ks'(1)] ks'(2) False by simp
  qed
qed auto

lemma list_unique_correct:
  assumes "is_list h l (x # xs)" and "is_list h d us" and "set (cells l (x # xs)) \<inter> set (cells d us) = {}"
    and "unique_from lt x xs = (ks, ds)"
  shows "\<exists>h'. list_unique lt l (Some d) h = Some h' \<and> is_list h' l ks \<and> is_list h' d (us @ ds)"
  using list_unique_loop_correct [of h l "[]" x xs d us lt ks ds] assms
  by (simp add: list_unique_def list_empty_correct is_list_begin)

section \<open>Properties\<close>

text \<open>
  C1: \<open>list_sort\<close> terminates without a failed assertion on every list and leaves in it a sorted
  permutation of its elements in which elements that compare equal keep their order (the sort is
  stable); no cell outside the list is written.
\<close>

theorem list_sort_stable:
  assumes "list_less_func lt" and "is_list h l xs" and "length xs < 2 ^ 32"
  shows "\<exists>h' ys. list_sort lt l h = Some h' \<and> is_list h' l ys \<and>
           sorted_wrt (\<lambda>x y. \<not> lt y x) ys \<and> mset ys = mset xs \<and>
           (\<forall>x. filter (incomparable lt x) ys = filter (incomparable lt x) xs) \<and>
           (\<forall>a. a \<notin> set (cells l xs) \<longrightarrow> h' a = h a)"
  using list_sort_correct [OF assms] unfolding frame_def by blast

text \<open>A list of the elements 30, 11 and 10 between the headers 1 and 2, compared by their tens.\<close>

definition demo_list :: klist where
  "demo_list = \<lparr>head = 1, tail = 2\<rparr>"

definition demo_heap :: lheap where
  "demo_heap = (\<lambda>_. \<lparr>le_prev = NULL, le_next = NULL\<rparr>)
     (1 := \<lparr>le_prev = NULL, le_next = 30\<rparr>, 30 := \<lparr>le_prev = 1, le_next = 11\<rparr>,
      11 := \<lparr>le_prev = 30, le_next = 10\<rparr>, 10 := \<lparr>le_prev = 11, le_next = 2\<rparr>,
      2 := \<lparr>le_prev = 10, le_next = NULL\<rparr>)"

definition demo_less :: less_fun where
  "demo_less a b \<longleftrightarrow> a div 10 < b div 10"

lemma demo_is_list: "is_list demo_heap demo_list [30, 11, 10]"
  by (simp add: is_list_def demo_heap_def demo_list_def linked_def)

interpretation demo: list_less_func demo_less
  by unfold_locales (auto simp: demo_less_def)

theorem list_sort_stable_witness:
  "\<exists>h'. list_sort demo_less demo_list demo_heap = Some h' \<and> is_list h' demo_list [11, 10, 30]"
proof -
  have len: "length [30, 11, 10 :: addr] < 2 ^ 32"
    by simp
  obtain h' ys where h': "list_sort demo_less demo_list demo_heap = Some h'" "is_list h' demo_list ys"
      "sorted_wrt (\<lambda>x y. \<not> demo_less y x) ys" "mset ys = mset [30, 11, 10]"
      "\<forall>x. filter (incomparable demo_less x) ys = filter (incomparable demo_less x) [30, 11, 10]"
    using list_sort_stable [OF demo.list_less_func_axioms demo_is_list len] by blast
  have "length ys = Suc (Suc (Suc 0))"
    using arg_cong [OF h'(4), of size] by simp
  then obtain a b c where ys: "ys = [a, b, c]"
    by (auto simp: length_Suc_conv)
  have mem: "a \<in> {30, 11, 10}" "b \<in> {30, 11, 10}" "c \<in> {30, 11, 10}"
    using arg_cong [OF h'(4), of set_mset] by (auto simp: ys)
  have "filter (incomparable demo_less 10) [a, b, c] = [11, 10]" "filter (incomparable demo_less 30) [a, b, c] = [30]"
    "\<not> demo_less b a" "\<not> demo_less c b"
    using h'(3) spec [OF h'(5), of 10] spec [OF h'(5), of 30]
    by (simp_all add: ys demo_less_def incomparable_def)
  then have "ys = [11, 10, 30]"
    using mem by (elim insertE emptyE) (simp_all add: ys demo_less_def incomparable_def)
  then show ?thesis using h'(1,2) by blast
qed

end
