(* ===== verification/Klist_Trace.thy ===== *)
theory Klist_Trace
  imports Klist
begin

text \<open>
  The interface of \<open>src/src/lib/kernel/list.c\<close> that the rest of the kernel uses for its queues:
  pushing and popping at both ends and removal by element.  The locale \<open>kernel_queue\<close> states the
  laws of that interface over an abstraction relation to sequences and proves once that every run of
  operations acts as the same run on the sequence; the interpretation shows that the pointer
  routines satisfy the laws.
\<close>

datatype 'e queue_op = Push_Front 'e | Push_Back 'e | Pop_Front | Pop_Back | Remove 'e

text \<open>The operations on sequences; \<open>None\<close> is the use of an operation outside its contract.\<close>

fun seq_step :: "('e \<Rightarrow> 'e list \<Rightarrow> bool) \<Rightarrow> 'e queue_op \<Rightarrow> 'e list \<Rightarrow> ('e option \<times> 'e list) option" where
  "seq_step ok (Push_Front e) xs = (if ok e xs then Some (None, e # xs) else None)"
| "seq_step ok (Push_Back e) xs = (if ok e xs then Some (None, xs @ [e]) else None)"
| "seq_step ok Pop_Front xs = (case xs of [] \<Rightarrow> None | y # ys \<Rightarrow> Some (Some y, ys))"
| "seq_step ok Pop_Back xs = (if xs = [] then None else Some (Some (last xs), butlast xs))"
| "seq_step ok (Remove e) xs = (if e \<in> set xs then Some (None, remove1 e xs) else None)"

primrec run :: "('o \<Rightarrow> 's \<Rightarrow> ('r \<times> 's) option) \<Rightarrow> 'o list \<Rightarrow> 's \<Rightarrow> ('r list \<times> 's) option" where
  "run step [] s = Some ([], s)"
| "run step (op # ops) s = do {
     (r, s) \<leftarrow> step op s;
     (rs, s) \<leftarrow> run step ops s;
     Some (r # rs, s)
   }"

locale kernel_queue =
  fixes rep :: "'h \<Rightarrow> 'e list \<Rightarrow> bool"
    and ok :: "'e \<Rightarrow> 'e list \<Rightarrow> bool"
    and push_front push_back :: "'e \<Rightarrow> 'h \<Rightarrow> 'h option"
    and pop_front pop_back :: "'h \<Rightarrow> ('e \<times> 'h) option"
    and remove :: "'e \<Rightarrow> 'h \<Rightarrow> ('e \<times> 'h) option"
  assumes rep_distinct: "rep h xs \<Longrightarrow> distinct xs"
    and push_front: "rep h xs \<Longrightarrow> ok e xs \<Longrightarrow> \<exists>h'. push_front e h = Some h' \<and> rep h' (e # xs)"
    and push_back: "rep h xs \<Longrightarrow> ok e xs \<Longrightarrow> \<exists>h'. push_back e h = Some h' \<and> rep h' (xs @ [e])"
    and pop_front: "rep h (x # xs) \<Longrightarrow> \<exists>h'. pop_front h = Some (x, h') \<and> rep h' xs"
    and pop_back: "rep h (xs @ [x]) \<Longrightarrow> \<exists>h'. pop_back h = Some (x, h') \<and> rep h' xs"
    and remove: "rep h (xs @ e # ys) \<Longrightarrow> \<exists>h' n. remove e h = Some (n, h') \<and> rep h' (xs @ ys)"
    and pop_front_empty: "rep h [] \<Longrightarrow> pop_front h = None"
    and pop_back_empty: "rep h [] \<Longrightarrow> pop_back h = None"

fun queue_step ::
    "('e \<Rightarrow> 'h \<Rightarrow> 'h option) \<Rightarrow> ('e \<Rightarrow> 'h \<Rightarrow> 'h option) \<Rightarrow> ('h \<Rightarrow> ('e \<times> 'h) option) \<Rightarrow>
     ('h \<Rightarrow> ('e \<times> 'h) option) \<Rightarrow> ('e \<Rightarrow> 'h \<Rightarrow> ('e \<times> 'h) option) \<Rightarrow>
     'e queue_op \<Rightarrow> 'h \<Rightarrow> ('e option \<times> 'h) option" where
  "queue_step pushf pushb popf popb rm (Push_Front e) h = map_option (Pair None) (pushf e h)"
| "queue_step pushf pushb popf popb rm (Push_Back e) h = map_option (Pair None) (pushb e h)"
| "queue_step pushf pushb popf popb rm Pop_Front h = map_option (apfst Some) (popf h)"
| "queue_step pushf pushb popf popb rm Pop_Back h = map_option (apfst Some) (popb h)"
| "queue_step pushf pushb popf popb rm (Remove e) h = map_option (Pair None \<circ> snd) (rm e h)"

context kernel_queue
begin

abbreviation step :: "'e queue_op \<Rightarrow> 'h \<Rightarrow> ('e option \<times> 'h) option" where
  "step \<equiv> queue_step push_front push_back pop_front pop_back remove"

lemma step_simulates:
  assumes "rep h xs" and "seq_step ok op xs = Some (r, ys)"
  shows "\<exists>h'. step op h = Some (r, h') \<and> rep h' ys"
proof (cases op)
  case Pop_Back
  then show ?thesis
    using assms pop_back [of h "butlast xs" "last xs"] by (auto split: if_splits)
next
  case (Remove e)
  then obtain us vs where "xs = us @ e # vs" "e \<notin> set us"
    using assms(2) by (auto split: if_splits dest: split_list_first)
  then show ?thesis
    using assms Remove remove [of h us e vs] by (auto simp: remove1_append)
qed (use assms push_front push_back pop_front in \<open>auto split: if_splits list.splits\<close>)

lemma run_simulates:
  "rep h xs \<Longrightarrow> run (seq_step ok) ops xs = Some (rs, ys) \<Longrightarrow>
   \<exists>h'. run step ops h = Some (rs, h') \<and> rep h' ys"
proof (induction ops arbitrary: h xs rs)
  case (Cons op ops)
  obtain r zs rs' where s: "seq_step ok op xs = Some (r, zs)" "run (seq_step ok) ops zs = Some (rs', ys)"
      "rs = r # rs'"
    using Cons.prems(2) by (auto split: bind_splits prod.splits)
  obtain h1 where "step op h = Some (r, h1)" "rep h1 zs"
    using step_simulates [OF Cons.prems(1) s(1)] by blast
  then show ?case
    using Cons.IH [OF _ s(2)] s(3) by fastforce
qed auto

end

section \<open>The pointer lists satisfy the laws\<close>

definition list_ok :: "klist \<Rightarrow> addr \<Rightarrow> addr list \<Rightarrow> bool" where
  "list_ok l e xs \<longleftrightarrow> e \<notin> set (cells l xs) \<and> e \<noteq> NULL"

lemma list_pop_empty:
  assumes "is_list h l []"
  shows "list_pop_front l h = None" and "list_pop_back l h = None"
  using list_empty_correct [OF assms]
  by (simp_all add: list_pop_front_def list_pop_back_def list_front_def list_back_def)

interpretation klq: kernel_queue "\<lambda>h. is_list h l" "list_ok l" "list_push_front l" "list_push_back l"
  "list_pop_front l" "list_pop_back l" list_remove for l
proof
  fix h xs
  show "is_list h l xs \<Longrightarrow> distinct xs"
    by (simp add: is_list_def)
next
  fix h xs e
  assume *: "is_list h l xs" "list_ok l e xs"
  show "\<exists>h'. list_push_front l e h = Some h' \<and> is_list h' l (e # xs)"
    using * list_push_front_correct [of h l xs e] by (auto simp: list_ok_def)
  show "\<exists>h'. list_push_back l e h = Some h' \<and> is_list h' l (xs @ [e])"
    using * list_push_back_correct [of h l xs e] by (auto simp: list_ok_def)
next
  fix h x xs
  show "is_list h l (x # xs) \<Longrightarrow> \<exists>h'. list_pop_front l h = Some (x, h') \<and> is_list h' l xs"
    using list_pop_front_correct [of h l x xs] by auto
next
  fix h x xs
  show "is_list h l (xs @ [x]) \<Longrightarrow> \<exists>h'. list_pop_back l h = Some (x, h') \<and> is_list h' l xs"
    using list_pop_back_correct [of h l xs x] by auto
next
  fix h xs e ys
  show "is_list h l (xs @ e # ys) \<Longrightarrow> \<exists>h' n. list_remove e h = Some (n, h') \<and> is_list h' l (xs @ ys)"
    using list_remove_correct [of h l xs e ys] by auto
qed (simp_all add: list_pop_empty)

definition list_run :: "klist \<Rightarrow> addr queue_op list \<Rightarrow> lheap \<Rightarrow> (addr option list \<times> lheap) option" where
  "list_run l = run (queue_step (list_push_front l) (list_push_back l) (list_pop_front l) (list_pop_back l) list_remove)"

section \<open>Properties\<close>

text \<open>
  C2: starting from a well-formed list, every sequence of pushes, pops and removals whose use of the
  list is within the contract of the routines runs without a failed assertion, pops the elements
  that the same sequence pops from the mathematical sequence, and ends in a well-formed list that
  represents the resulting sequence.
\<close>

theorem list_refines_sequence:
  assumes "is_list h l xs" and "run (seq_step (list_ok l)) ops xs = Some (rs, ys)"
  shows "\<exists>h'. list_run l ops h = Some (rs, h') \<and> is_list h' l ys"
  unfolding list_run_def using assms by (rule klq.run_simulates)

definition new_list :: lheap where
  "new_list = list_init \<lparr>head = 1, tail = 2\<rparr> (\<lambda>_. \<lparr>le_prev = NULL, le_next = NULL\<rparr>)"

theorem list_refines_sequence_witness:
  "\<exists>h'. list_run \<lparr>head = 1, tail = 2\<rparr>
          [Push_Back 10, Push_Back 20, Push_Front 30, Push_Back 40, Remove 10, Pop_Front, Pop_Back] new_list
        = Some ([None, None, None, None, None, Some 30, Some 40], h') \<and>
        is_list h' \<lparr>head = 1, tail = 2\<rparr> [20]"
proof (rule list_refines_sequence)
  show "is_list new_list \<lparr>head = 1, tail = 2\<rparr> []"
    unfolding new_list_def by (rule list_init_correct) simp_all
qed (simp add: list_ok_def)

end
