(* ===== verification/Slots.thy ===== *)
theory Slots
  imports Pintos_Prelude
begin

text \<open>
  The contract of an allocator of consecutive numbered slots, as page pools, swap space and the
  free map of the file system use it.  The slots may be divided into regions, and an allocation says
  in which region it wants its group.  The locale \<open>slot_allocator\<close> states the laws of one
  allocation and one release; its lemmas show, for every run of allocations and releases, that live
  groups never overlap and that no slot is lost.
\<close>

abbreviation slot_range :: "nat \<Rightarrow> nat \<Rightarrow> nat set" where
  "slot_range i cnt \<equiv> {i..<i + cnt}"

datatype 'c slot_op = Alloc 'c nat | Release nat nat

text \<open>
  A run of operations with the groups that are live.  Requests outside the contract, for no slots or
  for the release of a group that is not live, are not made; the result \<open>None\<close> is a panic of the
  allocator.
\<close>

primrec slot_run ::
    "('c \<Rightarrow> nat \<Rightarrow> 's \<Rightarrow> (nat option \<times> 's) option) \<Rightarrow> (nat \<Rightarrow> nat \<Rightarrow> 's \<Rightarrow> 's option) \<Rightarrow>
     'c slot_op list \<Rightarrow> 's \<times> (nat \<times> nat) list \<Rightarrow> ('s \<times> (nat \<times> nat) list) option" where
  "slot_run alloc release [] sl = Some sl"
| "slot_run alloc release (op # ops) sl = do {
     let (s, live) = sl;
     sl \<leftarrow> (case op of
        Alloc c cnt \<Rightarrow>
          if 0 < cnt then do {
            (r, s) \<leftarrow> alloc c cnt s;
            Some (s, case r of None \<Rightarrow> live | Some i \<Rightarrow> (i, cnt) # live)
          }
          else Some (s, live)
      | Release i cnt \<Rightarrow>
          if (i, cnt) \<in> set live then do {
            s \<leftarrow> release i cnt s;
            Some (s, remove1 (i, cnt) live)
          }
          else Some (s, live));
     slot_run alloc release ops sl
   }"

definition groups_disjoint :: "(nat \<times> nat) list \<Rightarrow> bool" where
  "groups_disjoint live \<longleftrightarrow> sorted_wrt (\<lambda>g g'. case_prod slot_range g \<inter> case_prod slot_range g' = {}) live"

lemma groups_disjoint_Cons:
  "groups_disjoint (g # live) \<longleftrightarrow>
     (\<forall>g'\<in>set live. case_prod slot_range g \<inter> case_prod slot_range g' = {}) \<and> groups_disjoint live"
  by (simp add: groups_disjoint_def)

lemma groups_disjoint_remove1:
  assumes "groups_disjoint live" and "g \<in> set live"
  shows "groups_disjoint (remove1 g live) \<and>
         (\<forall>g'\<in>set (remove1 g live). case_prod slot_range g \<inter> case_prod slot_range g' = {})"
  using assms
proof (induction live)
  case (Cons a live)
  show ?case
  proof (cases "a = g")
    case True
    then show ?thesis
      using Cons.prems by (simp add: groups_disjoint_Cons)
  next
    case False
    then have g: "g \<in> set live" "groups_disjoint live" "case_prod slot_range a \<inter> case_prod slot_range g = {}"
      using Cons.prems by (auto simp: groups_disjoint_Cons)
    have "\<forall>g'\<in>set (remove1 g live). case_prod slot_range a \<inter> case_prod slot_range g' = {}"
      using Cons.prems(1) notin_set_remove1 by (fastforce simp: groups_disjoint_Cons)
    then show ?thesis
      using Cons.IH [OF g(2,1)] g(3) False by (simp add: groups_disjoint_Cons Int_commute)
  qed
qed simp

locale slot_allocator =
  fixes inv :: "'s \<Rightarrow> bool"
    and slots free :: "'s \<Rightarrow> nat set"
    and region :: "'c \<Rightarrow> 's \<Rightarrow> nat set"
    and alloc :: "'c \<Rightarrow> nat \<Rightarrow> 's \<Rightarrow> (nat option \<times> 's) option"
    and release :: "nat \<Rightarrow> nat \<Rightarrow> 's \<Rightarrow> 's option"
  assumes free_slots: "inv s \<Longrightarrow> free s \<subseteq> slots s"
    and alloc_total: "inv s \<Longrightarrow> 0 < cnt \<Longrightarrow> \<exists>r s'. alloc c cnt s = Some (r, s')"
    and alloc_inv: "inv s \<Longrightarrow> 0 < cnt \<Longrightarrow> alloc c cnt s = Some (r, s') \<Longrightarrow>
      inv s' \<and> slots s' = slots s \<and> (\<forall>c'. region c' s' = region c' s)"
    and alloc_Some: "inv s \<Longrightarrow> 0 < cnt \<Longrightarrow> alloc c cnt s = Some (Some i, s') \<Longrightarrow>
      slot_range i cnt \<subseteq> free s \<inter> region c s \<and> free s' = free s - slot_range i cnt"
    and alloc_None: "inv s \<Longrightarrow> 0 < cnt \<Longrightarrow> alloc c cnt s = Some (None, s') \<Longrightarrow>
      free s' = free s \<and> \<not> (\<exists>i. slot_range i cnt \<subseteq> free s \<inter> region c s)"
    and release: "inv s \<Longrightarrow> 0 < cnt \<Longrightarrow> slot_range i cnt \<subseteq> (slots s - free s) \<inter> region c s \<Longrightarrow>
      \<exists>s'. release i cnt s = Some s' \<and> inv s' \<and> slots s' = slots s \<and> (\<forall>c'. region c' s' = region c' s) \<and>
           free s' = free s \<union> slot_range i cnt"
begin

definition owned :: "(nat \<times> nat) list \<Rightarrow> nat set" where
  "owned live = (\<Union>g\<in>set live. case_prod slot_range g)"

text \<open>Every slot is free or in exactly one live group, and every live group lies in one region.\<close>

definition accounted :: "'s \<times> (nat \<times> nat) list \<Rightarrow> bool" where
  "accounted sl \<longleftrightarrow> (case sl of (s, live) \<Rightarrow>
     inv s \<and> (\<forall>g\<in>set live. 0 < snd g \<and> (\<exists>c. case_prod slot_range g \<subseteq> region c s)) \<and>
     groups_disjoint live \<and> owned live \<inter> free s = {} \<and> owned live \<union> free s = slots s)"

lemma alloc_accounted:
  assumes acc: "accounted (s, live)" and cnt: "0 < cnt" and al: "alloc c cnt s = Some (r, s')"
  shows "accounted (s', case r of None \<Rightarrow> live | Some i \<Rightarrow> (i, cnt) # live) \<and> slots s' = slots s"
proof -
  have s: "inv s" "groups_disjoint live" "owned live \<inter> free s = {}" "owned live \<union> free s = slots s"
    and live: "\<forall>g\<in>set live. 0 < snd g \<and> (\<exists>c. case_prod slot_range g \<subseteq> region c s)"
    using acc by (auto simp: accounted_def)
  note s' = alloc_inv [OF s(1) cnt al]
  show ?thesis
  proof (cases r)
    case None
    then have "free s' = free s"
      using alloc_None [OF s(1) cnt] al by blast
    then show ?thesis
      using s s' live None by (simp add: accounted_def)
  next
    case (Some i)
    then have g: "slot_range i cnt \<subseteq> free s" "slot_range i cnt \<subseteq> region c s" "free s' = free s - slot_range i cnt"
      using alloc_Some [OF s(1) cnt] al by blast+
    have "\<forall>g'\<in>set live. slot_range i cnt \<inter> case_prod slot_range g' = {}"
      using s(3) g(1) unfolding owned_def by blast
    then have "groups_disjoint ((i, cnt) # live)"
      using s(2) by (simp add: groups_disjoint_Cons)
    moreover have "owned ((i, cnt) # live) = slot_range i cnt \<union> owned live"
      by (simp add: owned_def)
    moreover have "\<forall>g\<in>set ((i, cnt) # live). 0 < snd g \<and> (\<exists>c. case_prod slot_range g \<subseteq> region c s')"
      using live g(2) cnt s' by auto
    ultimately show ?thesis
      using s s' g Some by (auto simp: accounted_def)
  qed
qed

lemma release_accounted:
  assumes acc: "accounted (s, live)" and mem: "(i, cnt) \<in> set live"
  shows "\<exists>s'. release i cnt s = Some s' \<and> accounted (s', remove1 (i, cnt) live) \<and> slots s' = slots s"
proof -
  have s: "inv s" "groups_disjoint live" "owned live \<inter> free s = {}" "owned live \<union> free s = slots s"
    and live: "\<forall>g\<in>set live. 0 < snd g \<and> (\<exists>c. case_prod slot_range g \<subseteq> region c s)"
    using acc by (auto simp: accounted_def)
  have "set live = insert (i, cnt) (set (remove1 (i, cnt) live))"
    using mem by (metis insert_absorb insert_Diff_single in_set_remove1 notin_set_remove1 remove1_split
        set_append list.simps(15) Un_insert_right)
  then have own: "owned live = slot_range i cnt \<union> owned (remove1 (i, cnt) live)"
    by (simp add: owned_def)
  note dis = groups_disjoint_remove1 [OF s(2) mem]
  have d: "slot_range i cnt \<inter> owned (remove1 (i, cnt) live) = {}"
    using dis unfolding owned_def by auto
  obtain c where "slot_range i cnt \<subseteq> region c s" and cnt: "0 < cnt"
    using live mem by fastforce
  then have "slot_range i cnt \<subseteq> (slots s - free s) \<inter> region c s"
    using own s(3,4) by auto
  then obtain s' where s': "release i cnt s = Some s'" "inv s'" "slots s' = slots s" "\<forall>c. region c s' = region c s"
      "free s' = free s \<union> slot_range i cnt"
    using release [OF s(1) cnt] by blast
  have "\<forall>g\<in>set (remove1 (i, cnt) live). 0 < snd g \<and> (\<exists>c. case_prod slot_range g \<subseteq> region c s')"
    using live set_remove1_subset [of "(i, cnt)" live] s'(4) by auto
  moreover have "owned (remove1 (i, cnt) live) \<inter> free s' = {}" "owned (remove1 (i, cnt) live) \<union> free s' = slots s'"
    using s(3,4) own d s'(3,5) by auto
  ultimately show ?thesis
    using dis s' by (simp add: accounted_def)
qed

text \<open>No run of requests panics, loses a slot or gives one out twice.\<close>

lemma run_accounted:
  assumes "accounted sl"
  shows "\<exists>sl'. slot_run alloc release ops sl = Some sl' \<and> accounted sl' \<and> slots (fst sl') = slots (fst sl)"
  using assms
proof (induction ops arbitrary: sl)
  case (Cons op ops)
  obtain s live where sl: "sl = (s, live)" by fastforce
  show ?case
  proof (cases op)
    case (Alloc c cnt)
    show ?thesis
    proof (cases "0 < cnt")
      case True
      then obtain r s1 where r: "alloc c cnt s = Some (r, s1)"
        using alloc_total [of s cnt c] Cons.prems by (auto simp: accounted_def sl)
      note a = alloc_accounted [OF Cons.prems [unfolded sl] True r]
      show ?thesis
        using Cons.IH [OF a [THEN conjunct1]] a r True by (auto simp: sl Alloc)
    next
      case False
      then show ?thesis
        using Cons.IH [OF Cons.prems] by (simp add: sl Alloc)
    qed
  next
    case (Release i cnt)
    show ?thesis
    proof (cases "(i, cnt) \<in> set live")
      case True
      obtain s1 where r: "release i cnt s = Some s1" "accounted (s1, remove1 (i, cnt) live)" "slots s1 = slots s"
        using release_accounted [OF _ True] Cons.prems sl by blast
      show ?thesis
        using Cons.IH [OF r(2)] r True by (auto simp: sl Release)
    next
      case False
      then show ?thesis
        using Cons.IH [OF Cons.prems] by (simp add: sl Release)
    qed
  qed
qed simp

end

end
