(* ===== verification/Bitmap.thy ===== *)
theory Bitmap
  imports Slots
begin

text \<open>
  The bitmaps of \<open>src/src/lib/kernel/bitmap.c\<close>: an array of 32-bit elements that simulates an
  array of bits.  \<open>bits_of\<close> is the sequence of bits a bitmap stands for; every routine is proved
  to act on that sequence as its comment says.
\<close>

unbundle bit_operations_syntax

section \<open>Representation\<close>

record bitmap =
  bit_cnt :: nat
  bits :: "u32 list"

definition ELEM_BITS :: nat where
  "ELEM_BITS = 32"

definition BITMAP_ERROR :: nat where
  "BITMAP_ERROR = 2 ^ 32 - 1"

definition elem_idx :: "nat \<Rightarrow> nat" where
  "elem_idx bit_idx = bit_idx div ELEM_BITS"

definition bit_mask :: "nat \<Rightarrow> u32" where
  "bit_mask bit_idx = push_bit (bit_idx mod ELEM_BITS) 1"

definition elem_cnt :: "nat \<Rightarrow> nat" where
  "elem_cnt n = size_t (n + ELEM_BITS - 1) div ELEM_BITS"

definition byte_cnt :: "nat \<Rightarrow> nat" where
  "byte_cnt n = size_t (4 * elem_cnt n)"

definition last_mask :: "bitmap \<Rightarrow> u32" where
  "last_mask b =
     (let last_bits = bit_cnt b mod ELEM_BITS in
      if last_bits \<noteq> 0 then push_bit last_bits 1 - 1 else - 1)"

definition bitmap_buf_size :: "nat \<Rightarrow> nat" where
  "bitmap_buf_size n = size_t (8 + byte_cnt n)"

definition bitmap_size :: "bitmap \<Rightarrow> nat" where
  "bitmap_size b = bit_cnt b"

section \<open>Single bits\<close>

text \<open>The read-modify-write instructions on one element; an index outside the array is an error.\<close>

definition update_elem :: "(u32 \<Rightarrow> u32) \<Rightarrow> bitmap \<Rightarrow> nat \<Rightarrow> bitmap option" where
  "update_elem f b idx =
     (if idx < length (bits b) then Some (b\<lparr>bits := (bits b)[idx := f (bits b ! idx)]\<rparr>) else None)"

definition bitmap_mark :: "bitmap \<Rightarrow> nat \<Rightarrow> bitmap option" where
  "bitmap_mark b bit_idx =
     (let idx = elem_idx bit_idx; mask = bit_mask bit_idx in update_elem (\<lambda>e. e OR mask) b idx)"

definition bitmap_reset :: "bitmap \<Rightarrow> nat \<Rightarrow> bitmap option" where
  "bitmap_reset b bit_idx =
     (let idx = elem_idx bit_idx; mask = bit_mask bit_idx in update_elem (\<lambda>e. e AND NOT mask) b idx)"

definition bitmap_flip :: "bitmap \<Rightarrow> nat \<Rightarrow> bitmap option" where
  "bitmap_flip b bit_idx =
     (let idx = elem_idx bit_idx; mask = bit_mask bit_idx in update_elem (\<lambda>e. e XOR mask) b idx)"

definition bitmap_set :: "bitmap \<Rightarrow> nat \<Rightarrow> bool \<Rightarrow> bitmap option" where
  "bitmap_set b idx v = do {
     ASSERT (idx < bit_cnt b);
     if v then bitmap_mark b idx else bitmap_reset b idx
   }"

definition bitmap_test :: "bitmap \<Rightarrow> nat \<Rightarrow> bool option" where
  "bitmap_test b idx = do {
     ASSERT (idx < bit_cnt b);
     ASSERT (elem_idx idx < length (bits b));
     Some (bits b ! elem_idx idx AND bit_mask idx \<noteq> 0)
   }"

section \<open>Groups of bits\<close>

text \<open>The \<open>for\<close> loops over \<open>i\<close>, with the number of iterations left as the last argument.\<close>

primrec set_multiple_loop :: "bitmap \<Rightarrow> nat \<Rightarrow> nat \<Rightarrow> bool \<Rightarrow> nat \<Rightarrow> bitmap option" where
  "set_multiple_loop b start i v 0 = Some b"
| "set_multiple_loop b start i v (Suc n) = do {
     b \<leftarrow> bitmap_set b (size_t (start + i)) v;
     set_multiple_loop b start (i + 1) v n
   }"

definition bitmap_set_multiple :: "bitmap \<Rightarrow> nat \<Rightarrow> nat \<Rightarrow> bool \<Rightarrow> bitmap option" where
  "bitmap_set_multiple b start cnt v = do {
     ASSERT (start \<le> bit_cnt b);
     ASSERT (size_t (start + cnt) \<le> bit_cnt b);
     set_multiple_loop b start 0 v cnt
   }"

definition bitmap_set_all :: "bitmap \<Rightarrow> bool \<Rightarrow> bitmap option" where
  "bitmap_set_all b v = bitmap_set_multiple b 0 (bitmap_size b) v"

primrec count_loop :: "bitmap \<Rightarrow> nat \<Rightarrow> nat \<Rightarrow> bool \<Rightarrow> nat \<Rightarrow> nat \<Rightarrow> nat option" where
  "count_loop b start i v value_cnt 0 = Some value_cnt"
| "count_loop b start i v value_cnt (Suc n) = do {
     t \<leftarrow> bitmap_test b (size_t (start + i));
     count_loop b start (i + 1) v (if t = v then value_cnt + 1 else value_cnt) n
   }"

definition bitmap_count :: "bitmap \<Rightarrow> nat \<Rightarrow> nat \<Rightarrow> bool \<Rightarrow> nat option" where
  "bitmap_count b start cnt v = do {
     ASSERT (start \<le> bit_cnt b);
     ASSERT (size_t (start + cnt) \<le> bit_cnt b);
     count_loop b start 0 v 0 cnt
   }"

primrec contains_loop :: "bitmap \<Rightarrow> nat \<Rightarrow> nat \<Rightarrow> bool \<Rightarrow> nat \<Rightarrow> bool option" where
  "contains_loop b start i v 0 = Some False"
| "contains_loop b start i v (Suc n) = do {
     t \<leftarrow> bitmap_test b (size_t (start + i));
     if t = v then Some True else contains_loop b start (i + 1) v n
   }"

definition bitmap_contains :: "bitmap \<Rightarrow> nat \<Rightarrow> nat \<Rightarrow> bool \<Rightarrow> bool option" where
  "bitmap_contains b start cnt v = do {
     ASSERT (start \<le> bit_cnt b);
     ASSERT (size_t (start + cnt) \<le> bit_cnt b);
     contains_loop b start 0 v cnt
   }"

definition bitmap_any :: "bitmap \<Rightarrow> nat \<Rightarrow> nat \<Rightarrow> bool option" where
  "bitmap_any b start cnt = bitmap_contains b start cnt True"

definition bitmap_none :: "bitmap \<Rightarrow> nat \<Rightarrow> nat \<Rightarrow> bool option" where
  "bitmap_none b start cnt = map_option Not (bitmap_contains b start cnt True)"

definition bitmap_all :: "bitmap \<Rightarrow> nat \<Rightarrow> nat \<Rightarrow> bool option" where
  "bitmap_all b start cnt = map_option Not (bitmap_contains b start cnt False)"

partial_function (option) scan_loop :: "bitmap \<Rightarrow> nat \<Rightarrow> nat \<Rightarrow> bool \<Rightarrow> nat \<Rightarrow> nat option" where
  "scan_loop b i cnt v lst =
     (if i \<le> lst then do {
        c \<leftarrow> bitmap_contains b i cnt (\<not> v);
        if \<not> c then Some i else scan_loop b (size_t (i + 1)) cnt v lst
      }
      else Some BITMAP_ERROR)"

definition bitmap_scan :: "bitmap \<Rightarrow> nat \<Rightarrow> nat \<Rightarrow> bool \<Rightarrow> nat option" where
  "bitmap_scan b start cnt v = do {
     ASSERT (start \<le> bit_cnt b);
     if cnt \<le> bit_cnt b then scan_loop b start cnt v (bit_cnt b - cnt)
     else Some BITMAP_ERROR
   }"

definition bitmap_scan_and_flip :: "bitmap \<Rightarrow> nat \<Rightarrow> nat \<Rightarrow> bool \<Rightarrow> (nat \<times> bitmap) option" where
  "bitmap_scan_and_flip b start cnt v = do {
     idx \<leftarrow> bitmap_scan b start cnt v;
     b \<leftarrow> (if idx \<noteq> BITMAP_ERROR then bitmap_set_multiple b idx cnt (\<not> v) else Some b);
     Some (idx, b)
   }"

section \<open>Creation, input and output\<close>

text \<open>
  Creation: the two arguments before the size are what the calls of \<open>malloc\<close> return, for the
  structure and for the elements (with whatever the new block holds).
\<close>

definition bitmap_create :: "bool \<Rightarrow> u32 list option \<Rightarrow> nat \<Rightarrow> bitmap option option" where
  "bitmap_create b_ok buf n =
     (if b_ok then
        if buf \<noteq> None \<or> n = 0
        then map_option Some (bitmap_set_all \<lparr>bit_cnt = n, bits = (case buf of None \<Rightarrow> [] | Some ws \<Rightarrow> ws)\<rparr> False)
        else Some None
      else Some None)"

definition bitmap_create_in_buf :: "nat \<Rightarrow> u32 list \<Rightarrow> nat \<Rightarrow> bitmap option" where
  "bitmap_create_in_buf n block block_size = do {
     ASSERT (block_size \<ge> bitmap_buf_size n);
     bitmap_set_all \<lparr>bit_cnt = n, bits = block\<rparr> False
   }"

definition bitmap_file_size :: "bitmap \<Rightarrow> nat" where
  "bitmap_file_size b = byte_cnt (bit_cnt b)"

text \<open>
  Reading: \<open>n\<close> and \<open>ws\<close> are what \<open>file_read_at\<close> returns and leaves in the element array.  Writing
  gives the elements to \<open>file_write_at\<close>, which returns \<open>n\<close>.
\<close>

definition bitmap_read :: "bitmap \<Rightarrow> nat \<Rightarrow> u32 list \<Rightarrow> (bool \<times> bitmap) option" where
  "bitmap_read b n ws =
     (if bit_cnt b > 0 then do {
        let size = byte_cnt (bit_cnt b);
        let success = (n = size);
        b \<leftarrow> update_elem (\<lambda>e. e AND last_mask b) (b\<lparr>bits := ws\<rparr>) (elem_cnt (bit_cnt b) - 1);
        Some (success, b)
      }
      else Some (True, b))"

definition bitmap_write :: "bitmap \<Rightarrow> nat \<Rightarrow> bool" where
  "bitmap_write b n \<longleftrightarrow> n = byte_cnt (bit_cnt b)"

section \<open>The bits a bitmap stands for\<close>

definition wf_bitmap :: "bitmap \<Rightarrow> bool" where
  "wf_bitmap b \<longleftrightarrow> bit_cnt b + ELEM_BITS \<le> 2 ^ 32 \<and> length (bits b) = elem_cnt (bit_cnt b)"

definition bits_of :: "bitmap \<Rightarrow> bool list" where
  "bits_of b = map (\<lambda>i. bit (bits b ! (i div 32)) (i mod 32)) [0..<bit_cnt b]"

lemma length_bits_of [simp]: "length (bits_of b) = bit_cnt b"
  by (simp add: bits_of_def)

lemma nth_bits_of: "i < bit_cnt b \<Longrightarrow> bits_of b ! i = bit (bits b ! (i div 32)) (i mod 32)"
  by (simp add: bits_of_def)

lemma wf_elem_idx: "wf_bitmap b \<Longrightarrow> i < bit_cnt b \<Longrightarrow> i div 32 < length (bits b)"
  by (simp add: wf_bitmap_def elem_cnt_def ELEM_BITS_def size_t_id)

lemma size_t_bit_idx [simp]: "wf_bitmap b \<Longrightarrow> i \<le> bit_cnt b \<Longrightarrow> size_t i = i"
  by (simp add: wf_bitmap_def ELEM_BITS_def size_t_id)

text \<open>An update of one element that acts on one bit and keeps the others acts on the bit sequence.\<close>

lemma update_elem_bits:
  assumes "wf_bitmap b" and "idx < bit_cnt b"
    and "\<And>e j. j < 32 \<Longrightarrow> bit (f e) j = (if j = idx mod 32 then v (bit e j) else bit e j)"
  shows "\<exists>b'. update_elem f b (elem_idx idx) = Some b' \<and> wf_bitmap b' \<and> bit_cnt b' = bit_cnt b \<and>
              bits_of b' = (bits_of b)[idx := v (bits_of b ! idx)]"
proof -
  let ?b = "b\<lparr>bits := (bits b)[idx div 32 := f (bits b ! (idx div 32))]\<rparr>"
  have len: "idx div 32 < length (bits b)"
    using assms by (simp add: wf_elem_idx)
  have "bits_of ?b = (bits_of b)[idx := v (bits_of b ! idx)]"
  proof (rule nth_equalityI)
    fix i assume "i < length (bits_of ?b)"
    moreover have "i = idx \<longleftrightarrow> i div 32 = idx div 32 \<and> i mod 32 = idx mod 32"
      by (metis div_mult_mod_eq)
    ultimately show "bits_of ?b ! i = (bits_of b)[idx := v (bits_of b ! idx)] ! i"
      using assms(2,3) len by (auto simp: nth_bits_of nth_list_update)
  qed simp
  then show ?thesis
    using assms len by (simp add: update_elem_def elem_idx_def ELEM_BITS_def wf_bitmap_def)
qed

lemma bit_bit_mask: "bit (bit_mask i) j \<longleftrightarrow> j = i mod 32"
  by (auto simp: bit_mask_def ELEM_BITS_def bit_simps)

lemma bitmap_set_correct:
  assumes "wf_bitmap b" and "idx < bit_cnt b"
  shows "\<exists>b'. bitmap_set b idx v = Some b' \<and> wf_bitmap b' \<and> bit_cnt b' = bit_cnt b \<and>
              bits_of b' = (bits_of b)[idx := v]"
proof (cases v)
  case True
  then show ?thesis
    using update_elem_bits [OF assms, of "\<lambda>e. e OR bit_mask idx" "\<lambda>_. True"] assms(2)
    by (auto simp: bitmap_set_def bitmap_mark_def bit_simps bit_bit_mask)
next
  case False
  then show ?thesis
    using update_elem_bits [OF assms, of "\<lambda>e. e AND NOT (bit_mask idx)" "\<lambda>_. False"] assms(2)
    by (auto simp: bitmap_set_def bitmap_reset_def bit_simps bit_bit_mask)
qed

lemma bitmap_flip_correct:
  assumes "wf_bitmap b" and "idx < bit_cnt b"
  shows "\<exists>b'. bitmap_flip b idx = Some b' \<and> wf_bitmap b' \<and> bit_cnt b' = bit_cnt b \<and>
              bits_of b' = (bits_of b)[idx := \<not> bits_of b ! idx]"
  using update_elem_bits [OF assms, of "\<lambda>e. e XOR bit_mask idx" Not]
  by (auto simp: bitmap_flip_def bit_simps bit_bit_mask)

lemma bitmap_test_correct:
  assumes "wf_bitmap b" and "idx < bit_cnt b"
  shows "bitmap_test b idx = Some (bits_of b ! idx)"
proof -
  have "(w AND bit_mask idx \<noteq> 0) = bit w (idx mod 32)" for w :: u32
    unfolding bit_eq_iff by (auto simp: bit_and_iff bit_bit_mask)
  then show ?thesis
    using assms by (simp add: bitmap_test_def elem_idx_def ELEM_BITS_def wf_elem_idx nth_bits_of)
qed

lemma set_multiple_loop_correct:
  assumes "wf_bitmap b" and "start + i + n \<le> bit_cnt b"
  shows "\<exists>b'. set_multiple_loop b start i v n = Some b' \<and> wf_bitmap b' \<and> bit_cnt b' = bit_cnt b \<and>
              bits_of b' = take (start + i) (bits_of b) @ replicate n v @ drop (start + i + n) (bits_of b)"
  using assms
proof (induction n arbitrary: b i)
  case (Suc n)
  obtain b1 where b1: "bitmap_set b (start + i) v = Some b1" "wf_bitmap b1" "bit_cnt b1 = bit_cnt b"
      "bits_of b1 = (bits_of b)[start + i := v]"
    using bitmap_set_correct [of b "start + i" v] Suc.prems by auto
  have "take (start + i + 1) (bits_of b1) = take (start + i) (bits_of b) @ [v]"
    using Suc.prems(2) by (simp add: b1(4) take_Suc_conv_app_nth)
  then show ?case
    using Suc.IH [of b1 "i + 1"] Suc.prems b1 by auto
qed simp

lemma bitmap_set_multiple_correct:
  assumes "wf_bitmap b" and "start + cnt \<le> bit_cnt b"
  shows "\<exists>b'. bitmap_set_multiple b start cnt v = Some b' \<and> wf_bitmap b' \<and> bit_cnt b' = bit_cnt b \<and>
              bits_of b' = take start (bits_of b) @ replicate cnt v @ drop (start + cnt) (bits_of b)"
  using set_multiple_loop_correct [of b start 0 cnt v] assms by (simp add: bitmap_set_multiple_def)

lemma bitmap_set_all_correct:
  "wf_bitmap b \<Longrightarrow>
   \<exists>b'. bitmap_set_all b v = Some b' \<and> wf_bitmap b' \<and> bit_cnt b' = bit_cnt b \<and>
        bits_of b' = replicate (bit_cnt b) v"
  using bitmap_set_multiple_correct [of b 0 "bit_cnt b" v]
  by (auto simp: bitmap_set_all_def bitmap_size_def)

lemma take_drop_Suc: "i < length xs \<Longrightarrow> take (Suc n) (drop i xs) = xs ! i # take n (drop (Suc i) xs)"
  by (simp add: Cons_nth_drop_Suc [symmetric])

lemma count_loop_correct:
  "wf_bitmap b \<Longrightarrow> start + i + n \<le> bit_cnt b \<Longrightarrow>
   count_loop b start i v c n = Some (c + count_list (take n (drop (start + i) (bits_of b))) v)"
proof (induction n arbitrary: i c)
  case (Suc n)
  then show ?case
    using Suc.IH [of "i + 1"] by (simp add: bitmap_test_correct take_drop_Suc)
qed simp

lemma contains_loop_correct:
  "wf_bitmap b \<Longrightarrow> start + i + n \<le> bit_cnt b \<Longrightarrow>
   contains_loop b start i v n = Some (v \<in> set (take n (drop (start + i) (bits_of b))))"
proof (induction n arbitrary: i)
  case (Suc n)
  then show ?case
    using Suc.IH [of "i + 1"] by (auto simp: bitmap_test_correct take_drop_Suc)
qed simp

lemma bitmap_count_correct:
  "wf_bitmap b \<Longrightarrow> start + cnt \<le> bit_cnt b \<Longrightarrow>
   bitmap_count b start cnt v = Some (count_list (take cnt (drop start (bits_of b))) v)"
  using count_loop_correct [of b start 0 cnt v 0] by (simp add: bitmap_count_def)

lemma bitmap_contains_correct:
  "wf_bitmap b \<Longrightarrow> start + cnt \<le> bit_cnt b \<Longrightarrow>
   bitmap_contains b start cnt v = Some (v \<in> set (take cnt (drop start (bits_of b))))"
  using contains_loop_correct [of b start 0 cnt v] by (simp add: bitmap_contains_def)

text \<open>\<open>group_at bs i cnt v\<close>: the \<open>cnt\<close> bits from \<open>i\<close> on exist and all have value \<open>v\<close>.\<close>

definition group_at :: "bool list \<Rightarrow> nat \<Rightarrow> nat \<Rightarrow> bool \<Rightarrow> bool" where
  "group_at bs i cnt v \<longleftrightarrow> i + cnt \<le> length bs \<and> (\<forall>j < cnt. bs ! (i + j) = v)"

lemma group_at_take_drop:
  "i + cnt \<le> length bs \<Longrightarrow> group_at bs i cnt v \<longleftrightarrow> (\<not> v) \<notin> set (take cnt (drop i bs))"
  by (auto simp: group_at_def in_set_conv_nth)

lemma bit_cnt_less: "wf_bitmap b \<Longrightarrow> bit_cnt b < BITMAP_ERROR"
  by (simp add: wf_bitmap_def ELEM_BITS_def BITMAP_ERROR_def)

lemma scan_loop_correct:
  assumes "wf_bitmap b" and "cnt \<le> bit_cnt b" and "i \<le> bit_cnt b"
  shows "\<exists>r. scan_loop b i cnt v (bit_cnt b - cnt) = Some r \<and>
     (if r = BITMAP_ERROR then \<forall>k\<ge>i. \<not> group_at (bits_of b) k cnt v
      else i \<le> r \<and> group_at (bits_of b) r cnt v \<and> (\<forall>k. i \<le> k \<longrightarrow> k < r \<longrightarrow> \<not> group_at (bits_of b) k cnt v))"
  using assms(3)
proof (induction "bit_cnt b - i" arbitrary: i rule: less_induct)
  case less
  show ?case
  proof (cases "i + cnt \<le> bit_cnt b")
    case False
    then have "\<not> group_at (bits_of b) k cnt v" if "i \<le> k" for k
      using that by (simp add: group_at_def)
    then show ?thesis
      using False assms(2) by (subst scan_loop.simps) auto
  next
    case True
    then have c: "bitmap_contains b i cnt (\<not> v) = Some (\<not> group_at (bits_of b) i cnt v)"
      using assms(1) by (simp add: bitmap_contains_correct group_at_take_drop)
    show ?thesis
    proof (cases "group_at (bits_of b) i cnt v")
      case group: True
      then show ?thesis
        using True c less.prems bit_cnt_less [OF assms(1)] by (subst scan_loop.simps) auto
    next
      case group: False
      then have "i < bit_cnt b"
        using True by (cases "i = bit_cnt b") (auto simp: group_at_def)
      then obtain r where r: "scan_loop b (i + 1) cnt v (bit_cnt b - cnt) = Some r"
        "if r = BITMAP_ERROR then \<forall>k\<ge>i + 1. \<not> group_at (bits_of b) k cnt v
         else i + 1 \<le> r \<and> group_at (bits_of b) r cnt v \<and>
           (\<forall>k. i + 1 \<le> k \<longrightarrow> k < r \<longrightarrow> \<not> group_at (bits_of b) k cnt v)"
        using less.hyps [of "i + 1"] less.prems by (metis Suc_eq_plus1 Suc_leI diff_less_mono2 lessI)
      have "size_t (i + 1) = i + 1"
        using \<open>i < bit_cnt b\<close> assms(1) by simp
      then have "scan_loop b i cnt v (bit_cnt b - cnt) = Some r"
        using True c group r(1) by (subst scan_loop.simps) (simp add: le_diff_conv2 [OF assms(2)])
      moreover have "i \<le> k \<Longrightarrow> k = i \<or> i + 1 \<le> k" for k
        by auto
      ultimately show ?thesis
        using r(2) group by (cases "r = BITMAP_ERROR") (simp_all, blast+)
    qed
  qed
qed

lemma bitmap_scan_correct:
  assumes "wf_bitmap b" and "start \<le> bit_cnt b"
  shows "\<exists>r. bitmap_scan b start cnt v = Some r \<and>
     (if r = BITMAP_ERROR then \<forall>k\<ge>start. \<not> group_at (bits_of b) k cnt v
      else start \<le> r \<and> group_at (bits_of b) r cnt v \<and>
        (\<forall>k. start \<le> k \<longrightarrow> k < r \<longrightarrow> \<not> group_at (bits_of b) k cnt v))"
proof (cases "cnt \<le> bit_cnt b")
  case True
  then show ?thesis
    using scan_loop_correct [OF assms(1) True assms(2)] assms(2) by (simp add: bitmap_scan_def)
next
  case False
  then show ?thesis
    using assms(2) by (simp add: bitmap_scan_def group_at_def)
qed

lemma bitmap_scan_and_flip_correct:
  assumes "wf_bitmap b" and "start \<le> bit_cnt b"
  shows "\<exists>r b'. bitmap_scan_and_flip b start cnt v = Some (r, b') \<and> wf_bitmap b' \<and> bit_cnt b' = bit_cnt b \<and>
     (if r = BITMAP_ERROR then b' = b \<and> (\<forall>k\<ge>start. \<not> group_at (bits_of b) k cnt v)
      else start \<le> r \<and> group_at (bits_of b) r cnt v \<and>
        (\<forall>k. start \<le> k \<longrightarrow> k < r \<longrightarrow> \<not> group_at (bits_of b) k cnt v) \<and>
        bits_of b' = take r (bits_of b) @ replicate cnt (\<not> v) @ drop (r + cnt) (bits_of b))"
proof -
  obtain r where r: "bitmap_scan b start cnt v = Some r"
     "if r = BITMAP_ERROR then \<forall>k\<ge>start. \<not> group_at (bits_of b) k cnt v
      else start \<le> r \<and> group_at (bits_of b) r cnt v \<and>
        (\<forall>k. start \<le> k \<longrightarrow> k < r \<longrightarrow> \<not> group_at (bits_of b) k cnt v)"
    using bitmap_scan_correct [OF assms] by blast
  show ?thesis
  proof (cases "r = BITMAP_ERROR")
    case True
    then show ?thesis
      using r assms by (simp add: bitmap_scan_and_flip_def)
  next
    case False
    then have "r + cnt \<le> bit_cnt b"
      using r(2) by (simp add: group_at_def)
    then show ?thesis
      using r False bitmap_set_multiple_correct [OF assms(1), of r cnt "\<not> v"]
      by (auto simp: bitmap_scan_and_flip_def)
  qed
qed

section \<open>Bitmaps as slot allocators\<close>

text \<open>How the kernel uses a bitmap to hand out slots: a set bit is a slot in use.\<close>

definition bitmap_alloc :: "nat \<Rightarrow> bitmap \<Rightarrow> (nat option \<times> bitmap) option" where
  "bitmap_alloc cnt b = do {
     (idx, b) \<leftarrow> bitmap_scan_and_flip b 0 cnt False;
     Some (if idx = BITMAP_ERROR then None else Some idx, b)
   }"

definition free_bits :: "bitmap \<Rightarrow> nat set" where
  "free_bits b = {i. i < bit_cnt b \<and> \<not> bits_of b ! i}"

lemma group_at_free: "group_at (bits_of b) i cnt False \<longleftrightarrow> i + cnt \<le> bit_cnt b \<and> slot_range i cnt \<subseteq> free_bits b"
proof -
  have "(\<forall>j<cnt. \<not> bits_of b ! (i + j)) \<longleftrightarrow> (\<forall>k\<in>slot_range i cnt. \<not> bits_of b ! k)"
    by (metis add_less_cancel_left atLeastLessThan_iff le_add1 le_Suc_ex)
  then show ?thesis
    by (auto simp: group_at_def free_bits_def)
qed

lemma free_bits_set:
  assumes "bits_of b' = take i (bits_of b) @ replicate cnt v @ drop (i + cnt) (bits_of b)"
    and "bit_cnt b' = bit_cnt b" and "i + cnt \<le> bit_cnt b"
  shows "free_bits b' = (if v then free_bits b - slot_range i cnt else free_bits b \<union> slot_range i cnt)"
proof -
  have *: "bits_of b' ! k = (if k \<in> slot_range i cnt then v else bits_of b ! k)" if "k < bit_cnt b" for k
    using that assms(3) unfolding assms(1) by (auto simp: nth_append min_def)
  show ?thesis
  proof (rule set_eqI)
    fix k
    show "k \<in> free_bits b' \<longleftrightarrow>
        k \<in> (if v then free_bits b - slot_range i cnt else free_bits b \<union> slot_range i cnt)"
      using * [of k] assms(2,3) by (cases "k < bit_cnt b") (auto simp: free_bits_def)
  qed
qed

interpretation bm: slot_allocator wf_bitmap "\<lambda>b. {..<bit_cnt b}" free_bits "\<lambda>_ :: unit. \<lambda>b. {..<bit_cnt b}"
  "\<lambda>_. bitmap_alloc" "\<lambda>i cnt b. bitmap_set_multiple b i cnt False"
proof
  fix s :: bitmap and cnt
  assume wf: "wf_bitmap s"
  show "free_bits s \<subseteq> {..<bit_cnt s}"
    by (auto simp: free_bits_def)
  obtain idx b' where sf: "bitmap_scan_and_flip s 0 cnt False = Some (idx, b')" "wf_bitmap b'" "bit_cnt b' = bit_cnt s"
      "if idx = BITMAP_ERROR then b' = s \<and> (\<forall>k\<ge>0. \<not> group_at (bits_of s) k cnt False)
       else 0 \<le> idx \<and> group_at (bits_of s) idx cnt False \<and>
         (\<forall>k. 0 \<le> k \<longrightarrow> k < idx \<longrightarrow> \<not> group_at (bits_of s) k cnt False) \<and>
         bits_of b' = take idx (bits_of s) @ replicate cnt (\<not> False) @ drop (idx + cnt) (bits_of s)"
    using bitmap_scan_and_flip_correct [OF wf, of 0 cnt False] by blast
  have al: "bitmap_alloc cnt s = Some (if idx = BITMAP_ERROR then None else Some idx, b')"
    using sf(1) by (simp add: bitmap_alloc_def)
  show "\<exists>r s'. bitmap_alloc cnt s = Some (r, s')"
    using al by simp
  fix r s'
  show "wf_bitmap s' \<and> {..<bit_cnt s'} = {..<bit_cnt s} \<and> (\<forall>c' :: unit. {..<bit_cnt s'} = {..<bit_cnt s})" if "bitmap_alloc cnt s = Some (r, s')"
    using al sf(2,3) that by simp
  fix i
  show "slot_range i cnt \<subseteq> free_bits s \<inter> {..<bit_cnt s} \<and> free_bits s' = free_bits s - slot_range i cnt"
    if "bitmap_alloc cnt s = Some (Some i, s')"
  proof -
    have i: "idx = i" "i \<noteq> BITMAP_ERROR" "s' = b'"
      using that al by (auto split: if_splits)
    then have "group_at (bits_of s) i cnt False"
      "bits_of b' = take i (bits_of s) @ replicate cnt True @ drop (i + cnt) (bits_of s)"
      using sf(4) by auto
    then show ?thesis
      using free_bits_set [of b' i s cnt True] sf(3) i(3) by (auto simp: group_at_free)
  qed
  show "free_bits s' = free_bits s \<and> \<not> (\<exists>i. slot_range i cnt \<subseteq> free_bits s \<inter> {..<bit_cnt s})"
    if "bitmap_alloc cnt s = Some (None, s')"
  proof -
    have "idx = BITMAP_ERROR" "s' = b'"
      using that al by (auto split: if_splits)
    then have "s' = s" and none: "\<not> group_at (bits_of s) k cnt False" for k
      using sf(4) by auto
    have False if "slot_range k cnt \<subseteq> free_bits s" for k
    proof (cases cnt)
      case 0
      then show ?thesis using none [of 0] by (simp add: group_at_def)
    next
      case (Suc m)
      then have "k + m \<in> free_bits s" using that by auto
      then have "k + cnt \<le> bit_cnt s" using Suc by (simp add: free_bits_def)
      then show ?thesis using none [of k] that by (simp add: group_at_free)
    qed
    then show ?thesis
      using \<open>s' = s\<close> by auto
  qed
  show "\<exists>s'. bitmap_set_multiple s i cnt False = Some s' \<and> wf_bitmap s' \<and>
      {..<bit_cnt s'} = {..<bit_cnt s} \<and> (\<forall>c' :: unit. {..<bit_cnt s'} = {..<bit_cnt s}) \<and>
      free_bits s' = free_bits s \<union> slot_range i cnt"
    if "0 < cnt" "slot_range i cnt \<subseteq> ({..<bit_cnt s} - free_bits s) \<inter> {..<bit_cnt s}"
  proof -
    have "i + cnt - 1 \<in> slot_range i cnt" using that(1) by simp
    then have "i + cnt - 1 < bit_cnt s" using that(2) by blast
    then have le: "i + cnt \<le> bit_cnt s" using that(1) by linarith
    obtain s' where "bitmap_set_multiple s i cnt False = Some s'" "wf_bitmap s'" "bit_cnt s' = bit_cnt s"
        "bits_of s' = take i (bits_of s) @ replicate cnt False @ drop (i + cnt) (bits_of s)"
      using bitmap_set_multiple_correct [OF wf le, of False] by blast
    then show ?thesis
      using free_bits_set [of s' i s cnt False] le by simp
  qed
qed

lemma last_mask_bits:
  "j < 32 \<Longrightarrow> bit (last_mask b) j \<longleftrightarrow> bit_cnt b mod 32 = 0 \<or> j < bit_cnt b mod 32"
  by (simp add: last_mask_def ELEM_BITS_def Let_def bit_mask_iff flip: mask_eq_exp_minus_1 )

lemma bitmap_create_correct:
  assumes "n + 32 \<le> 2 ^ 32" and "length ws = elem_cnt n"
  shows "\<exists>b. bitmap_create True (Some ws) n = Some (Some b) \<and> wf_bitmap b \<and> bits_of b = replicate n False"
  using bitmap_set_all_correct [of "\<lparr>bit_cnt = n, bits = ws\<rparr>" False] assms
  by (auto simp: bitmap_create_def wf_bitmap_def ELEM_BITS_def)

lemma bitmap_create_no_memory:
  "bitmap_create False buf n = Some None" "0 < n \<Longrightarrow> bitmap_create True None n = Some None"
  by (simp_all add: bitmap_create_def)

lemma round_up_32:
  assumes "(n :: nat) mod 32 \<noteq> 0"
  shows "(n + 31) div 32 = n div 32 + 1"
proof -
  have "n + 31 = (n mod 32 + 31) + (n div 32) * 32"
    by simp
  then have "(n + 31) div 32 = (n mod 32 + 31) div 32 + n div 32"
    by (metis div_mult_self1 add.commute zero_neq_numeral)
  moreover have "(n mod 32 + 31) div 32 = 1"
    using assms by (intro div_nat_eqI) auto
  ultimately show ?thesis by simp
qed

lemma last_elem_bits:
  assumes "(n :: nat) mod 32 \<noteq> 0" and "i < n" and "i div 32 = (n + 31) div 32 - 1"
  shows "i mod 32 < n mod 32"
proof -
  have "i div 32 = n div 32"
    using assms(3) round_up_32 [OF assms(1)] by simp
  then show ?thesis
    using assms(2) div_mult_mod_eq [of i 32] div_mult_mod_eq [of n 32] by (metis nat_add_left_cancel_less)
qed

lemma bitmap_read_correct:
  assumes "wf_bitmap b" and "length ws = elem_cnt (bit_cnt b)"
  shows "\<exists>b'. bitmap_read b n ws = Some (n = byte_cnt (bit_cnt b) \<or> bit_cnt b = 0, b') \<and> wf_bitmap b' \<and>
              bit_cnt b' = bit_cnt b \<and>
              (0 < bit_cnt b \<longrightarrow> bits_of b' = bits_of (b\<lparr>bits := ws\<rparr>))"
proof (cases "bit_cnt b = 0")
  case True
  then show ?thesis
    using assms by (simp add: bitmap_read_def)
next
  case False
  let ?k = "elem_cnt (bit_cnt b) - 1" and ?b = "b\<lparr>bits := ws\<rparr>"
  let ?b' = "b\<lparr>bits := ws[?k := ws ! ?k AND last_mask b]\<rparr>"
  have "bit_cnt b + 31 < 2 ^ 32"
    using assms(1) unfolding wf_bitmap_def ELEM_BITS_def by linarith
  then have cnt: "elem_cnt (bit_cnt b) = (bit_cnt b + 31) div 32"
    by (simp add: elem_cnt_def ELEM_BITS_def)
  have "elem_cnt (bit_cnt b) \<noteq> 0"
    unfolding cnt using False by (simp only: div_eq_0_iff) linarith
  then have k: "?k < length ws"
    using assms(2) by simp
  have "bits_of ?b' = bits_of ?b"
  proof (rule nth_equalityI)
    fix i assume "i < length (bits_of ?b')"
    then have i: "i < bit_cnt b" by simp
    have "i mod 32 < bit_cnt b mod 32 \<or> bit_cnt b mod 32 = 0" if "i div 32 = ?k"
      using last_elem_bits [OF _ i that [unfolded cnt]] by blast
    then show "bits_of ?b' ! i = bits_of ?b ! i"
      using i k by (cases "i div 32 = ?k") (auto simp: nth_bits_of bit_and_iff last_mask_bits)
  qed simp
  then show ?thesis
    using False k assms by (simp add: bitmap_read_def update_elem_def wf_bitmap_def)
qed

section \<open>Properties\<close>

text \<open>
  C3: \<open>bitmap_scan_and_flip\<close> returns, without a failed assertion, the first position at or after
  \<open>start\<close> of a group of \<open>cnt > 0\<close> bits with the wanted value and inverts exactly the bits of that group;
  when there is no such group it returns \<open>BITMAP_ERROR\<close> and changes nothing.
\<close>

theorem bitmap_scan_and_flip_first:
  assumes "wf_bitmap b" and "start \<le> bit_cnt b" and "0 < cnt"
  shows "\<exists>r b'. bitmap_scan_and_flip b start cnt v = Some (r, b') \<and> wf_bitmap b' \<and> bit_cnt b' = bit_cnt b \<and>
     (if r = BITMAP_ERROR then b' = b \<and> (\<forall>k\<ge>start. \<not> group_at (bits_of b) k cnt v)
      else start \<le> r \<and> group_at (bits_of b) r cnt v \<and>
        (\<forall>k. start \<le> k \<longrightarrow> k < r \<longrightarrow> \<not> group_at (bits_of b) k cnt v) \<and>
        bits_of b' = take r (bits_of b) @ replicate cnt (\<not> v) @ drop (r + cnt) (bits_of b))"
  using assms(1,2) by (rule bitmap_scan_and_flip_correct)

theorem bitmap_scan_and_flip_first_witness:
  "\<exists>r b'. bitmap_scan_and_flip \<lparr>bit_cnt = 6, bits = [45]\<rparr> 0 1 False = Some (r, b') \<and> r = 1 \<and>
          bits_of b' = [True, True, True, True, False, True]"
proof -
  let ?b = "\<lparr>bit_cnt = 6, bits = [45]\<rparr>"
  have bits: "bits_of ?b = [True, False, True, True, False, True]"
    by (simp add: bits_of_def upt_rec)
  have wf: "wf_bitmap ?b" "(0 :: nat) \<le> bit_cnt ?b"
    by (simp_all add: wf_bitmap_def ELEM_BITS_def elem_cnt_def)
  obtain r b' where r: "bitmap_scan_and_flip ?b 0 1 False = Some (r, b')"
     "if r = BITMAP_ERROR then b' = ?b \<and> (\<forall>k\<ge>0. \<not> group_at (bits_of ?b) k 1 False)
      else 0 \<le> r \<and> group_at (bits_of ?b) r 1 False \<and>
        (\<forall>k. 0 \<le> k \<longrightarrow> k < r \<longrightarrow> \<not> group_at (bits_of ?b) k 1 False) \<and>
        bits_of b' = take r (bits_of ?b) @ replicate 1 (\<not> False) @ drop (r + 1) (bits_of ?b)"
    using bitmap_scan_and_flip_first [OF wf zero_less_one] by blast
  have g: "group_at (bits_of ?b) 1 1 False" "\<not> group_at (bits_of ?b) 0 1 False"
    by (simp_all add: bits group_at_def)
  have ne: "r \<noteq> BITMAP_ERROR"
    using r(2) g(1) by auto
  then have grp: "group_at (bits_of ?b) r 1 False" "\<And>k. k < r \<Longrightarrow> \<not> group_at (bits_of ?b) k 1 False"
    using r(2) by auto
  have "r \<noteq> 0"
    using g(2) grp(1) by (metis (full_types))
  moreover have "\<not> 1 < r"
    using g(1) grp(2) [of 1] by argo
  ultimately have "r = 1" by simp
  moreover have "bits_of b' = take r (bits_of ?b) @ replicate 1 True @ drop (r + 1) (bits_of ?b)"
    using r(2) ne by simp
  ultimately have "bits_of b' = [True, True, True, True, False, True]"
    unfolding bits by simp
  then show ?thesis
    using r(1) \<open>r = 1\<close> by blast
qed

text \<open>
  For an empty group the comment of \<open>bitmap_scan_and_flip\<close> promises index 0; the code returns
  \<open>start\<close>.
\<close>

lemma bitmap_scan_and_flip_zero:
  assumes "wf_bitmap b" and "start \<le> bit_cnt b"
  shows "\<exists>b'. bitmap_scan_and_flip b start 0 v = Some (start, b')"
proof -
  obtain r b' where r: "bitmap_scan_and_flip b start 0 v = Some (r, b')"
     "if r = BITMAP_ERROR then b' = b \<and> (\<forall>k\<ge>start. \<not> group_at (bits_of b) k 0 v)
      else start \<le> r \<and> group_at (bits_of b) r 0 v \<and>
        (\<forall>k. start \<le> k \<longrightarrow> k < r \<longrightarrow> \<not> group_at (bits_of b) k 0 v) \<and>
        bits_of b' = take r (bits_of b) @ replicate 0 (\<not> v) @ drop (r + 0) (bits_of b)"
    using bitmap_scan_and_flip_correct [OF assms, of 0 v] by blast
  have "group_at (bits_of b) start 0 v"
    using assms(2) by (simp add: group_at_def)
  then have "r = start"
    using r(2) by (metis le_less order_refl)
  then show ?thesis using r(1) by blast
qed

end
