(* ===== verification/Arith64.thy ===== *)
theory Arith64
  imports Pintos_Prelude
begin

text \<open>
  The 64-bit division routines of \<open>src/src/lib/arithmetic.c\<close>, which stand in for libgcc on the
  32-bit target.  Values of the C integer types are mathematical integers in the range of the type,
  with every conversion written out; \<open>None\<close> is a divide error of the processor.
\<close>

section \<open>Routines\<close>

definition divl :: "int \<Rightarrow> int \<Rightarrow> int option" where
  "divl n d =
     (let n1 = to_u32 (n div 2 ^ 32); n0 = to_u32 n in
      if d = 0 \<or> (n1 * 2 ^ 32 + n0) div d \<ge> 2 ^ 32 then None
      else Some ((n1 * 2 ^ 32 + n0) div d))"

text \<open>The statement \<open>if (x <= m) { n += k; x <<= k; }\<close>.\<close>

definition nlz_step :: "int \<Rightarrow> nat \<Rightarrow> int \<times> int \<Rightarrow> int \<times> int" where
  "nlz_step m k = (\<lambda>(n, x). if x \<le> m then (n + int k, to_u32 (x * 2 ^ k)) else (n, x))"

definition nlz :: "int \<Rightarrow> int" where
  "nlz x =
     (let (n, x) =
            nlz_step 0x3FFFFFFF 2 (nlz_step 0x0FFFFFFF 4 (nlz_step 0x00FFFFFF 8 (nlz_step 0x0000FFFF 16 (0, x))))
      in if x \<le> 0x7FFFFFFF then n + 1 else n)"

definition udiv64 :: "int \<Rightarrow> int \<Rightarrow> int option" where
  "udiv64 n d =
     (if d div 2 ^ 32 = 0 then
        (let b = 2 ^ 32; n1 = to_u32 (n div 2 ^ 32); n0 = to_u32 n; d0 = to_u32 d in
         if d0 = 0 then None
         else do {
           q \<leftarrow> divl (to_u64 (b * (n1 mod d0) + n0)) d0;
           Some (to_u64 (q + b * (n1 div d0)))
         })
      else if n < d then Some 0
      else do {
        let d1 = to_u32 (d div 2 ^ 32);
        let s = nlz d1;
        q \<leftarrow> divl (n div 2) (to_u32 (to_u64 (d * 2 ^ nat s) div 2 ^ 32));
        let q = q div 2 ^ nat (31 - s);
        Some (if to_u64 (n - to_u64 (to_u64 (q - 1) * d)) < d then to_u64 (q - 1) else q)
      })"

definition umod64 :: "int \<Rightarrow> int \<Rightarrow> int option" where
  "umod64 n d = do { q \<leftarrow> udiv64 n d; Some (to_u32 (to_u64 (n - to_u64 (d * q)))) }"

definition sdiv64 :: "int \<Rightarrow> int \<Rightarrow> int option" where
  "sdiv64 n d = do {
     let n_abs = (if n \<ge> 0 then to_u64 n else to_u64 (- to_u64 n));
     let d_abs = (if d \<ge> 0 then to_u64 d else to_u64 (- to_u64 d));
     q_abs \<leftarrow> udiv64 n_abs d_abs;
     Some (if (n < 0) = (d < 0) then to_s64 q_abs else to_s64 (- to_s64 q_abs))
   }"

definition smod64 :: "int \<Rightarrow> int \<Rightarrow> int option" where
  "smod64 n d = do { q \<leftarrow> sdiv64 n d; Some (to_s32 (to_s64 (n - to_s64 (d * q)))) }"

text \<open>The entry points the compiler calls.\<close>

definition divdi3 :: "int \<Rightarrow> int \<Rightarrow> int option" where
  "divdi3 n d = sdiv64 n d"

definition moddi3 :: "int \<Rightarrow> int \<Rightarrow> int option" where
  "moddi3 n d = smod64 n d"

definition udivdi3 :: "int \<Rightarrow> int \<Rightarrow> int option" where
  "udivdi3 n d = udiv64 n d"

definition umoddi3 :: "int \<Rightarrow> int \<Rightarrow> int option" where
  "umoddi3 n d = umod64 n d"

section \<open>Leading zeros\<close>

text \<open>One step of the binary search: \<open>x\<close> is below \<open>2 ^ (32 - k)\<close> and is shifted by \<open>k\<close>, or not.\<close>

lemma nlz_step_correct:
  assumes "nlz_step m k (n, x) = (n', x')"
    and "m = 2 ^ (32 - k) - 1" and "k \<le> 16" and "x = x0 * 2 ^ nat n" and "0 \<le> n"
    and "2 ^ (32 - 2 * k) \<le> x" and "x < 2 ^ 32"
  shows "x' = x0 * 2 ^ nat n' \<and> n \<le> n' \<and> n' \<le> n + int k \<and> 2 ^ (32 - k) \<le> x' \<and> x' < 2 ^ 32"
proof (cases "x \<le> m")
  case True
  have pw: "(2 :: int) ^ (32 - k) * 2 ^ k = 2 ^ 32" "(2 :: int) ^ (32 - 2 * k) * 2 ^ k = 2 ^ (32 - k)"
    using assms(3) by (simp_all flip: power_add)
  have lt: "x * 2 ^ k < 2 ^ 32"
    using True assms(2) mult_strict_right_mono [of x "2 ^ (32 - k)" "2 ^ k"] pw(1) by simp
  have ge: "2 ^ (32 - k) \<le> x * 2 ^ k"
    using assms(6) mult_right_mono [of "2 ^ (32 - 2 * k)" x "2 ^ k"] pw(2) by simp
  have "(0 :: int) < 2 ^ (32 - k)" by simp
  then have "to_u32 (x * 2 ^ k) = x * 2 ^ k"
    using lt ge by (intro to_u32_id) linarith
  moreover have "nat (n + int k) = nat n + k"
    using assms(5) by (simp add: nat_add_distrib)
  ultimately show ?thesis
    using True assms(1,4) lt ge by (auto simp: nlz_step_def power_add mult.assoc)
next
  case False
  then show ?thesis
    using assms by (auto simp: nlz_step_def)
qed

lemma nlz_correct:
  assumes "0 < x" and "x < 2 ^ 32"
  shows "2 ^ 31 \<le> x * 2 ^ nat (nlz x)" and "x * 2 ^ nat (nlz x) < 2 ^ 32" and "0 \<le> nlz x" and "nlz x \<le> 31"
proof -
  obtain n1 x1 where s1: "nlz_step 0x0000FFFF 16 (0, x) = (n1, x1)" by fastforce
  obtain n2 x2 where s2: "nlz_step 0x00FFFFFF 8 (n1, x1) = (n2, x2)" by fastforce
  obtain n3 x3 where s3: "nlz_step 0x0FFFFFFF 4 (n2, x2) = (n3, x3)" by fastforce
  obtain n4 x4 where s4: "nlz_step 0x3FFFFFFF 2 (n3, x3) = (n4, x4)" by fastforce
  have r1: "x1 = x * 2 ^ nat n1 \<and> 0 \<le> n1 \<and> n1 \<le> 0 + int 16 \<and> 2 ^ (32 - 16) \<le> x1 \<and> x1 < 2 ^ 32"
    by (rule nlz_step_correct [OF s1]) (use assms in simp_all)
  have r2: "x2 = x * 2 ^ nat n2 \<and> n1 \<le> n2 \<and> n2 \<le> n1 + int 8 \<and> 2 ^ (32 - 8) \<le> x2 \<and> x2 < 2 ^ 32"
    by (rule nlz_step_correct [OF s2]) (use r1 in simp_all)
  have r3: "x3 = x * 2 ^ nat n3 \<and> n2 \<le> n3 \<and> n3 \<le> n2 + int 4 \<and> 2 ^ (32 - 4) \<le> x3 \<and> x3 < 2 ^ 32"
    by (rule nlz_step_correct [OF s3]) (use r1 r2 in simp_all)
  have r4: "x4 = x * 2 ^ nat n4 \<and> n3 \<le> n4 \<and> n4 \<le> n3 + int 2 \<and> 2 ^ (32 - 2) \<le> x4 \<and> x4 < 2 ^ 32"
    by (rule nlz_step_correct [OF s4]) (use r1 r2 r3 in simp_all)
  have eq: "nlz x = (if x4 \<le> 0x7FFFFFFF then n4 + 1 else n4)"
    by (simp add: nlz_def s1 s2 s3 s4)
  have "nat (n4 + 1) = Suc (nat n4)"
    using r1 r2 r3 r4 by linarith
  then show "2 ^ 31 \<le> x * 2 ^ nat (nlz x)" "x * 2 ^ nat (nlz x) < 2 ^ 32"
    using r4 by (auto simp: eq)
  show "0 \<le> nlz x" "nlz x \<le> 31"
    using r1 r2 r3 r4 by (auto simp: eq)
qed

section \<open>Unsigned division\<close>

lemma divl_correct:
  assumes "is_u64 n" and "0 < d" and "n < d * 2 ^ 32"
  shows "divl n d = Some (n div d)"
proof -
  have "to_u32 (n div 2 ^ 32) = n div 2 ^ 32"
    using assms(1) by (intro to_u32_id) (simp add: zdiv_less_iff pos_imp_zdiv_nonneg_iff)
  then have n: "to_u32 (n div 2 ^ 32) * 2 ^ 32 + to_u32 n = n"
    unfolding to_u32_def by simp
  moreover have "n div d < 2 ^ 32"
    using assms by (simp add: zdiv_less_iff)
  ultimately show ?thesis
    using assms(2) by (simp add: divl_def)
qed

lemma udiv64_small:
  assumes "is_u64 n" and "0 < d" and "d < 2 ^ 32"
  shows "udiv64 n d = Some (n div d)"
proof -
  define n1 n0 m where "n1 = n div 2 ^ 32" and "n0 = n mod 2 ^ 32" and m: "m = 2 ^ 32 * (n1 mod d) + n0"
  have n0: "0 \<le> n0" "n0 < 2 ^ 32" and n1: "0 \<le> n1" "n1 < 2 ^ 32"
    using assms(1) unfolding n0_def n1_def
    by (simp_all add: zdiv_less_iff pos_imp_zdiv_nonneg_iff)
  have r: "0 \<le> n1 mod d" "n1 mod d \<le> d - 1"
    using assms(2) by simp_all
  have "2 ^ 32 * (n1 mod d) \<le> 2 ^ 32 * (d - 1)"
    using r(2) by simp
  then have m_lt: "m < d * 2 ^ 32" and m0: "0 \<le> m"
    using n0 r(1) unfolding m by simp_all
  then have m64: "is_u64 m"
    using assms(3) by simp
  have "2 ^ 32 * n1 = 2 ^ 32 * (n1 div d * d) + 2 ^ 32 * (n1 mod d)"
    by (metis distrib_left div_mult_mod_eq)
  moreover have "n = 2 ^ 32 * n1 + n0"
    unfolding n0_def n1_def by simp
  ultimately have "n = m + 2 ^ 32 * (n1 div d) * d"
    unfolding m by simp
  then have q: "n div d = m div d + 2 ^ 32 * (n1 div d)"
    using assms(2) by simp
  have "0 \<le> n div d" "n div d \<le> n"
    using assms by (simp_all add: pos_imp_zdiv_nonneg_iff int_div_less_self zdiv_mono2 [of n 1 d, simplified])
  then have "is_u64 (m div d + 2 ^ 32 * (n1 div d))"
    using assms(1) q by simp
  moreover have "d div 2 ^ 32 = 0"
    using assms by (simp add: div_pos_pos_trivial)
  moreover have u: "to_u32 (n div 2 ^ 32) = n1" "to_u32 n = n0" "to_u32 d = d" "to_u64 m = m"
    using n1 assms(2,3) m64 by (simp_all add: n0_def to_u32_def flip: n1_def del: power_numeral)
  ultimately show ?thesis
    unfolding udiv64_def Let_def u m [symmetric] using assms(2) divl_correct [OF m64 assms(2) m_lt] q u(4) by simp
qed

text \<open>The estimate of the quotient from the high bits of the divisor is at most one too large.\<close>

lemma quotient_estimate:
  fixes n d :: int and k :: nat
  assumes "0 \<le> n" "n < 2 ^ 64" "1 \<le> k" "k \<le> 32" "2 ^ 31 \<le> d div 2 ^ k" "d \<le> n"
  defines "q \<equiv> n div (d div 2 ^ k * 2 ^ k)"
  shows "1 \<le> q" and "(q - 1) * d \<le> n" and "n < (q + 1) * d"
proof -
  define d' where "d' = d div 2 ^ k * 2 ^ k"
  have p: "(0 :: int) < 2 ^ k" by simp
  have d': "d' \<le> d" "d < d' + 2 ^ k"
    unfolding d'_def using div_mult_mod_eq [of d "2 ^ k"] pos_mod_sign [OF p, of d] pos_mod_bound [OF p, of d]
    by linarith+
  have "2 ^ 31 * 2 ^ k \<le> d'"
    unfolding d'_def using assms(5) by (intro mult_right_mono) auto
  then have big: "2 ^ (31 + k) \<le> d'"
    by (simp add: power_add)
  have "(0 :: int) < 2 ^ (31 + k)" by simp
  then have pos: "0 < d'" using big by linarith
  have q: "q = n div d'" unfolding q_def d'_def ..
  then have qd: "q * d' \<le> n" "n < (q + 1) * d'"
    using zle_div_iff [OF pos, of q n] zdiv_less_iff [OF pos, of n "q + 1"] by simp_all
  show q1: "1 \<le> q"
    using zle_div_iff [OF pos, of 1 n] d'(1) assms(6) q by simp
  have "(q + 1) * d' \<le> (q + 1) * d"
    using d'(1) q1 by (intro mult_left_mono) auto
  then show "n < (q + 1) * d" using qd(2) by linarith
  have split: "(2 :: int) ^ 64 = 2 ^ (33 - k) * 2 ^ (31 + k)"
    using assms(3,4) by (simp flip: power_add)
  have "q * 2 ^ (31 + k) \<le> q * d'"
    using big q1 by (intro mult_left_mono) auto
  then have "q * 2 ^ (31 + k) < 2 ^ (33 - k) * 2 ^ (31 + k)"
    using qd(1) assms(2) split by linarith
  then have qlt: "q < 2 ^ (33 - k)"
    using mult_less_cancel_right_pos [of "2 ^ (31 + k)" q "2 ^ (33 - k)"] by simp
  have "q * (d - d') \<le> d"
  proof (cases "k = 1")
    case True
    then have "d - d' \<le> 1" using d' by simp
    then have "q * (d - d') \<le> q * 1" using q1 by (intro mult_left_mono) auto
    also have "\<dots> \<le> d" using qlt big d'(1) True by simp
    finally show ?thesis .
  next
    case False
    have "q * (d - d') \<le> 2 ^ (33 - k) * 2 ^ k"
      using qlt d' q1 by (intro mult_mono) auto
    also have "\<dots> = 2 ^ 33" using assms(4) by (simp flip: power_add)
    also have "\<dots> \<le> 2 ^ (31 + k)" using False assms(3) by (intro power_increasing) auto
    also have "\<dots> \<le> d" using big d'(1) by linarith
    finally show ?thesis .
  qed
  then have "q * d - d \<le> q * d'"
    by (simp add: algebra_simps)
  then show "(q - 1) * d \<le> n"
    using qd(1) by (simp add: algebra_simps)
qed

lemma udiv64_large:
  assumes "is_u64 n" and "2 ^ 32 \<le> d" and "d < 2 ^ 64"
  shows "udiv64 n d = Some (n div d)"
proof (cases "n < d")
  case True
  moreover have "d div 2 ^ 32 \<noteq> 0"
    using assms(2) zle_div_iff [of "2 ^ 32" 1 d] by simp
  ultimately show ?thesis
    using assms by (simp add: udiv64_def div_pos_pos_trivial)
next
  case False
  define d1 s k where "d1 = d div 2 ^ 32" and "s = nlz d1" and "k = nat (32 - s)"
  have d1: "0 < d1" "d1 < 2 ^ 32"
    using assms(2,3) zle_div_iff [of "2 ^ 32" 1 d] zdiv_less_iff [of "2 ^ 32" d "2 ^ 32"] unfolding d1_def by simp_all
  note nz = nlz_correct [OF d1, folded s_def]
  have k: "1 \<le> k" "k \<le> 32" "32 = k + nat s" "k = Suc (nat (31 - s))"
    using nz(3,4) unfolding k_def by linarith+
  have pw: "(2 :: int) ^ 32 = 2 ^ k * 2 ^ nat s"
    unfolding k(3) by (rule power_add)
  have "d1 * 2 ^ nat s < 2 ^ k * 2 ^ nat s"
    using nz(2) pw by simp
  then have "d1 + 1 \<le> 2 ^ k" by simp
  then have up: "(d1 + 1) * 2 ^ nat s \<le> 2 ^ 32"
    unfolding pw by (intro mult_right_mono) auto
  have d: "d1 * 2 ^ 32 \<le> d" "d \<le> (d1 + 1) * 2 ^ 32" "d < (d1 + 1) * 2 ^ 32"
    using zle_div_iff [of "2 ^ 32" d1 d] zdiv_less_iff [of "2 ^ 32" d "d1 + 1"] unfolding d1_def by simp_all
  have D: "2 ^ 31 * 2 ^ 32 \<le> d * 2 ^ nat s" "d * 2 ^ nat s < 2 ^ 32 * 2 ^ 32"
  proof -
    have "2 ^ 31 * 2 ^ 32 \<le> d1 * 2 ^ nat s * 2 ^ 32"
      using nz(1) by (intro mult_right_mono) auto
    also have "\<dots> = d1 * 2 ^ 32 * 2 ^ nat s" by simp
    also have "\<dots> \<le> d * 2 ^ nat s" using d(1) by (intro mult_right_mono) auto
    finally show "2 ^ 31 * 2 ^ 32 \<le> d * 2 ^ nat s" .
    have "d * 2 ^ nat s < (d1 + 1) * 2 ^ 32 * 2 ^ nat s"
      using d(3) by (intro mult_strict_right_mono) auto
    also have "\<dots> = (d1 + 1) * 2 ^ nat s * 2 ^ 32" by simp
    also have "\<dots> \<le> 2 ^ 32 * 2 ^ 32" using up by (intro mult_right_mono) auto
    finally show "d * 2 ^ nat s < 2 ^ 32 * 2 ^ 32" .
  qed
  define v where "v = d div 2 ^ k"
  have v: "d * 2 ^ nat s div 2 ^ 32 = v"
    unfolding v_def pw by (simp add: div_mult_mult2)
  have v_range: "2 ^ 31 \<le> v" "v < 2 ^ 32"
    using D zle_div_iff [of "2 ^ 32" "2 ^ 31" "d * 2 ^ nat s"] zdiv_less_iff [of "2 ^ 32" "d * 2 ^ nat s" "2 ^ 32"]
    unfolding v [symmetric] by simp_all
  have "n div 2 < 2 ^ 63"
    using assms(1) zdiv_less_iff [of 2 n "2 ^ 63"] by simp
  then have dv: "divl (n div 2) v = Some (n div 2 div v)"
    using assms(1) v_range by (intro divl_correct) auto
  define q where "q = n div (v * 2 ^ k)"
  have q: "n div 2 div v div 2 ^ nat (31 - s) = q"
  proof -
    have "n div 2 div v div 2 ^ nat (31 - s) = n div (2 * v * 2 ^ nat (31 - s))"
      using v_range(1) by (simp add: zdiv_zmult2_eq)
    also have "2 * v * 2 ^ nat (31 - s) = v * 2 ^ k"
      unfolding k(4) by simp
    finally show ?thesis unfolding q_def .
  qed
  note est = quotient_estimate [of n k d, folded v_def, folded q_def, OF _ _ k(1,2) v_range(1)]
  have est: "1 \<le> q" "(q - 1) * d \<le> n" "n < (q + 1) * d"
    using est assms(1) False by simp_all
  have mult: "(q - 1) * d = q * d - d"
    by (simp add: algebra_simps)
  have "(q - 1) * 1 \<le> (q - 1) * d"
    using est(1) assms(2) by (intro mult_left_mono) auto
  then have q64: "is_u64 (q - 1)" "is_u64 ((q - 1) * d)" "is_u64 (n - (q - 1) * d)"
    using est(1,2) assms(1) by (simp_all only: mult_1_right) linarith+
  have div: "n div d = (if n - (q - 1) * d < d then q - 1 else q)"
  proof (rule antisym)
    have "0 < d" using assms(2) by simp
    then show "n div d \<le> (if n - (q - 1) * d < d then q - 1 else q)"
      using zdiv_less_iff [of d n q] zdiv_less_iff [of d n "q + 1"] est(3) mult by auto
    show "(if n - (q - 1) * d < d then q - 1 else q) \<le> n div d"
      using \<open>0 < d\<close> zle_div_iff [of d "q - 1" n] zle_div_iff [of d q n] est(2) mult by auto
  qed
  have u: "to_u32 (d div 2 ^ 32) = d1" "to_u64 (d * 2 ^ nat s) = d * 2 ^ nat s" "to_u32 v = v"
    using d1 D v_range assms(2) by (simp_all add: d1_def)
  have "udiv64 n d = Some (if to_u64 (n - to_u64 (to_u64 (q - 1) * d)) < d then to_u64 (q - 1) else q)"
    unfolding udiv64_def Let_def u s_def [symmetric] v dv
    using d1(1) False q by (simp add: d1_def)
  then show ?thesis
    using q64 div by simp
qed

lemma udiv64_correct: "is_u64 n \<Longrightarrow> 0 < d \<Longrightarrow> d < 2 ^ 64 \<Longrightarrow> udiv64 n d = Some (n div d)"
  using udiv64_small udiv64_large by (cases "d < 2 ^ 32") auto

lemma udiv64_zero: "udiv64 n 0 = None"
  by (simp add: udiv64_def)

lemma umod64_correct:
  assumes "is_u64 n" and "0 < d" and "d < 2 ^ 64"
  shows "umod64 n d = Some (to_u32 (n mod d))"
proof -
  have "d * (n div d) + n mod d = n" "0 \<le> n mod d" "0 \<le> d * (n div d)"
    using assms by (simp_all add: pos_imp_zdiv_nonneg_iff)
  then have "is_u64 (d * (n div d))" "n - d * (n div d) = n mod d" "is_u64 (n mod d)"
    using assms(1) by linarith+
  then show ?thesis
    using udiv64_correct [OF assms] by (simp add: umod64_def)
qed

section \<open>Signed division\<close>

lemma to_s64_minus: "to_s64 (- to_s64 x) = to_s64 (- x)"
  by (rule to_s64_cong) (metis mod_minus_eq to_s64_mod)

lemma abs_u64:
  assumes "is_s64 n"
  shows "(if n \<ge> 0 then to_u64 n else to_u64 (- to_u64 n)) = \<bar>n\<bar>" and "is_u64 \<bar>n\<bar>"
proof -
  have "to_u64 (- to_u64 n) = - n" if "n < 0"
  proof -
    have "to_u64 n = n + 2 ^ 64"
      using assms that by (intro to_u64_neg) auto
    then have "- to_u64 n < 0" "- to_u64 n = - n - 2 ^ 64" "- (2 ^ 64) \<le> - to_u64 n"
      using assms that by auto
    then show ?thesis
      using to_u64_neg [of "- to_u64 n"] by simp
  qed
  then show "(if n \<ge> 0 then to_u64 n else to_u64 (- to_u64 n)) = \<bar>n\<bar>" "is_u64 \<bar>n\<bar>"
    using assms by auto
qed

lemma sdiv64_correct:
  assumes "is_s64 n" and "is_s64 d" and "d \<noteq> 0"
  shows "sdiv64 n d = Some (to_s64 (n sdiv d))"
proof -
  have q: "udiv64 \<bar>n\<bar> \<bar>d\<bar> = Some (\<bar>n\<bar> div \<bar>d\<bar>)"
    using abs_u64(2) [OF assms(1)] abs_u64(2) [OF assms(2)] assms(3) by (intro udiv64_correct) auto
  have "n sdiv d = (if (n < 0) = (d < 0) then \<bar>n\<bar> div \<bar>d\<bar> else - (\<bar>n\<bar> div \<bar>d\<bar>))"
    using assms(3) by (auto simp: signed_divide_int_def sgn_if)
  then show ?thesis
    unfolding sdiv64_def abs_u64(1) [OF assms(1)] abs_u64(1) [OF assms(2)] using q
    by (simp add: to_s64_minus)
qed

lemma sdiv_in_range:
  assumes "is_s64 n" and "is_s64 d" and "d \<noteq> 0" and "\<not> (n = - (2 ^ 63) \<and> d = - 1)"
  shows "is_s64 (n sdiv d)"
proof -
  define q where "q = \<bar>n\<bar> div \<bar>d\<bar>"
  have le: "q \<le> \<bar>n\<bar>" and nn: "0 \<le> q"
    unfolding q_def using zdiv_mono2 [of "\<bar>n\<bar>" 1 "\<bar>d\<bar>"] assms(3)
    by (simp_all add: pos_imp_zdiv_nonneg_iff)
  have an: "\<bar>n\<bar> \<le> 2 ^ 63"
    using assms(1) by (simp add: abs_le_iff)
  have lt: "q < 2 ^ 63" if "(n < 0) = (d < 0)"
  proof (cases "n = - (2 ^ 63)")
    case True
    then have "2 \<le> \<bar>d\<bar>"
      using that assms(3,4) by auto
    then have "q \<le> \<bar>n\<bar> div 2"
      unfolding q_def by (intro zdiv_mono2) auto
    then show ?thesis
      using True by simp
  next
    case False
    then have "\<bar>n\<bar> < 2 ^ 63"
      using assms(1) unfolding abs_less_iff by simp
    then show ?thesis
      using le by (rule order.strict_trans1 [rotated])
  qed
  have "n sdiv d = (if (n < 0) = (d < 0) then q else - q)"
    unfolding q_def using assms(3) by (auto simp: signed_divide_int_def sgn_if)
  then show ?thesis
    using le nn lt an by (cases "(n < 0) = (d < 0)") simp_all
qed

lemma sdiv64_exact:
  assumes "is_s64 n" and "is_s64 d" and "d \<noteq> 0" and "\<not> (n = - (2 ^ 63) \<and> d = - 1)"
  shows "sdiv64 n d = Some (n sdiv d)"
  using sdiv64_correct [OF assms(1-3)] to_s64_id [OF sdiv_in_range [OF assms]] by simp

lemma smod64_correct:
  assumes "is_s64 n" and "is_s64 d" and "d \<noteq> 0"
  shows "smod64 n d = Some (to_s32 (to_s64 (n smod d)))"
proof -
  have "(n - to_s64 (d * to_s64 (n sdiv d))) mod 2 ^ 64 = (n - d * (n sdiv d)) mod 2 ^ 64"
    by (metis mod_diff_right_eq mod_mult_right_eq to_s64_mod)
  moreover have "n - d * (n sdiv d) = n smod d"
    by (rule minus_mult_sdiv_eq_smod)
  ultimately have "to_s64 (n - to_s64 (d * to_s64 (n sdiv d))) = to_s64 (n smod d)"
    by (intro to_s64_cong) simp
  then show ?thesis
    using sdiv64_correct [OF assms] by (simp add: smod64_def)
qed

section \<open>Properties\<close>

text \<open>
  C4: the 64-bit unsigned division built from the 32-bit \<open>divl\<close> instruction never traps on a nonzero
  divisor and returns the exact quotient, for every dividend and divisor of 64 bits; a zero divisor
  traps.
\<close>

theorem udivdi3_exact:
  assumes "is_u64 n" and "is_u64 d"
  shows "udivdi3 n d = (if d = 0 then None else Some (n div d))"
  using assms udiv64_correct [of n d] by (auto simp: udivdi3_def udiv64_zero)

theorem udivdi3_exact_witness:
  "udivdi3 18446744073709551615 4294967297 = Some 4294967295"
  using udivdi3_exact [of 18446744073709551615 4294967297] by simp

text \<open>
  C5: signed 64-bit division truncates toward zero and never traps on a nonzero divisor; the only
  quotient that does not fit, the smallest value divided by minus one, wraps to itself.
\<close>

theorem divdi3_truncates:
  assumes "is_s64 n" and "is_s64 d" and "d \<noteq> 0"
  shows "divdi3 n d = Some (if n = - (2 ^ 63) \<and> d = - 1 then n else n sdiv d)"
proof (cases "n = - (2 ^ 63) \<and> d = - 1")
  case True
  then show ?thesis
    using sdiv64_correct [OF assms] by (simp add: divdi3_def signed_divide_int_def to_s64_def)
next
  case False
  then show ?thesis
    using sdiv64_exact [OF assms] by (simp add: divdi3_def)
qed

theorem divdi3_truncates_witness: "divdi3 (- 7) 2 = Some (- 3)"
  using divdi3_truncates [of "- 7" 2] by (simp add: signed_divide_int_def)

text \<open>
  The remainder routines return a 32-bit value, so that the remainder of a division by more than
  \<open>2 ^ 32\<close> loses its high half: the remainder of \<open>2 ^ 33\<close> divided by \<open>2 ^ 40\<close> comes out as 0.
\<close>

lemma umoddi3_value: "is_u64 n \<Longrightarrow> 0 < d \<Longrightarrow> d < 2 ^ 64 \<Longrightarrow> umoddi3 n d = Some ((n mod d) mod 2 ^ 32)"
  by (simp add: umoddi3_def umod64_correct to_u32_def)

lemma umoddi3_truncated: "umoddi3 (2 ^ 33) (2 ^ 40) = Some 0" "(2 ^ 33 :: int) mod 2 ^ 40 = 2 ^ 33"
  using umoddi3_value [of "2 ^ 33" "2 ^ 40"] by simp_all

end
