(* ===== verification/Fixed_Point.thy ===== *)
theory Fixed_Point
  imports Arith64
begin

text \<open>
  The 17.14 fixed-point numbers of \<open>src/src/lib/kernel/fixed.h\<close> that the multi-level feedback
  queue scheduler computes with.  A value of type \<open>fp32_t\<close> is an integer in the range of a 32-bit
  signed integer and stands for that integer divided by \<open>2 ^ 14\<close>.
\<close>

section \<open>Operations\<close>

definition FPT_Q :: nat where
  "FPT_Q = 14"

definition FPT_F :: int where
  "FPT_F = 2 ^ FPT_Q"

definition INT_TO_FP :: "int \<Rightarrow> int" where
  "INT_TO_FP x = to_s32 (x * FPT_F)"

definition FP_TO_INT :: "int \<Rightarrow> int" where
  "FP_TO_INT x = x sdiv FPT_F"

definition FP_TO_INT_ROUND :: "int \<Rightarrow> int" where
  "FP_TO_INT_ROUND x = to_s32 (x + (if x \<ge> 0 then FPT_F div 2 else - FPT_F sdiv 2)) sdiv FPT_F"

definition FP_ADD :: "int \<Rightarrow> int \<Rightarrow> int" where
  "FP_ADD x y = to_s32 (x + y)"

definition FP_ADD_INT :: "int \<Rightarrow> int \<Rightarrow> int" where
  "FP_ADD_INT x n = to_s32 (x + to_s32 (n * FPT_F))"

definition FP_SUB :: "int \<Rightarrow> int \<Rightarrow> int" where
  "FP_SUB x y = to_s32 (x - y)"

definition FP_SUB_INT :: "int \<Rightarrow> int \<Rightarrow> int" where
  "FP_SUB_INT x n = to_s32 (x - to_s32 (n * FPT_F))"

text \<open>Products and quotients go through a 64-bit value; the divisions are the ones of \<^theory_text>\<open>Arith64\<close>.\<close>

definition FP_MUL :: "int \<Rightarrow> int \<Rightarrow> int option" where
  "FP_MUL x y = do { q \<leftarrow> divdi3 (to_s64 (x * y)) FPT_F; Some (to_s32 q) }"

definition FP_MUL_INT :: "int \<Rightarrow> int \<Rightarrow> int" where
  "FP_MUL_INT x n = to_s32 (x * n)"

definition FP_DIV :: "int \<Rightarrow> int \<Rightarrow> int option" where
  "FP_DIV x y = do { q \<leftarrow> divdi3 (to_s64 (x * FPT_F)) y; Some (to_s32 q) }"

definition FP_DIV_INT :: "int \<Rightarrow> int \<Rightarrow> int option" where
  "FP_DIV_INT x n = (if n = 0 then None else Some (to_s32 (x sdiv n)))"

section \<open>Exactness and rounding\<close>

lemma FPT_F_val [simp]: "FPT_F = 16384"
  by (simp add: FPT_F_def FPT_Q_def)

lemma sdiv_pos: "0 < (d :: int) \<Longrightarrow> x sdiv d = (if x \<ge> 0 then x div d else - ((- x) div d))"
  by (auto simp: signed_divide_int_def sgn_if)

text \<open>Truncating division is off by less than the divisor.\<close>

lemma sdiv_bounds:
  assumes "0 < (d :: int)"
  shows "\<bar>x - (x sdiv d) * d\<bar> < d"
proof (cases "x \<ge> 0")
  case True
  have "x - x div d * d = x mod d"
    by (rule minus_div_mult_eq_mod)
  then show ?thesis
    using True assms pos_mod_bound [OF assms, of x] pos_mod_sign [OF assms, of x] by (simp add: sdiv_pos)
next
  case False
  have "- x - (- x) div d * d = (- x) mod d"
    by (rule minus_div_mult_eq_mod)
  then show ?thesis
    using False assms pos_mod_bound [OF assms, of "- x"] pos_mod_sign [OF assms, of "- x"] by (simp add: sdiv_pos)
qed

lemma is_s32_mult:
  assumes "is_s32 x" and "is_s32 y"
  shows "is_s64 (x * y)"
proof -
  have "\<bar>x * y\<bar> \<le> 2 ^ 31 * 2 ^ 31"
    unfolding abs_mult using assms by (intro mult_mono) (auto simp: abs_le_iff)
  then show ?thesis
    unfolding abs_le_iff by simp
qed

lemma FP_MUL_value:
  assumes "is_s32 x" and "is_s32 y"
  shows "FP_MUL x y = Some (to_s32 (x * y sdiv FPT_F))"
  using is_s32_mult [OF assms] sdiv64_exact [of "x * y" FPT_F] by (simp add: FP_MUL_def divdi3_def)

lemma FP_DIV_value:
  assumes "is_s32 x" and "is_s32 y" and "y \<noteq> 0"
  shows "FP_DIV x y = Some (to_s32 (x * FPT_F sdiv y))"
  using is_s32_mult [OF assms(1), of FPT_F] assms(1,2) sdiv64_exact [of "x * FPT_F" y] assms(3)
  by (simp add: FP_DIV_def divdi3_def)

lemma FP_DIV_zero: "FP_DIV x 0 = None"
  using udiv64_zero by (simp add: FP_DIV_def divdi3_def sdiv64_def)

lemma sdiv_bounds_abs:
  assumes "(d :: int) \<noteq> 0"
  shows "\<bar>x - (x sdiv d) * d\<bar> < \<bar>d\<bar>"
proof (cases "0 < d")
  case True
  then show ?thesis using sdiv_bounds [OF True, of x] by simp
next
  case False
  then have "0 < - d" using assms by simp
  moreover have "(x sdiv - d) * - d = (x sdiv d) * d"
    by (simp add: signed_divide_int_def)
  ultimately show ?thesis
    using sdiv_bounds [of "- d" x] by simp
qed

section \<open>Properties\<close>

lemma round_half:
  assumes "0 \<le> (y :: int)"
  shows "2 * \<bar>(y + 8192) div 16384 * 16384 - y\<bar> \<le> 16384"
proof -
  define q r where "q = (y + 8192) div 16384" and "r = (y + 8192) mod 16384"
  have r: "q * 16384 + r = y + 8192" "0 \<le> r" "r < 16384"
    unfolding q_def r_def by simp_all
  then have "\<bar>8192 - r\<bar> \<le> 8192"
    unfolding abs_le_iff by simp
  moreover have "q * 16384 - y = 8192 - r"
    using r(1) by simp
  ultimately show ?thesis
    unfolding q_def [symmetric] by simp
qed

lemma FP_TO_INT_ROUND_value:
  assumes "is_s32 (x + 8192)" and "is_s32 (x - 8192)"
  shows "FP_TO_INT_ROUND x = (if x \<ge> 0 then (x + 8192) div 16384 else - ((8192 - x) div 16384))"
  using assms by (auto simp: FP_TO_INT_ROUND_def sdiv_pos signed_divide_int_def)

lemma to_s32_over:
  assumes "2 ^ 31 \<le> y" "y < 2 ^ 31 + 2 ^ 32"
  shows "to_s32 y = y - 2 ^ 32"
proof -
  have "to_s32 y = to_s32 (y - 2 ^ 32)" by (rule to_s32_cong) (simp only: minus_mod_self2)
  then show ?thesis using assms by simp
qed

lemma to_s32_under:
  assumes "- (2 ^ 31) - 2 ^ 32 \<le> y" "y < - (2 ^ 31)"
  shows "to_s32 y = y + 2 ^ 32"
proof -
  have "to_s32 y = to_s32 (y + 2 ^ 32)" by (rule to_s32_cong) (simp only: mod_add_self2)
  then show ?thesis using assms by simp
qed

text \<open>
  C6: every integer that the format can represent, from \<open>- 2 ^ 17\<close> to \<open>2 ^ 17 - 1\<close>, survives the
  conversion to fixed point and back with truncation, and all but the least one also with rounding;
  rounding the least one overflows and gives the greatest.
\<close>

theorem fp_int_roundtrip:
  assumes "- (2 ^ 17) \<le> n" and "n < 2 ^ 17"
  shows "FP_TO_INT (INT_TO_FP n) = n \<and>
    FP_TO_INT_ROUND (INT_TO_FP n) = (if n = - (2 ^ 17) then 2 ^ 17 - 1 else n)"
proof
  have fp: "INT_TO_FP n = n * 16384"
    using assms by (simp add: INT_TO_FP_def)
  show "FP_TO_INT (INT_TO_FP n) = n"
    using nonzero_mult_div_cancel_right [of 16384 "- n"] by (simp add: fp FP_TO_INT_def sdiv_pos)
  have eq: "(m * 16384 + 8192) div 16384 = m" for m :: int
    by (simp add: add.commute)
  show "FP_TO_INT_ROUND (INT_TO_FP n) = (if n = - (2 ^ 17) then 2 ^ 17 - 1 else n)"
  proof (cases "n = - (2 ^ 17)")
    case True
    then have "INT_TO_FP n = - (2 ^ 31)" using fp by simp
    moreover have "to_s32 (- (2 ^ 31) - 8192) = 2 ^ 31 - 8192" by (subst to_s32_under) simp_all
    ultimately show ?thesis using True by (simp add: FP_TO_INT_ROUND_def sdiv_pos)
  next
    case False
    then show ?thesis
      using assms FP_TO_INT_ROUND_value [of "n * 16384"] eq [of n] eq [of "- n"] unfolding fp
      by (simp split: if_splits)
  qed
qed

theorem fp_int_roundtrip_witness: "FP_TO_INT (INT_TO_FP (- 59)) = - 59 \<and> FP_TO_INT_ROUND (INT_TO_FP (- 59)) = - 59"
  using fp_int_roundtrip [of "- 59"] by simp

text \<open>
  C7: rounding returns the nearest integer, off by at most one half, exactly for the numbers that lie
  at least one half inside the ends of the 32-bit range; nearer to an end the sum that the macro
  forms overflows and the result is wrong.
\<close>

theorem fp_round_nearest:
  assumes "is_s32 x"
  shows "2 * \<bar>FP_TO_INT_ROUND x * FPT_F - x\<bar> \<le> FPT_F \<longleftrightarrow> - (2 ^ 31) + FPT_F div 2 \<le> x \<and> x < 2 ^ 31 - FPT_F div 2"
proof -
  consider "- (2 ^ 31) + 8192 \<le> x \<and> x < 2 ^ 31 - 8192" | "2 ^ 31 - 8192 \<le> x" | "x < - (2 ^ 31) + 8192" by linarith
  then show ?thesis
  proof cases
    case 1
    then have "2 * \<bar>FP_TO_INT_ROUND x * FPT_F - x\<bar> \<le> FPT_F"
      using FP_TO_INT_ROUND_value [of x] round_half [of x] round_half [of "- x"]
      by (cases "x \<ge> 0") (simp_all add: abs_minus_commute)
    then show ?thesis using 1 by simp
  next
    case 2
    then have w: "to_s32 (x + 8192) = x + 8192 - 2 ^ 32"
      using assms by (intro to_s32_over) simp_all
    then have "FP_TO_INT_ROUND x = (x + 8192 - 2 ^ 32) sdiv 16384" using 2 by (simp add: FP_TO_INT_ROUND_def)
    then show ?thesis using 2 sdiv_bounds [of 16384 "x + 8192 - 2 ^ 32"] by (simp add: abs_if split: if_splits)
  next
    case 3
    then have w: "to_s32 (x - 8192) = x - 8192 + 2 ^ 32"
      using assms by (intro to_s32_under) simp_all
    have "- FPT_F sdiv 2 = - 8192" by (simp add: sdiv_pos)
    then have "FP_TO_INT_ROUND x = (x - 8192 + 2 ^ 32) sdiv 16384" using 3 w by (simp add: FP_TO_INT_ROUND_def)
    then show ?thesis using 3 sdiv_bounds [of 16384 "x - 8192 + 2 ^ 32"] by (simp add: abs_if split: if_splits)
  qed
qed

theorem fp_round_nearest_witness: "FP_TO_INT_ROUND 40000 = 2 \<and> 2 * \<bar>FP_TO_INT_ROUND 40000 * FPT_F - 40000\<bar> \<le> FPT_F"
  using fp_round_nearest [of 40000] by (simp add: FP_TO_INT_ROUND_value)

text \<open>
  C8: multiplication and division of fixed-point numbers whose result the format can represent are
  accurate to one unit in the last place, and division by zero traps.
\<close>

theorem fp_mul_div_accurate:
  assumes "is_s32 x" and "is_s32 y"
  shows "(is_s32 (x * y sdiv FPT_F) \<longrightarrow> (\<exists>r. FP_MUL x y = Some r \<and> \<bar>x * y - r * FPT_F\<bar> < FPT_F)) \<and>
         (y \<noteq> 0 \<longrightarrow> is_s32 (x * FPT_F sdiv y) \<longrightarrow> (\<exists>r. FP_DIV x y = Some r \<and> \<bar>x * FPT_F - r * y\<bar> < \<bar>y\<bar>)) \<and>
         FP_DIV x 0 = None"
  using FP_MUL_value [OF assms] FP_DIV_value [OF assms] sdiv_bounds [of FPT_F "x * y"]
    sdiv_bounds_abs [of y "x * FPT_F"] FP_DIV_zero [of x] by simp

theorem fp_mul_div_accurate_witness:
  "(\<exists>r. FP_MUL 966656 32768 = Some r \<and> \<bar>966656 * 32768 - r * FPT_F\<bar> < FPT_F) \<and>
   (\<exists>r. FP_DIV 966656 983040 = Some r \<and> \<bar>966656 * FPT_F - r * 983040\<bar> < \<bar>983040\<bar>)"
proof
  have "is_s32 (966656 * 32768 sdiv FPT_F)" "is_s32 (966656 * FPT_F sdiv 983040)"
    by (simp_all add: sdiv_pos)
  moreover have "is_s32 966656" "is_s32 32768" "is_s32 983040" "983040 \<noteq> (0 :: int)"
    by simp_all
  ultimately show "\<exists>r. FP_MUL 966656 32768 = Some r \<and> \<bar>966656 * 32768 - r * FPT_F\<bar> < FPT_F"
    "\<exists>r. FP_DIV 966656 983040 = Some r \<and> \<bar>966656 * FPT_F - r * 983040\<bar> < \<bar>983040\<bar>"
    using fp_mul_div_accurate [of 966656 32768] fp_mul_div_accurate [of 966656 983040] by blast+
qed

end
