(* ===== verification/Cstring.thy ===== *)
theory Cstring
  imports Pintos_Prelude
begin

text \<open>
  The memory and string routines of \<open>src/src/lib/string.c\<close> over a byte-addressed memory.  Blocks
  that overlap are therefore modelled as the code treats them.  \<open>bytes m p n\<close> is the block of \<open>n\<close>
  bytes at \<open>p\<close>, and \<open>cstr m p s\<close> says that a null-terminated string \<open>s\<close> is stored at \<open>p\<close>.
\<close>

type_synonym mem = "addr \<Rightarrow> u8"

section \<open>Blocks\<close>

primrec copy_up :: "mem \<Rightarrow> addr \<Rightarrow> addr \<Rightarrow> nat \<Rightarrow> mem" where
  "copy_up m dst src 0 = m"
| "copy_up m dst src (Suc sz) = copy_up (m(dst := m src)) (dst + 1) (src + 1) sz"

primrec copy_down :: "mem \<Rightarrow> addr \<Rightarrow> addr \<Rightarrow> nat \<Rightarrow> mem" where
  "copy_down m dst src 0 = m"
| "copy_down m dst src (Suc sz) = copy_down (m(dst - 1 := m (src - 1))) (dst - 1) (src - 1) sz"

definition memcpy :: "mem \<Rightarrow> addr \<Rightarrow> addr \<Rightarrow> nat \<Rightarrow> (addr \<times> mem) option" where
  "memcpy m dst src sz = do {
     ASSERT (dst \<noteq> NULL \<or> sz = 0);
     ASSERT (src \<noteq> NULL \<or> sz = 0);
     Some (dst, copy_up m dst src sz)
   }"

definition memmove :: "mem \<Rightarrow> addr \<Rightarrow> addr \<Rightarrow> nat \<Rightarrow> (addr \<times> mem) option" where
  "memmove m dst src sz = do {
     ASSERT (dst \<noteq> NULL \<or> sz = 0);
     ASSERT (src \<noteq> NULL \<or> sz = 0);
     if dst < src then Some (dst + sz, copy_up m dst src sz)
     else Some (dst, copy_down m (dst + sz) (src + sz) sz)
   }"

primrec memcmp_loop :: "mem \<Rightarrow> addr \<Rightarrow> addr \<Rightarrow> nat \<Rightarrow> int" where
  "memcmp_loop m a b 0 = 0"
| "memcmp_loop m a b (Suc sz) =
     (if m a \<noteq> m b then if m a > m b then 1 else - 1 else memcmp_loop m (a + 1) (b + 1) sz)"

definition memcmp :: "mem \<Rightarrow> addr \<Rightarrow> addr \<Rightarrow> nat \<Rightarrow> int option" where
  "memcmp m a b sz = do {
     ASSERT (a \<noteq> NULL \<or> sz = 0);
     ASSERT (b \<noteq> NULL \<or> sz = 0);
     Some (memcmp_loop m a b sz)
   }"

primrec memchr_loop :: "mem \<Rightarrow> addr \<Rightarrow> u8 \<Rightarrow> nat \<Rightarrow> addr" where
  "memchr_loop m block ch 0 = NULL"
| "memchr_loop m block ch (Suc sz) = (if m block = ch then block else memchr_loop m (block + 1) ch sz)"

definition memchr :: "mem \<Rightarrow> addr \<Rightarrow> u8 \<Rightarrow> nat \<Rightarrow> addr option" where
  "memchr m block ch sz = do {
     ASSERT (block \<noteq> NULL \<or> sz = 0);
     Some (memchr_loop m block ch sz)
   }"

primrec memset_loop :: "mem \<Rightarrow> addr \<Rightarrow> u8 \<Rightarrow> nat \<Rightarrow> mem" where
  "memset_loop m dst v 0 = m"
| "memset_loop m dst v (Suc sz) = memset_loop (m(dst := v)) (dst + 1) v sz"

definition memset :: "mem \<Rightarrow> addr \<Rightarrow> u8 \<Rightarrow> nat \<Rightarrow> (addr \<times> mem) option" where
  "memset m dst v sz = do {
     ASSERT (dst \<noteq> NULL \<or> sz = 0);
     Some (dst, memset_loop m dst v sz)
   }"

section \<open>Strings\<close>

partial_function (option) strcmp_loop :: "mem \<Rightarrow> addr \<Rightarrow> addr \<Rightarrow> int option" where
  "strcmp_loop m a b =
     (if m a \<noteq> 0 \<and> m a = m b then strcmp_loop m (a + 1) (b + 1)
      else Some (if m a < m b then - 1 else if m a > m b then 1 else 0))"

definition strcmp :: "mem \<Rightarrow> addr \<Rightarrow> addr \<Rightarrow> int option" where
  "strcmp m a b = do { ASSERT (a \<noteq> NULL); ASSERT (b \<noteq> NULL); strcmp_loop m a b }"

partial_function (option) strchr_loop :: "mem \<Rightarrow> addr \<Rightarrow> u8 \<Rightarrow> addr option" where
  "strchr_loop m p c =
     (if m p = c then Some p
      else if m p = 0 then Some NULL
      else strchr_loop m (p + 1) c)"

definition strchr :: "mem \<Rightarrow> addr \<Rightarrow> u8 \<Rightarrow> addr option" where
  "strchr m p c = do { ASSERT (p \<noteq> NULL); strchr_loop m p c }"

partial_function (option) strcspn_loop :: "mem \<Rightarrow> addr \<Rightarrow> addr \<Rightarrow> nat \<Rightarrow> nat option" where
  "strcspn_loop m p stop len =
     (if m (p + len) \<noteq> 0 then do {
        q \<leftarrow> strchr m stop (m (p + len));
        if q \<noteq> NULL then Some len else strcspn_loop m p stop (len + 1)
      }
      else Some len)"

definition strcspn :: "mem \<Rightarrow> addr \<Rightarrow> addr \<Rightarrow> nat option" where
  "strcspn m p stop = strcspn_loop m p stop 0"

partial_function (option) strpbrk :: "mem \<Rightarrow> addr \<Rightarrow> addr \<Rightarrow> addr option" where
  "strpbrk m p stop =
     (if m p \<noteq> 0 then do {
        q \<leftarrow> strchr m stop (m p);
        if q \<noteq> NULL then Some p else strpbrk m (p + 1) stop
      }
      else Some NULL)"

partial_function (option) strrchr_loop :: "mem \<Rightarrow> addr \<Rightarrow> u8 \<Rightarrow> addr \<Rightarrow> addr option" where
  "strrchr_loop m string c p =
     (if m string \<noteq> 0 then strrchr_loop m (string + 1) c (if m string = c then string else p)
      else Some p)"

definition strrchr :: "mem \<Rightarrow> addr \<Rightarrow> u8 \<Rightarrow> addr option" where
  "strrchr m string c = strrchr_loop m string c NULL"

partial_function (option) strspn_loop :: "mem \<Rightarrow> addr \<Rightarrow> addr \<Rightarrow> nat \<Rightarrow> nat option" where
  "strspn_loop m p skip len =
     (if m (p + len) \<noteq> 0 then do {
        q \<leftarrow> strchr m skip (m (p + len));
        if q = NULL then Some len else strspn_loop m p skip (len + 1)
      }
      else Some len)"

definition strspn :: "mem \<Rightarrow> addr \<Rightarrow> addr \<Rightarrow> nat option" where
  "strspn m p skip = strspn_loop m p skip 0"

partial_function (option) strlen_loop :: "mem \<Rightarrow> addr \<Rightarrow> addr option" where
  "strlen_loop m p = (if m p \<noteq> 0 then strlen_loop m (p + 1) else Some p)"

definition strlen :: "mem \<Rightarrow> addr \<Rightarrow> nat option" where
  "strlen m string = do { ASSERT (string \<noteq> NULL); p \<leftarrow> strlen_loop m string; Some (p - string) }"

partial_function (option) strnlen_loop :: "mem \<Rightarrow> addr \<Rightarrow> nat \<Rightarrow> nat \<Rightarrow> nat option" where
  "strnlen_loop m string maxlen len =
     (if m (string + len) \<noteq> 0 \<and> len < maxlen then strnlen_loop m string maxlen (len + 1) else Some len)"

definition strnlen :: "mem \<Rightarrow> addr \<Rightarrow> nat \<Rightarrow> nat option" where
  "strnlen m string maxlen = strnlen_loop m string maxlen 0"

text \<open>The search loop of \<open>strstr\<close>, with the number of positions left.\<close>

primrec strstr_loop :: "mem \<Rightarrow> addr \<Rightarrow> addr \<Rightarrow> nat \<Rightarrow> nat \<Rightarrow> nat \<Rightarrow> addr option" where
  "strstr_loop m haystack needle needle_len i 0 = Some NULL"
| "strstr_loop m haystack needle needle_len i (Suc n) = do {
     c \<leftarrow> memcmp m (haystack + i) needle needle_len;
     if c = 0 then Some (haystack + i) else strstr_loop m haystack needle needle_len (i + 1) n
   }"

definition strstr :: "mem \<Rightarrow> addr \<Rightarrow> addr \<Rightarrow> addr option" where
  "strstr m haystack needle = do {
     haystack_len \<leftarrow> strlen m haystack;
     needle_len \<leftarrow> strlen m needle;
     if haystack_len \<ge> needle_len
     then strstr_loop m haystack needle needle_len 0 (haystack_len - needle_len + 1)
     else Some NULL
   }"

partial_function (option) skip_delimiters :: "mem \<Rightarrow> addr \<Rightarrow> addr \<Rightarrow> (addr \<times> bool) option" where
  "skip_delimiters m delimiters s = do {
     q \<leftarrow> strchr m delimiters (m s);
     if q \<noteq> NULL then
       if m s = 0 then Some (s, True) else skip_delimiters m delimiters (s + 1)
     else Some (s, False)
   }"

partial_function (option) skip_token :: "mem \<Rightarrow> addr \<Rightarrow> addr \<Rightarrow> addr option" where
  "skip_token m delimiters s = do {
     q \<leftarrow> strchr m delimiters (m s);
     if q = NULL then skip_token m delimiters (s + 1) else Some s
   }"

text \<open>
  \<open>strtok_r\<close> returns the token, the new value of \<open>*save_ptr\<close> and the memory.
\<close>

definition strtok_r :: "mem \<Rightarrow> addr \<Rightarrow> addr \<Rightarrow> addr \<Rightarrow> (addr \<times> addr \<times> mem) option" where
  "strtok_r m s delimiters save_ptr = do {
     ASSERT (delimiters \<noteq> NULL);
     let s = (if s = NULL then save_ptr else s);
     ASSERT (s \<noteq> NULL);
     (s, at_end) \<leftarrow> skip_delimiters m delimiters s;
     if at_end then Some (NULL, s, m)
     else do {
       let token = s;
       s \<leftarrow> skip_token m delimiters s;
       if m s \<noteq> 0 then Some (token, s + 1, m(s := 0))
       else Some (token, s, m)
     }
   }"

definition strlcpy :: "mem \<Rightarrow> addr \<Rightarrow> addr \<Rightarrow> nat \<Rightarrow> (nat \<times> mem) option" where
  "strlcpy m dst src sz = do {
     ASSERT (dst \<noteq> NULL);
     ASSERT (src \<noteq> NULL);
     src_len \<leftarrow> strlen m src;
     if sz > 0 then do {
       let dst_len = sz - 1;
       let dst_len = (if src_len < dst_len then src_len else dst_len);
       (_, m) \<leftarrow> memcpy m dst src dst_len;
       Some (src_len, m(dst + dst_len := 0))
     }
     else Some (src_len, m)
   }"

definition strlcat :: "mem \<Rightarrow> addr \<Rightarrow> addr \<Rightarrow> nat \<Rightarrow> (nat \<times> mem) option" where
  "strlcat m dst src sz = do {
     ASSERT (dst \<noteq> NULL);
     ASSERT (src \<noteq> NULL);
     src_len \<leftarrow> strlen m src;
     dst_len \<leftarrow> strlen m dst;
     m \<leftarrow> (if sz > 0 \<and> dst_len < sz then do {
             let copy_cnt = sz - dst_len - 1;
             let copy_cnt = (if src_len < copy_cnt then src_len else copy_cnt);
             (_, m) \<leftarrow> memcpy m (dst + dst_len) src copy_cnt;
             Some (m(dst + dst_len + copy_cnt := 0))
           }
           else Some m);
     Some (src_len + dst_len, m)
   }"

section \<open>Blocks and strings in memory\<close>

definition bytes :: "mem \<Rightarrow> addr \<Rightarrow> nat \<Rightarrow> u8 list" where
  "bytes m p n = map m [p..<p + n]"

definition cstr :: "mem \<Rightarrow> addr \<Rightarrow> u8 list \<Rightarrow> bool" where
  "cstr m p s \<longleftrightarrow> p \<noteq> NULL \<and> 0 \<notin> set s \<and> bytes m p (length s) = s \<and> m (p + length s) = 0"

lemma length_bytes [simp]: "length (bytes m p n) = n"
  by (simp add: bytes_def)

lemma nth_bytes [simp]: "i < n \<Longrightarrow> bytes m p n ! i = m (p + i)"
  by (simp add: bytes_def)

lemma bytes_0 [simp]: "bytes m p 0 = []"
  by (simp add: bytes_def)

lemma bytes_Suc: "bytes m p (Suc n) = m p # bytes m (p + 1) n"
  by (simp add: bytes_def upt_conv_Cons del: upt_Suc)

lemma bytes_cong: "(\<And>a. p \<le> a \<Longrightarrow> a < p + n \<Longrightarrow> m a = m' a) \<Longrightarrow> bytes m p n = bytes m' p n"
  by (simp add: bytes_def)

lemma cstr_Nil [simp]: "cstr m p [] \<longleftrightarrow> p \<noteq> NULL \<and> m p = 0"
  by (simp add: cstr_def)

lemma cstr_Cons [simp]: "cstr m p (c # s) \<longleftrightarrow> p \<noteq> NULL \<and> c \<noteq> 0 \<and> m p = c \<and> cstr m (p + 1) s"
  by (auto simp: cstr_def bytes_Suc)

section \<open>Correctness\<close>

lemma copy_up_correct:
  "dst \<le> src \<or> src + n \<le> dst \<Longrightarrow>
   copy_up m dst src n a = (if dst \<le> a \<and> a < dst + n then m (src + (a - dst)) else m a)"
proof (induction n arbitrary: m dst src)
  case (Suc n)
  define m' where "m' = m(dst := m src)"
  have "dst + 1 \<le> src + 1 \<or> src + 1 + n \<le> dst + 1"
    using Suc.prems by auto
  note IH = Suc.IH [OF this, of m']
  show ?case
    unfolding copy_up.simps m'_def [symmetric] IH using Suc.prems by (cases "a = dst") (auto simp: m'_def Suc_diff_Suc)
qed auto

lemma copy_down_correct:
  "src \<le> dst \<Longrightarrow>
   copy_down m (dst + n) (src + n) n a = (if dst \<le> a \<and> a < dst + n then m (src + (a - dst)) else m a)"
proof (induction n arbitrary: m)
  case (Suc n)
  define m' where "m' = m(dst + n := m (src + n))"
  have "copy_down m (dst + Suc n) (src + Suc n) (Suc n) a = copy_down m' (dst + n) (src + n) n a"
    by (simp add: m'_def)
  then show ?case
    unfolding Suc.IH [OF Suc.prems, of m'] using Suc.prems by (cases "a = dst + n") (auto simp: m'_def)
qed auto

lemma memset_loop_correct: "memset_loop m dst v n a = (if dst \<le> a \<and> a < dst + n then v else m a)"
  by (induction n arbitrary: m dst) auto

lemma memcmp_loop_zero: "memcmp_loop m a b n = 0 \<longleftrightarrow> bytes m a n = bytes m b n"
  by (induction n arbitrary: a b) (auto simp: bytes_Suc)

lemma memchr_loop_correct:
  "block \<noteq> NULL \<Longrightarrow>
   memchr_loop m block c n =
     (if c \<in> set (bytes m block n) then block + length (takeWhile (\<lambda>x. x \<noteq> c) (bytes m block n)) else NULL)"
  by (induction n arbitrary: block) (auto simp: bytes_Suc)

lemma strlen_loop_correct: "cstr m p s \<Longrightarrow> strlen_loop m p = Some (p + length s)"
  by (induction s arbitrary: p) (simp_all add: strlen_loop.simps)

lemma strlen_correct: "cstr m p s \<Longrightarrow> strlen m p = Some (length s)"
  using strlen_loop_correct [of m p s] by (simp add: strlen_def cstr_def)

lemma strchr_loop_correct:
  "cstr m p s \<Longrightarrow>
   strchr_loop m p c =
     Some (if c \<in> set (s @ [0]) then p + length (takeWhile (\<lambda>x. x \<noteq> c) s) else NULL)"
  by (induction s arbitrary: p) (auto simp: strchr_loop.simps [of m])

lemma strchr_correct:
  "cstr m p s \<Longrightarrow>
   strchr m p c =
     Some (if c \<in> set (s @ [0]) then p + length (takeWhile (\<lambda>x. x \<noteq> c) s) else NULL)"
  using strchr_loop_correct [of m p s c] by (simp add: strchr_def cstr_def)

lemma strchr_null_iff:
  "cstr m p s \<Longrightarrow> \<exists>q. strchr m p c = Some q \<and> (q = NULL \<longleftrightarrow> c \<notin> set (s @ [0]))"
  by (auto simp: strchr_correct cstr_def)

lemma strcspn_loop_correct:
  "cstr m stop t \<Longrightarrow> cstr m (p + n) s \<Longrightarrow>
   strcspn_loop m p stop n = Some (n + length (takeWhile (\<lambda>c. c \<notin> set t) s))"
proof (induction s arbitrary: n)
  case (Cons c s)
  obtain q where "strchr m stop c = Some q" "q = NULL \<longleftrightarrow> c \<notin> set (t @ [0])"
    using strchr_null_iff [OF Cons.prems(1), of c] by blast
  then show ?case
    using Cons.prems Cons.IH [of "Suc n"] by (subst strcspn_loop.simps) auto
qed (simp add: strcspn_loop.simps)

lemma strspn_loop_correct:
  "cstr m skip t \<Longrightarrow> cstr m (p + n) s \<Longrightarrow>
   strspn_loop m p skip n = Some (n + length (takeWhile (\<lambda>c. c \<in> set t) s))"
proof (induction s arbitrary: n)
  case (Cons c s)
  obtain q where "strchr m skip c = Some q" "q = NULL \<longleftrightarrow> c \<notin> set (t @ [0])"
    using strchr_null_iff [OF Cons.prems(1), of c] by blast
  then show ?case
    using Cons.prems Cons.IH [of "Suc n"] by (subst strspn_loop.simps) auto
qed (simp add: strspn_loop.simps)

lemma strcspn_correct:
  "cstr m stop t \<Longrightarrow> cstr m p s \<Longrightarrow> strcspn m p stop = Some (length (takeWhile (\<lambda>c. c \<notin> set t) s))"
  using strcspn_loop_correct [of m stop t p 0 s] by (simp add: strcspn_def)

lemma strspn_correct:
  "cstr m skip t \<Longrightarrow> cstr m p s \<Longrightarrow> strspn m p skip = Some (length (takeWhile (\<lambda>c. c \<in> set t) s))"
  using strspn_loop_correct [of m skip t p 0 s] by (simp add: strspn_def)

lemma strpbrk_correct:
  "cstr m stop t \<Longrightarrow> cstr m p s \<Longrightarrow>
   strpbrk m p stop =
     Some (if \<exists>c\<in>set s. c \<in> set t then p + length (takeWhile (\<lambda>c. c \<notin> set t) s) else NULL)"
proof (induction s arbitrary: p)
  case (Cons c s)
  obtain q where "strchr m stop c = Some q" "q = NULL \<longleftrightarrow> c \<notin> set (t @ [0])"
    using strchr_null_iff [OF Cons.prems(1), of c] by blast
  then show ?case
    using Cons.prems Cons.IH [of "p + 1"] by (subst strpbrk.simps) auto
qed (simp add: strpbrk.simps)

lemma takeWhile_shorter: "x \<in> set xs \<Longrightarrow> \<not> P x \<Longrightarrow> length (takeWhile P xs) < length xs"
  by (induction xs) auto

text \<open>The last occurrence: what \<open>strrchr\<close> returns is the position of the last \<open>c\<close>, or the initial \<open>p\<close>.\<close>

lemma strrchr_loop_correct:
  "cstr m q s \<Longrightarrow>
   strrchr_loop m q c p =
     Some (if c \<in> set s then q + (length s - 1 - length (takeWhile (\<lambda>x. x \<noteq> c) (rev s))) else p)"
proof (induction s arbitrary: q p)
  case (Cons d s)
  have "length (takeWhile (\<lambda>x. x \<noteq> c) (rev s)) < length s" if "c \<in> set s"
    using that takeWhile_shorter [of c "rev s"] by simp
  then show ?case
    using Cons by (subst strrchr_loop.simps) (auto simp: takeWhile_append takeWhile_eq_all_conv [THEN iffD2])
qed (simp add: strrchr_loop.simps)

lemma strnlen_loop_correct:
  "cstr m (p + n) s \<Longrightarrow> n \<le> k \<Longrightarrow> strnlen_loop m p k n = Some (min (n + length s) k)"
proof (induction s arbitrary: n)
  case (Cons c s)
  then show ?case
    using Cons.IH [of "Suc n"] by (subst strnlen_loop.simps) auto
qed (simp add: strnlen_loop.simps)

lemma strnlen_correct: "cstr m p s \<Longrightarrow> strnlen m p k = Some (min (length s) k)"
  using strnlen_loop_correct [of m p 0 s k] by (simp add: strnlen_def)

text \<open>\<open>strcmp\<close> orders strings lexicographically by unsigned bytes.\<close>

fun lex_cmp :: "u8 list \<Rightarrow> u8 list \<Rightarrow> int" where
  "lex_cmp [] [] = 0"
| "lex_cmp [] (b # bs) = - 1"
| "lex_cmp (a # as) [] = 1"
| "lex_cmp (a # as) (b # bs) = (if a = b then lex_cmp as bs else if a < b then - 1 else 1)"

lemma strcmp_loop_correct:
  "cstr m a s \<Longrightarrow> cstr m b t \<Longrightarrow> strcmp_loop m a b = Some (lex_cmp s t)"
proof (induction s t arbitrary: a b rule: lex_cmp.induct)
  case (4 c s d t)
  then show ?case by (subst strcmp_loop.simps) auto
qed (subst strcmp_loop.simps; auto simp: word_gt_0)+

lemma lex_cmp_zero: "lex_cmp s t = 0 \<longleftrightarrow> s = t"
  by (induction s t rule: lex_cmp.induct) auto

lemma strcmp_correct: "cstr m a s \<Longrightarrow> cstr m b t \<Longrightarrow> strcmp m a b = Some (lex_cmp s t)"
  using strcmp_loop_correct [of m a s b t] by (simp add: strcmp_def cstr_def)

lemma strlcpy_correct:
  assumes "cstr m src s" and "dst \<noteq> NULL" and "dst \<le> src \<or> src + min (length s) (n - 1) \<le> dst" and "0 < n"
  shows "\<exists>m'. strlcpy m dst src n = Some (length s, m') \<and> cstr m' dst (take (n - 1) s) \<and>
              (\<forall>a. (a < dst \<or> dst + min (length s) (n - 1) < a) \<longrightarrow> m' a = m a)"
proof -
  let ?k = "min (length s) (n - 1)"
  let ?m = "(copy_up m dst src ?k)(dst + ?k := 0)"
  have src: "src \<noteq> NULL" "bytes m src (length s) = s" "0 \<notin> set s"
    using assms(1) by (auto simp: cstr_def)
  have "bytes ?m dst ?k = take (n - 1) s"
  proof (rule nth_equalityI)
    fix i assume "i < length (bytes ?m dst ?k)"
    then have i: "i < ?k" by simp
    then have "m (src + i) = s ! i"
      using nth_bytes [of i "length s" m src] src(2) by simp
    then show "bytes ?m dst ?k ! i = take (n - 1) s ! i"
      using i copy_up_correct [OF assms(3), of m "dst + i"] by (auto simp: less_imp_neq)
  qed simp
  then have "cstr ?m dst (take (n - 1) s)"
    using assms(2) src(3) set_take_subset [of "n - 1" s] by (auto simp: cstr_def)
  moreover have "strlcpy m dst src n = Some (length s, ?m)"
    using assms(2,4) src(1) strlen_correct [OF assms(1)] by (simp add: strlcpy_def memcpy_def Let_def min_def)
  moreover have "?m a = m a" if "a < dst \<or> dst + ?k < a" for a
    using that copy_up_correct [OF assms(3), of m a] by auto
  ultimately show ?thesis by blast
qed

lemma skip_delimiters_correct:
  "cstr m d t \<Longrightarrow> cstr m p s \<Longrightarrow>
   skip_delimiters m d p =
     Some (p + length (takeWhile (\<lambda>c. c \<in> set t) s), dropWhile (\<lambda>c. c \<in> set t) s = [])"
proof (induction s arbitrary: p)
  case Nil
  obtain q where "strchr m d 0 = Some q" "q = NULL \<longleftrightarrow> 0 \<notin> set (t @ [0])"
    using strchr_null_iff [OF Nil.prems(1), of 0] by blast
  then show ?case
    using Nil by (subst skip_delimiters.simps) auto
next
  case (Cons c s)
  obtain q where "strchr m d c = Some q" "q = NULL \<longleftrightarrow> c \<notin> set (t @ [0])"
    using strchr_null_iff [OF Cons.prems(1), of c] by blast
  then show ?case
    using Cons.prems Cons.IH [of "p + 1"] by (subst skip_delimiters.simps) auto
qed

lemma skip_token_correct:
  "cstr m d t \<Longrightarrow> cstr m p s \<Longrightarrow> skip_token m d p = Some (p + length (takeWhile (\<lambda>c. c \<notin> set t) s))"
proof (induction s arbitrary: p)
  case Nil
  obtain q where "strchr m d 0 = Some q" "q = NULL \<longleftrightarrow> 0 \<notin> set (t @ [0])"
    using strchr_null_iff [OF Nil.prems(1), of 0] by blast
  then show ?case
    using Nil by (subst skip_token.simps) auto
next
  case (Cons c s)
  obtain q where "strchr m d c = Some q" "q = NULL \<longleftrightarrow> c \<notin> set (t @ [0])"
    using strchr_null_iff [OF Cons.prems(1), of c] by blast
  then show ?case
    using Cons.prems Cons.IH [of "p + 1"] by (subst skip_token.simps) auto
qed

lemma cstr_nonnull: "cstr m p s \<Longrightarrow> p \<noteq> NULL"
  by (simp add: cstr_def)

lemma cstr_append: "cstr m p (s @ t) \<longleftrightarrow> p \<noteq> NULL \<and> 0 \<notin> set s \<and> bytes m p (length s) = s \<and> cstr m (p + length s) t"
proof (induction s arbitrary: p)
  case Nil
  then show ?case using cstr_nonnull [of m p t] by auto
next
  case (Cons c s)
  then show ?case using Cons.IH [of "p + 1"] by (simp add: bytes_Suc) blast
qed

lemma cstr_upd:
  assumes "cstr m p s" and "a < p \<or> p + length s < a"
  shows "cstr (m(a := v)) p s"
proof -
  have "bytes (m(a := v)) p (length s) = bytes m p (length s)"
    using assms(2) by (intro bytes_cong) auto
  then show ?thesis
    using assms unfolding cstr_def by auto
qed

text \<open>
  One call of \<open>strtok_r\<close> on the string \<open>pre @ tok @ rest\<close>, where \<open>pre\<close> are delimiters, \<open>tok\<close> has none
  and \<open>rest\<close> is empty or starts with one.
\<close>

lemma strtok_r_correct:
  assumes "cstr m d t" and "cstr m p (pre @ tok @ rest)" and "set pre \<subseteq> set t" and "set tok \<inter> set t = {}"
    and "tok \<noteq> []" and "rest = [] \<or> hd rest \<in> set t"
    and "s = p \<or> s = NULL \<and> save = p"
  shows "\<exists>m'. strtok_r m s d save = Some (p + length pre, p + length pre + length tok + min 1 (length rest), m') \<and>
              cstr m' (p + length pre) tok \<and> cstr m' (p + length pre + length tok + min 1 (length rest)) (tl rest) \<and>
              (\<forall>a. a \<noteq> p + length pre + length tok \<longrightarrow> m' a = m a)"
proof -
  let ?q = "p + length pre" and ?r = "p + length pre + length tok"
  have pd: "p \<noteq> NULL" "d \<noteq> NULL" and tok: "cstr m ?q (tok @ rest)" and rest: "cstr m ?r rest"
    using assms(1,2) by (auto simp: cstr_def [of m d] cstr_append)
  have tw1: "takeWhile (\<lambda>c. c \<in> set t) (pre @ tok @ rest) = pre"
    "dropWhile (\<lambda>c. c \<in> set t) (pre @ tok @ rest) \<noteq> []"
  proof -
    obtain x xs where x: "tok = x # xs" "x \<notin> set t"
      using assms(4,5) by (cases tok) auto
    have "c \<in> set t" if "c \<in> set pre" for c
      using that assms(3) by blast
    then show "takeWhile (\<lambda>c. c \<in> set t) (pre @ tok @ rest) = pre"
      "dropWhile (\<lambda>c. c \<in> set t) (pre @ tok @ rest) \<noteq> []"
      using x by (simp_all add: takeWhile_append2 dropWhile_append2)
  qed
  have tw2: "takeWhile (\<lambda>c. c \<notin> set t) (tok @ rest) = tok"
  proof -
    have "c \<notin> set t" if "c \<in> set tok" for c
      using that assms(4) by blast
    then show ?thesis
      using assms(6) by (cases rest) (simp_all add: takeWhile_append2 takeWhile_eq_all_conv)
  qed
  have "skip_delimiters m d p = Some (?q, False)"
    using skip_delimiters_correct [OF assms(1,2)] tw1 by simp
  moreover have "skip_token m d ?q = Some ?r"
    using skip_token_correct [OF assms(1) tok] tw2 by (simp add: add.assoc)
  ultimately have eq: "strtok_r m s d save =
      (if m ?r \<noteq> 0 then Some (?q, ?r + 1, m(?r := 0)) else Some (?q, ?r, m))"
    using assms(7) pd by (auto simp: strtok_r_def)
  show ?thesis
  proof (cases rest)
    case Nil
    then show ?thesis
      unfolding eq using rest tok by simp
  next
    case (Cons c cs)
    then have "m ?r \<noteq> 0" "cstr m (?r + 1) cs"
      using rest by auto
    moreover have "bytes (m(?r := 0)) ?q (length tok) = bytes m ?q (length tok)"
      by (rule bytes_cong) simp
    then have "cstr (m(?r := 0)) ?q tok"
      using tok pd(1) unfolding cstr_append cstr_def [of "m(?r := 0)"] by simp
    moreover have "cstr (m(?r := 0)) (?r + 1) cs"
      using \<open>cstr m (?r + 1) cs\<close> by (rule cstr_upd) simp
    ultimately show ?thesis
      unfolding eq Cons by simp
  qed
qed

lemma strstr_loop_correct:
  assumes "haystack \<noteq> NULL" and "needle \<noteq> NULL"
  shows "\<exists>r. strstr_loop m haystack needle k i n = Some r \<and>
     (if r = NULL then \<forall>j. i \<le> j \<longrightarrow> j < i + n \<longrightarrow> bytes m (haystack + j) k \<noteq> bytes m needle k
      else \<exists>j. i \<le> j \<and> j < i + n \<and> r = haystack + j \<and> bytes m (haystack + j) k = bytes m needle k \<and>
        (\<forall>j'. i \<le> j' \<longrightarrow> j' < j \<longrightarrow> bytes m (haystack + j') k \<noteq> bytes m needle k))"
proof (induction n arbitrary: i)
  case (Suc n)
  have c: "memcmp m (haystack + i) needle k = Some (memcmp_loop m (haystack + i) needle k)"
    using assms by (simp add: memcmp_def)
  show ?case
  proof (cases "bytes m (haystack + i) k = bytes m needle k")
    case True
    then show ?thesis
      using c assms(1) memcmp_loop_zero [of m "haystack + i" needle k] by (auto intro!: exI [of _ i])
  next
    case False
    obtain r where r: "strstr_loop m haystack needle k (i + 1) n = Some r"
      "if r = NULL then \<forall>j. i + 1 \<le> j \<longrightarrow> j < i + 1 + n \<longrightarrow> bytes m (haystack + j) k \<noteq> bytes m needle k
       else \<exists>j. i + 1 \<le> j \<and> j < i + 1 + n \<and> r = haystack + j \<and> bytes m (haystack + j) k = bytes m needle k \<and>
         (\<forall>j'. i + 1 \<le> j' \<longrightarrow> j' < j \<longrightarrow> bytes m (haystack + j') k \<noteq> bytes m needle k)"
      using Suc.IH [of "i + 1"] by blast
    have "strstr_loop m haystack needle k i (Suc n) = Some r"
      using c r(1) False memcmp_loop_zero [of m "haystack + i" needle k] by simp
    moreover have step: "i \<le> j \<longleftrightarrow> j = i \<or> i + 1 \<le> j" for j
      by auto
    ultimately show ?thesis
      using r(2) False by (cases "r = NULL") (auto simp: step)
  qed
qed simp

section \<open>Properties\<close>

text \<open>
  C9: \<open>memmove\<close> copies the block also when source and destination overlap in either direction: the
  destination ends up with the bytes the source had before the call, and no other byte changes.
\<close>

theorem memmove_overlapping:
  assumes "dst \<noteq> NULL" and "src \<noteq> NULL"
  shows "\<exists>r m'. memmove m dst src n = Some (r, m') \<and> bytes m' dst n = bytes m src n \<and>
                (\<forall>a. a < dst \<or> dst + n \<le> a \<longrightarrow> m' a = m a)"
proof -
  define m' where "m' = (if dst < src then copy_up m dst src n else copy_down m (dst + n) (src + n) n)"
  have m': "m' a = (if dst \<le> a \<and> a < dst + n then m (src + (a - dst)) else m a)" for a
    using copy_up_correct [of dst src n m a] copy_down_correct [of src dst m n a] by (simp add: m'_def)
  have "\<exists>r. memmove m dst src n = Some (r, m')"
    using assms by (simp add: memmove_def m'_def)
  moreover have "bytes m' dst n = bytes m src n"
    by (rule nth_equalityI) (simp_all add: m')
  ultimately show ?thesis
    using m' by auto
qed

theorem memmove_overlapping_witness:
  "\<exists>r m'. memmove (\<lambda>a. word_of_nat a) 12 10 5 = Some (r, m') \<and> bytes m' 12 5 = [10, 11, 12, 13, 14]"
proof -
  obtain r m' where *: "memmove (\<lambda>a. word_of_nat a) 12 10 5 = Some (r, m')"
      "bytes m' 12 5 = bytes (\<lambda>a. word_of_nat a) 10 5"
    using memmove_overlapping [of 12 10 "\<lambda>a. word_of_nat a" 5] by auto
  have "bytes (\<lambda>a. word_of_nat a) 10 5 = [10, 11, 12, 13, 14]"
    by (simp add: bytes_def upt_rec)
  then show ?thesis using * by simp
qed

text \<open>
  The comment of \<open>memmove\<close> promises that it returns \<open>DST\<close>; when the destination is below the source the
  pointer it returns has been advanced past the block.
\<close>

lemma memmove_returns_end:
  "dst \<noteq> NULL \<Longrightarrow> dst < src \<Longrightarrow> \<exists>m'. memmove m dst src n = Some (dst + n, m')"
  by (simp add: memmove_def)

text \<open>
  C10: \<open>strtok_r\<close> ends on every C string, called with the string or with a null pointer and the
  saved position.  When only delimiters are left it returns a null pointer, changes no memory and
  saves the end of the string.  Otherwise it skips the delimiters before the next token, returns that
  token as a null-terminated string of its own, saves a position at which the rest of the string
  after the delimiter that ended the token begins, and writes at most that one delimiter.
\<close>

theorem strtok_r_next_token:
  assumes "cstr m d t" and "cstr m p str" and "s = p \<or> s = NULL \<and> save = p"
  shows "\<exists>token save' m'. strtok_r m s d save = Some (token, save', m') \<and>
    (let pre = takeWhile (\<lambda>c. c \<in> set t) str; left = dropWhile (\<lambda>c. c \<in> set t) str;
         tok = takeWhile (\<lambda>c. c \<notin> set t) left; rest = dropWhile (\<lambda>c. c \<notin> set t) left
     in if left = [] then token = NULL \<and> save' = p + length str \<and> m' = m
        else token = p + length pre \<and> cstr m' token tok \<and> cstr m' save' (tl rest) \<and>
          (\<forall>a. a \<noteq> token + length tok \<longrightarrow> m' a = m a))"
proof (cases "dropWhile (\<lambda>c. c \<in> set t) str = []")
  case True
  then have all: "takeWhile (\<lambda>c. c \<in> set t) str = str" by (metis append_Nil2 takeWhile_dropWhile_id)
  have "skip_delimiters m d p = Some (p + length str, True)"
    using skip_delimiters_correct [OF assms(1,2)] all True by simp
  moreover have "p \<noteq> NULL" "d \<noteq> NULL" using assms(1,2) by (auto dest: cstr_nonnull)
  ultimately have "strtok_r m s d save = Some (NULL, p + length str, m)"
    using assms(3) by (auto simp: strtok_r_def)
  then show ?thesis using True by simp
next
  case False
  define pre where "pre = takeWhile (\<lambda>c. c \<in> set t) str"
  define left where "left = dropWhile (\<lambda>c. c \<in> set t) str"
  define tok where "tok = takeWhile (\<lambda>c. c \<notin> set t) left"
  define rest where "rest = dropWhile (\<lambda>c. c \<notin> set t) left"
  have str: "str = pre @ tok @ rest" by (simp add: pre_def left_def tok_def rest_def)
  have hd: "left \<noteq> []" "hd left \<notin> set t" using False hd_dropWhile [of "\<lambda>c. c \<in> set t" str] by (simp_all add: left_def)
  then have ne: "tok \<noteq> []" by (cases left) (simp_all add: tok_def)
  have "set pre \<subseteq> set t" "set tok \<inter> set t = {}" by (auto simp: pre_def tok_def dest: set_takeWhileD)
  moreover have "rest = [] \<or> hd rest \<in> set t"
    using hd_dropWhile [of "\<lambda>c. c \<notin> set t" left] by (auto simp: rest_def)
  ultimately show ?thesis
    using strtok_r_correct [OF assms(1) assms(2) [unfolded str] _ _ ne _ assms(3)] False
    unfolding pre_def [symmetric] left_def [symmetric] tok_def [symmetric] rest_def [symmetric] Let_def
    by simp blast
qed

theorem strtok_r_next_token_witness:
  "(\<exists>m' save'. strtok_r ((\<lambda>_. 0)(10 := 32, 11 := 97, 12 := 98, 13 := 32, 14 := 99, 20 := 32)) 10 20 0 =
      Some (11, save', m') \<and> cstr m' 11 [97, 98] \<and> cstr m' save' [99]) \<and>
   (\<exists>m' save'. strtok_r ((\<lambda>_. 0)(10 := 32, 20 := 32)) 10 20 0 = Some (NULL, 11, m'))"
proof -
  let ?m = "(\<lambda>_. 0)(10 := 32, 11 := 97, 12 := 98, 13 := 32, 14 := 99, 20 := 32) :: mem"
  let ?m' = "(\<lambda>_. 0)(10 := 32, 20 := 32) :: mem"
  have "cstr ?m 20 [32]" "cstr ?m 10 [32, 97, 98, 32, 99]" "cstr ?m' 20 [32]" "cstr ?m' 10 [32]"
    by simp_all
  then show ?thesis
    using strtok_r_next_token [of ?m 20 "[32]" 10 "[32, 97, 98, 32, 99]" 10 0]
      strtok_r_next_token [of ?m' 20 "[32]" 10 "[32]" 10 0] by auto
qed

end
