(* ===== verification/Ctype.thy ===== *)
theory Ctype
  imports Cstring
begin

text \<open>
  The character classes of \<open>src/src/lib/ctype.h\<close>, on character codes, and \<open>atoi\<close> of
  \<open>src/src/lib/stdlib.c\<close>, which uses them.
\<close>

section \<open>Character classes\<close>

definition islower :: "int \<Rightarrow> bool" where
  "islower c \<longleftrightarrow> c \<ge> 97 \<and> c \<le> 122"

definition isupper :: "int \<Rightarrow> bool" where
  "isupper c \<longleftrightarrow> c \<ge> 65 \<and> c \<le> 90"

definition isalpha :: "int \<Rightarrow> bool" where
  "isalpha c \<longleftrightarrow> islower c \<or> isupper c"

definition isdigit :: "int \<Rightarrow> bool" where
  "isdigit c \<longleftrightarrow> c \<ge> 48 \<and> c \<le> 57"

definition isalnum :: "int \<Rightarrow> bool" where
  "isalnum c \<longleftrightarrow> isalpha c \<or> isdigit c"

definition isxdigit :: "int \<Rightarrow> bool" where
  "isxdigit c \<longleftrightarrow> isdigit c \<or> (c \<ge> 97 \<and> c \<le> 102) \<or> (c \<ge> 65 \<and> c \<le> 70)"

definition isspace :: "int \<Rightarrow> bool" where
  "isspace c \<longleftrightarrow> c = 32 \<or> c = 12 \<or> c = 10 \<or> c = 13 \<or> c = 9 \<or> c = 11"

definition isblank :: "int \<Rightarrow> bool" where
  "isblank c \<longleftrightarrow> c = 32 \<or> c = 9"

definition isgraph :: "int \<Rightarrow> bool" where
  "isgraph c \<longleftrightarrow> c > 32 \<and> c < 127"

definition isprint :: "int \<Rightarrow> bool" where
  "isprint c \<longleftrightarrow> c \<ge> 32 \<and> c < 127"

definition iscntrl :: "int \<Rightarrow> bool" where
  "iscntrl c \<longleftrightarrow> (c \<ge> 0 \<and> c < 32) \<or> c = 127"

definition isascii :: "int \<Rightarrow> bool" where
  "isascii c \<longleftrightarrow> c \<ge> 0 \<and> c < 128"

definition ispunct :: "int \<Rightarrow> bool" where
  "ispunct c \<longleftrightarrow> isprint c \<and> \<not> isalnum c \<and> \<not> isspace c"

definition tolower :: "int \<Rightarrow> int" where
  "tolower c = (if isupper c then c - 65 + 97 else c)"

definition toupper :: "int \<Rightarrow> int" where
  "toupper c = (if islower c then c - 97 + 65 else c)"

lemmas ctype_defs = islower_def isupper_def isalpha_def isdigit_def isalnum_def isxdigit_def isspace_def
  isblank_def isgraph_def isprint_def iscntrl_def isascii_def ispunct_def tolower_def toupper_def

section \<open>atoi\<close>

text \<open>A plain \<open>char\<close> is signed on the target.\<close>

definition char_val :: "u8 \<Rightarrow> int" where
  "char_val b = sint b"

partial_function (option) skip_spaces :: "mem \<Rightarrow> addr \<Rightarrow> addr option" where
  "skip_spaces m s = (if isspace (uint (m s)) then skip_spaces m (s + 1) else Some s)"

partial_function (option) parse_digits :: "mem \<Rightarrow> addr \<Rightarrow> int \<Rightarrow> int option" where
  "parse_digits m s v =
     (if isdigit (char_val (m s)) then parse_digits m (s + 1) (to_s32 (to_s32 (v * 10) - (char_val (m s) - 48)))
      else Some v)"

definition atoi :: "mem \<Rightarrow> addr \<Rightarrow> int option" where
  "atoi m s = do {
     ASSERT (s \<noteq> NULL);
     s \<leftarrow> skip_spaces m s;
     let (negative, s) =
       (if char_val (m s) = 43 then (False, s + 1)
        else if char_val (m s) = 45 then (True, s + 1)
        else (False, s));
     v \<leftarrow> parse_digits m s 0;
     Some (if negative then v else to_s32 (- v))
   }"

section \<open>Correctness\<close>

lemma isascii_partition: "isascii c \<longleftrightarrow> isprint c \<noteq> iscntrl c"
  by (auto simp: ctype_defs)

lemma isprint_partition: "isprint c \<longleftrightarrow> isalnum c \<or> ispunct c \<or> c = 32"
  by (auto simp: ctype_defs)

lemma case_conversion: "isalpha c \<Longrightarrow> tolower (toupper c) = tolower c \<and> islower (tolower c) \<and> isupper (toupper c)"
  by (auto simp: ctype_defs)

text \<open>The number a string of decimal digits denotes.\<close>

definition digits_val :: "u8 list \<Rightarrow> int" where
  "digits_val ds = foldl (\<lambda>v d. v * 10 + (char_val d - 48)) 0 ds"

lemma skip_spaces_correct:
  "cstr m p (ws @ s) \<Longrightarrow> \<forall>c\<in>set ws. isspace (uint c) \<Longrightarrow> s = [] \<or> \<not> isspace (uint (hd s)) \<Longrightarrow>
   skip_spaces m p = Some (p + length ws)"
proof (induction ws arbitrary: p)
  case Nil
  then have "\<not> isspace (uint (m p))"
    by (cases s) (auto simp: isspace_def)
  then show ?case by (subst skip_spaces.simps) simp
next
  case (Cons w ws)
  then show ?case by (subst skip_spaces.simps) simp
qed

lemma parse_digits_correct:
  "cstr m p (ds @ s) \<Longrightarrow> \<forall>c\<in>set ds. isdigit (char_val c) \<Longrightarrow> s = [] \<or> \<not> isdigit (char_val (hd s)) \<Longrightarrow>
   parse_digits m p (to_s32 v) = Some (to_s32 (foldl (\<lambda>v d. v * 10 - (char_val d - 48)) v ds))"
proof (induction ds arbitrary: p v)
  case Nil
  then have "\<not> isdigit (char_val (m p))"
    by (cases s) (auto simp: isdigit_def char_val_def)
  then show ?case by (subst parse_digits.simps) simp
next
  case (Cons d ds)
  have "(to_s32 (to_s32 v * 10) - (char_val d - 48)) mod 2 ^ 32 = (v * 10 - (char_val d - 48)) mod 2 ^ 32"
    by (metis mod_diff_left_eq mod_mult_left_eq to_s32_mod)
  then have "to_s32 (to_s32 (to_s32 v * 10) - (char_val d - 48)) = to_s32 (v * 10 - (char_val d - 48))"
    by (rule to_s32_cong)
  moreover have "m p = d" "isdigit (char_val d)" "cstr m (p + 1) (ds @ s)"
    using Cons.prems by auto
  ultimately show ?case
    using Cons.IH [of "p + 1" "v * 10 - (char_val d - 48)"] Cons.prems
    by (subst parse_digits.simps) simp
qed

lemma foldl_negated:
  "foldl (\<lambda>v d. v * 10 - (char_val d - 48)) (- v) ds = - foldl (\<lambda>v d. v * 10 + (char_val d - 48)) v ds"
proof (induction ds arbitrary: v)
  case (Cons d ds)
  have "- v * 10 - (char_val d - 48) = - (v * 10 + (char_val d - 48))"
    by simp
  then show ?case
    unfolding foldl_Cons by (simp only: Cons.IH)
qed simp

lemma uint_char_val: "0 \<le> char_val c \<Longrightarrow> uint c = char_val c"
  using sint_lt [of c] by (simp add: char_val_def uint_sint take_bit_int_eq_self)

lemma isdigit_not_isspace: "isdigit (char_val c) \<Longrightarrow> \<not> isspace (uint c)"
  using uint_char_val [of c] by (auto simp: isdigit_def isspace_def)

section \<open>Properties\<close>

text \<open>
  C11: \<open>atoi\<close> on white space, an optional sign, decimal digits and an arbitrary rest that does not
  start with a digit returns the number the digits denote, with the sign, whenever that number fits
  in an \<open>int\<close>, the most negative value included.
\<close>

theorem atoi_decimal:
  assumes "cstr m p (ws @ sign @ ds @ rest)"
    and "\<forall>c\<in>set ws. isspace (uint c)" and "sign \<in> {[], [43], [45]}"
    and "\<forall>c\<in>set ds. isdigit (char_val c)" and "ds \<noteq> []" and "rest = [] \<or> \<not> isdigit (char_val (hd rest))"
    and "is_s32 (if sign = [45] then - digits_val ds else digits_val ds)"
  shows "atoi m p = Some (if sign = [45] then - digits_val ds else digits_val ds)"
proof -
  let ?q = "p + length ws" and ?neg = "sign = [45]"
  have "\<not> isspace (uint (hd (sign @ ds @ rest)))"
    using assms(3-5) isdigit_not_isspace [of "hd ds"] by (cases ds) (auto simp: isspace_def)
  then have sp: "skip_spaces m p = Some ?q"
    using skip_spaces_correct [OF assms(1,2)] by simp
  have sd: "cstr m ?q (sign @ ds @ rest)" and p: "p \<noteq> NULL"
    using assms(1) by (auto simp: cstr_append)
  then have ds: "cstr m (?q + length sign) (ds @ rest)"
    by (simp add: cstr_append)
  have hd: "char_val (m ?q) = (if sign = [] then char_val (hd ds) else if ?neg then 45 else 43)"
    using sd assms(3,5) by (cases ds) (auto simp: char_val_def)
  have d0: "isdigit (char_val (hd ds))"
    using assms(4,5) by simp
  have sg: "(if char_val (m ?q) = 43 then (False, ?q + 1) else if char_val (m ?q) = 45 then (True, ?q + 1) else (False, ?q))
      = (?neg, ?q + length sign)"
    using hd d0 assms(3) by (auto simp: isdigit_def)
  have "parse_digits m (?q + length sign) 0 = Some (to_s32 (- digits_val ds))"
    using parse_digits_correct [OF ds assms(4,6), of 0] foldl_negated [of 0 ds] by (simp add: digits_val_def)
  then have "atoi m p = Some (if ?neg then to_s32 (- digits_val ds) else to_s32 (- to_s32 (- digits_val ds)))"
    using p sp sg by (simp add: atoi_def)
  moreover have "to_s32 (- to_s32 (- digits_val ds)) = to_s32 (digits_val ds)"
    by (rule to_s32_cong) (metis add.inverse_inverse mod_minus_eq to_s32_mod)
  ultimately show ?thesis
    using to_s32_id [OF assms(7)] by auto
qed

theorem atoi_decimal_witness:
  "atoi ((\<lambda>_. 0)(10 := 32, 11 := 45, 12 := 52, 13 := 50, 14 := 120)) 10 = Some (- 42)"
proof -
  let ?m = "(\<lambda>_. 0)(10 := 32, 11 := 45, 12 := 52, 13 := 50, 14 := 120) :: mem"
  have "cstr ?m 10 ([32] @ [45] @ [52, 50] @ [120])"
    by simp
  moreover have "digits_val [52, 50] = 42"
    by (simp add: digits_val_def char_val_def)
  ultimately show ?thesis
    using atoi_decimal [of ?m 10 "[32]" "[45]" "[52, 50]" "[120]"] by (simp add: isspace_def isdigit_def char_val_def)
qed

end
