(* ===== verification/Stdlib_C.thy ===== *)
theory Stdlib_C
  imports Cstring
begin

text \<open>
  Sorting and searching of \<open>src/src/lib/stdlib.c\<close>: the heap sort behind \<open>qsort\<close> and the binary
  search behind \<open>bsearch\<close>.  An array of \<open>cnt\<close> elements of \<open>size\<close> bytes is the list of its elements;
  the indexes of the heap routines are 1-based, as in the code.  The locale \<open>compare_func\<close> states what
  the routines need of the comparison function.
\<close>

section \<open>Routines\<close>

type_synonym 'a compare = "'a \<Rightarrow> 'a \<Rightarrow> int"

text \<open>An index outside the array reads or writes foreign memory, which the model refuses.\<close>

definition in_array :: "'a list \<Rightarrow> nat \<Rightarrow> bool" where
  "in_array xs idx \<longleftrightarrow> 1 \<le> idx \<and> idx \<le> length xs"

definition do_swap :: "'a list \<Rightarrow> nat \<Rightarrow> nat \<Rightarrow> 'a list option" where
  "do_swap xs a_idx b_idx =
     (if in_array xs a_idx \<and> in_array xs b_idx
      then Some (xs[a_idx - 1 := xs ! (b_idx - 1), b_idx - 1 := xs ! (a_idx - 1)]) else None)"

definition do_compare :: "'a compare \<Rightarrow> 'a list \<Rightarrow> nat \<Rightarrow> nat \<Rightarrow> int option" where
  "do_compare compare xs a_idx b_idx =
     (if in_array xs a_idx \<and> in_array xs b_idx then Some (compare (xs ! (a_idx - 1)) (xs ! (b_idx - 1))) else None)"

text \<open>
  The index of the largest element among \<open>i\<close> and its children, the first half of the loop body.
  The indexes of the children are computed in \<open>size_t\<close> and wrap around for \<open>i\<close> from \<open>2 ^ 31\<close> on.
\<close>

definition max_index :: "'a compare \<Rightarrow> 'a list \<Rightarrow> nat \<Rightarrow> nat \<Rightarrow> nat option" where
  "max_index compare xs i cnt =
     (let left = size_t (2 * i); right = size_t (2 * i + 1) in
      do {
        greater \<leftarrow> (if left \<le> cnt then do_compare compare xs left i else Some 0);
        let mx = (if greater > 0 then left else i);
        greater \<leftarrow> (if right \<le> cnt then do_compare compare xs right mx else Some 0);
        Some (if greater > 0 then right else mx)
      })"

text \<open>The loop of \<open>heapify\<close>; after a wrap-around it need not end.\<close>

partial_function (option) heapify :: "'a compare \<Rightarrow> 'a list \<Rightarrow> nat \<Rightarrow> nat \<Rightarrow> 'a list option" where
  "heapify compare xs i cnt =
     do {
       mx \<leftarrow> max_index compare xs i cnt;
       if mx = i then Some xs
       else do { xs \<leftarrow> do_swap xs i mx; heapify compare xs mx cnt }
     }"

text \<open>The two loops of \<open>sort\<close>: build the heap, then move the maximum to the end.\<close>

primrec build_heap :: "'a compare \<Rightarrow> 'a list \<Rightarrow> nat \<Rightarrow> nat \<Rightarrow> 'a list option" where
  "build_heap compare xs cnt 0 = Some xs"
| "build_heap compare xs cnt (Suc i) =
     do { xs \<leftarrow> heapify compare xs (Suc i) cnt; build_heap compare xs cnt i }"

primrec sort_heap :: "'a compare \<Rightarrow> 'a list \<Rightarrow> nat \<Rightarrow> 'a list option" where
  "sort_heap compare xs 0 = Some xs"
| "sort_heap compare xs (Suc i) =
     (if Suc i > 1
      then do { xs \<leftarrow> do_swap xs 1 (Suc i); xs \<leftarrow> heapify compare xs 1 i; sort_heap compare xs i }
      else Some xs)"

text \<open>
  \<open>array\<close> is the address of the array, \<open>xs\<close> its contents (so \<open>cnt\<close> is the length), \<open>sz\<close> the size of
  an element; the comparison function is a pointer that may be null.
\<close>

definition sort_c :: "addr \<Rightarrow> 'a list \<Rightarrow> nat \<Rightarrow> 'a compare option \<Rightarrow> 'a list option" where
  "sort_c array xs sz compare =
     do {
       let cnt = length xs;
       ASSERT (array \<noteq> NULL \<or> cnt = 0);
       compare \<leftarrow> compare;
       ASSERT (sz > 0);
       xs \<leftarrow> build_heap compare xs cnt (cnt div 2);
       sort_heap compare xs cnt
     }"

text \<open>
  \<open>qsort\<close> passes \<open>compare_thunk\<close>, whose auxiliary data is its own comparison function, so the
  assertion of \<open>sort\<close> on the function pointer always holds here.
\<close>

definition compare_thunk :: "'a compare \<Rightarrow> 'a compare" where
  "compare_thunk aux a b = aux a b"

definition qsort :: "addr \<Rightarrow> 'a list \<Rightarrow> nat \<Rightarrow> 'a compare \<Rightarrow> 'a list option" where
  "qsort array xs sz compare = sort_c array xs sz (Some (compare_thunk compare))"

text \<open>
  Binary search over the positions \<open>first\<close> to \<open>last\<close>; the result is the position of a match.
\<close>

function binary_search_loop :: "('k \<Rightarrow> 'a \<Rightarrow> int) \<Rightarrow> 'k \<Rightarrow> 'a list \<Rightarrow> nat \<Rightarrow> nat \<Rightarrow> nat option" where
  "binary_search_loop compare key xs fst_i lst_i =
     (if fst_i < lst_i then
        let range = lst_i - fst_i; middle = fst_i + range div 2; cmp = compare key (xs ! middle) in
        if cmp < 0 then binary_search_loop compare key xs fst_i middle
        else if cmp > 0 then binary_search_loop compare key xs (middle + 1) lst_i
        else Some middle
      else None)"
  by pat_completeness auto
termination
  by (relation "measure (\<lambda>(_, _, _, f, l). l - f)") auto

declare binary_search_loop.simps [simp del]

definition binary_search :: "('k \<Rightarrow> 'a \<Rightarrow> int) \<Rightarrow> 'k \<Rightarrow> 'a list \<Rightarrow> nat option" where
  "binary_search compare key xs = binary_search_loop compare key xs 0 (length xs)"

definition bsearch :: "('k \<Rightarrow> 'a \<Rightarrow> int) \<Rightarrow> 'k \<Rightarrow> 'a list \<Rightarrow> nat option" where
  "bsearch compare key xs = binary_search compare key xs"

section \<open>Heap sort on unbounded indexes\<close>

text \<open>
  The same algorithm with natural numbers as indexes.  It is proved correct below, and for arrays of
  fewer than \<open>2 ^ 31\<close> elements the routines above compute it.
\<close>

definition swap_elts :: "'a list \<Rightarrow> nat \<Rightarrow> nat \<Rightarrow> 'a list" where
  "swap_elts xs a_idx b_idx = xs[a_idx - 1 := xs ! (b_idx - 1), b_idx - 1 := xs ! (a_idx - 1)]"

definition compare_elts :: "'a compare \<Rightarrow> 'a list \<Rightarrow> nat \<Rightarrow> nat \<Rightarrow> int" where
  "compare_elts compare xs a_idx b_idx = compare (xs ! (a_idx - 1)) (xs ! (b_idx - 1))"

definition largest_of :: "'a compare \<Rightarrow> 'a list \<Rightarrow> nat \<Rightarrow> nat \<Rightarrow> nat" where
  "largest_of compare xs i cnt =
     (let left = 2 * i; right = 2 * i + 1; mx = i;
          mx = (if left \<le> cnt \<and> compare_elts compare xs left mx > 0 then left else mx);
          mx = (if right \<le> cnt \<and> compare_elts compare xs right mx > 0 then right else mx)
      in mx)"

lemma largest_of_bound: "largest_of compare xs i cnt \<noteq> i \<Longrightarrow> i < largest_of compare xs i cnt \<and> largest_of compare xs i cnt \<le> cnt"
  by (auto simp: largest_of_def Let_def split: if_splits)

function sift_down :: "'a compare \<Rightarrow> 'a list \<Rightarrow> nat \<Rightarrow> nat \<Rightarrow> 'a list" where
  "sift_down compare xs i cnt =
     (let mx = largest_of compare xs i cnt in
      if mx = i then xs else sift_down compare (swap_elts xs i mx) mx cnt)"
  by pat_completeness auto
termination
proof (relation "measure (\<lambda>(_, _, i, cnt). Suc cnt - i)")
  fix compare :: "'a compare" and xs i cnt mx
  assume "mx = largest_of compare xs i cnt" "mx \<noteq> i"
  then show "((compare, swap_elts xs i mx, mx, cnt), (compare, xs, i, cnt)) \<in> measure (\<lambda>(_, _, i, cnt). Suc cnt - i)"
    using largest_of_bound [of compare xs i cnt] by auto
qed simp

declare sift_down.simps [simp del]

primrec sift_all :: "'a compare \<Rightarrow> 'a list \<Rightarrow> nat \<Rightarrow> nat \<Rightarrow> 'a list" where
  "sift_all compare xs cnt 0 = xs"
| "sift_all compare xs cnt (Suc i) = sift_all compare (sift_down compare xs (Suc i) cnt) cnt i"

primrec extract_all :: "'a compare \<Rightarrow> 'a list \<Rightarrow> nat \<Rightarrow> 'a list" where
  "extract_all compare xs 0 = xs"
| "extract_all compare xs (Suc i) =
     (if Suc i > 1 then extract_all compare (sift_down compare (swap_elts xs 1 (Suc i)) 1 i) i else xs)"


lemma max_index_largest:
  assumes "1 \<le> i" and "i \<le> cnt" and "cnt \<le> length xs" and "length xs < 2 ^ 31"
  shows "max_index compare xs i cnt = Some (largest_of compare xs i cnt)"
proof -
  have w: "size_t (2 * i) = 2 * i" "size_t (2 * i + 1) = 2 * i + 1" using assms by (simp_all add: size_t_def)
  show ?thesis
    unfolding max_index_def largest_of_def w Let_def
    using assms by (simp add: do_compare_def compare_elts_def in_array_def)
qed

lemma do_swap_elts: "in_array xs a \<Longrightarrow> in_array xs b \<Longrightarrow> do_swap xs a b = Some (swap_elts xs a b)"
  by (simp add: do_swap_def swap_elts_def)

lemma heapify_sift_down:
  assumes "1 \<le> i" and "i \<le> cnt" and "cnt \<le> length xs" and "length xs < 2 ^ 31"
  shows "heapify compare xs i cnt = Some (sift_down compare xs i cnt)"
  using assms
proof (induction compare xs i cnt rule: sift_down.induct)
  case (1 compare xs i cnt)
  let ?mx = "largest_of compare xs i cnt"
  note mx = max_index_largest [OF "1.prems", of compare]
  show ?case
  proof (cases "?mx = i")
    case True
    then show ?thesis by (subst heapify.simps) (simp add: mx sift_down.simps [of compare xs])
  next
    case False
    note b = largest_of_bound [OF False]
    have "do_swap xs i ?mx = Some (swap_elts xs i ?mx)"
      using b "1.prems" by (intro do_swap_elts) (auto simp: in_array_def)
    moreover have "heapify compare (swap_elts xs i ?mx) ?mx cnt = Some (sift_down compare (swap_elts xs i ?mx) ?mx cnt)"
      using b "1.prems" by (intro "1.IH" [OF refl False]) (auto simp: swap_elts_def)
    ultimately show ?thesis
      using False by (subst heapify.simps) (simp add: mx sift_down.simps [of compare xs] Let_def)
  qed
qed

section \<open>Permutation\<close>

lemma length_swap_elts [simp]: "length (swap_elts xs a b) = length xs"
  by (simp add: swap_elts_def)

lemma mset_swap_elts: "1 \<le> a \<Longrightarrow> a \<le> length xs \<Longrightarrow> 1 \<le> b \<Longrightarrow> b \<le> length xs \<Longrightarrow> mset (swap_elts xs a b) = mset xs"
  unfolding swap_elts_def by (rule mset_swap) auto

text \<open>Element \<open>k\<close> of the 1-based array.\<close>

abbreviation elt :: "'a list \<Rightarrow> nat \<Rightarrow> 'a" where
  "elt xs k \<equiv> xs ! (k - 1)"

lemma elt_swap_elts:
  "1 \<le> a \<Longrightarrow> a \<le> length xs \<Longrightarrow> 1 \<le> b \<Longrightarrow> b \<le> length xs \<Longrightarrow> 1 \<le> k \<Longrightarrow>
   elt (swap_elts xs a b) k = (if k = b then elt xs a else if k = a then elt xs b else elt xs k)"
  by (auto simp: swap_elts_def nth_list_update)

lemma sift_down_frame:
  assumes "1 \<le> i" and "cnt \<le> length xs"
  shows "mset (sift_down compare xs i cnt) = mset xs \<and> length (sift_down compare xs i cnt) = length xs \<and>
         (\<forall>k > cnt. elt (sift_down compare xs i cnt) k = elt xs k)"
  using assms
proof (induction compare xs i cnt rule: sift_down.induct)
  case (1 compare xs i cnt)
  let ?mx = "largest_of compare xs i cnt"
  show ?case
  proof (cases "?mx = i")
    case True
    then show ?thesis by (simp add: sift_down.simps)
  next
    case False
    note b = largest_of_bound [OF False]
    have "elt (swap_elts xs i ?mx) k = elt xs k" if "k > cnt" for k
      using b that "1.prems" by (subst elt_swap_elts) auto
    moreover have "mset (swap_elts xs i ?mx) = mset xs"
      using b "1.prems" by (intro mset_swap_elts) auto
    ultimately show ?thesis
      using "1.IH" [OF refl False] "1.prems" b False by (simp add: sift_down.simps [of compare xs] Let_def)
  qed
qed

lemma sift_down_take_drop:
  assumes "1 \<le> i" and "cnt \<le> length xs"
  shows "mset (take cnt (sift_down compare xs i cnt)) = mset (take cnt xs)"
    and "drop cnt (sift_down compare xs i cnt) = drop cnt xs"
proof -
  let ?ys = "sift_down compare xs i cnt"
  note fr = sift_down_frame [OF assms, of compare]
  show d: "drop cnt ?ys = drop cnt xs"
  proof (rule nth_equalityI)
    fix k assume "k < length (drop cnt ?ys)"
    then show "drop cnt ?ys ! k = drop cnt xs ! k"
      using fr [THEN conjunct2, THEN conjunct2, rule_format, of "Suc (cnt + k)"] fr assms(2) by simp
  qed (use fr in simp)
  have "mset (take cnt ?ys) + mset (drop cnt ?ys) = mset (take cnt xs) + mset (drop cnt xs)"
    using fr by (metis append_take_drop_id mset_append)
  then show "mset (take cnt ?ys) = mset (take cnt xs)"
    using d by simp
qed

lemma heapify_one:
  "cnt \<le> length xs \<Longrightarrow> length xs < 2 ^ 31 \<Longrightarrow> cnt \<noteq> 0 \<Longrightarrow> heapify compare xs 1 cnt = Some (sift_down compare xs 1 cnt)"
  by (rule heapify_sift_down) auto

lemma build_heap_sift_all:
  assumes "i \<le> cnt" and "cnt = length xs" and "length xs < 2 ^ 31"
  shows "build_heap compare xs cnt i = Some (sift_all compare xs cnt i)"
  using assms
proof (induction i arbitrary: xs)
  case (Suc i)
  have "length (sift_down compare xs (Suc i) cnt) = length xs"
    using sift_down_frame [of "Suc i" cnt xs compare] Suc.prems by simp
  then show ?case
    using heapify_sift_down [of "Suc i" cnt xs compare] Suc.IH [of "sift_down compare xs (Suc i) cnt"] Suc.prems by simp
qed simp

lemma sort_heap_extract_all:
  assumes "n \<le> length xs" and "length xs < 2 ^ 31"
  shows "sort_heap compare xs n = Some (extract_all compare xs n)"
  using assms
proof (induction n arbitrary: xs)
  case (Suc i)
  show ?case
  proof (cases "Suc i > 1")
    case True
    let ?ys = "swap_elts xs 1 (Suc i)"
    have "do_swap xs 1 (Suc i) = Some ?ys"
      using Suc.prems by (intro do_swap_elts) (auto simp: in_array_def)
    moreover have "heapify compare ?ys 1 i = Some (sift_down compare ?ys 1 i)"
      using Suc.prems True by (intro heapify_one) auto
    moreover have "length (sift_down compare ?ys 1 i) = length xs"
      using sift_down_frame [of 1 i ?ys compare] Suc.prems by simp
    ultimately show ?thesis
      using Suc.IH [of "sift_down compare ?ys 1 i"] Suc.prems True by simp
  qed simp
qed simp

section \<open>Heap order\<close>

locale compare_func =
  fixes compare :: "'a compare"
  assumes compare_refl: "compare a a = 0"
    and compare_swap: "0 < compare a b \<longleftrightarrow> compare b a < 0"
    and compare_trans: "compare a b \<le> 0 \<Longrightarrow> compare b c \<le> 0 \<Longrightarrow> compare a c \<le> 0"
begin

definition le :: "'a \<Rightarrow> 'a \<Rightarrow> bool" where
  "le a b \<longleftrightarrow> compare a b \<le> 0"

lemma le_refl [simp]: "le a a"
  by (simp add: le_def compare_refl)

lemma le_trans: "le a b \<Longrightarrow> le b c \<Longrightarrow> le a c"
  unfolding le_def by (rule compare_trans)

lemma compare_pos: "0 < compare a b \<longleftrightarrow> \<not> le a b"
  by (simp add: le_def not_le)

lemma not_le_le: "\<not> le a b \<Longrightarrow> le b a"
  using compare_swap [of a b] by (simp add: le_def)

text \<open>\<open>parent_ok xs cnt k\<close>: node \<open>k\<close> is not smaller than its children.\<close>

definition parent_ok :: "'a list \<Rightarrow> nat \<Rightarrow> nat \<Rightarrow> bool" where
  "parent_ok xs cnt k \<longleftrightarrow> (\<forall>c. c div 2 = k \<longrightarrow> 1 < c \<longrightarrow> c \<le> cnt \<longrightarrow> le (elt xs c) (elt xs k))"

definition heap_from :: "'a list \<Rightarrow> nat \<Rightarrow> nat \<Rightarrow> bool" where
  "heap_from xs cnt lo \<longleftrightarrow> (\<forall>k\<ge>lo. 1 \<le> k \<longrightarrow> parent_ok xs cnt k)"

text \<open>A heap except at node \<open>i\<close>, whose children are still below the parent of \<open>i\<close>.\<close>

definition heap_except :: "'a list \<Rightarrow> nat \<Rightarrow> nat \<Rightarrow> nat \<Rightarrow> bool" where
  "heap_except xs cnt lo i \<longleftrightarrow>
     (\<forall>k\<ge>lo. 1 \<le> k \<longrightarrow> k \<noteq> i \<longrightarrow> parent_ok xs cnt k) \<and>
     (\<forall>c. c div 2 = i \<longrightarrow> 1 < c \<longrightarrow> c \<le> cnt \<longrightarrow> lo \<le> i div 2 \<longrightarrow> 1 \<le> i div 2 \<longrightarrow> le (elt xs c) (elt xs (i div 2)))"

lemma largest_of_max:
  fixes xs i cnt
  assumes "1 \<le> i"
  defines "mx \<equiv> largest_of compare xs i cnt"
  shows "mx = i \<or> mx div 2 = i \<and> i < mx \<and> mx \<le> cnt" and "le (elt xs i) (elt xs mx)"
    and "c div 2 = i \<Longrightarrow> 1 < c \<Longrightarrow> c \<le> cnt \<Longrightarrow> le (elt xs c) (elt xs mx)"
proof -
  have c2: "c div 2 = i \<Longrightarrow> c = 2 * i \<or> c = 2 * i + 1" for c
    by auto
  show "mx = i \<or> mx div 2 = i \<and> i < mx \<and> mx \<le> cnt"
    using assms by (auto simp: mx_def largest_of_def Let_def)
  show "le (elt xs i) (elt xs mx)"
    unfolding mx_def largest_of_def Let_def compare_elts_def compare_pos
    by (auto intro: le_trans not_le_le)
  show "le (elt xs c) (elt xs mx)" if "c div 2 = i" "1 < c" "c \<le> cnt"
    using c2 [OF that(1)] that(3)
    unfolding mx_def largest_of_def Let_def compare_elts_def compare_pos
    by (auto intro: le_trans not_le_le)
qed

lemma sift_down_heap:
  assumes "1 \<le> i" and "lo \<le> i" and "cnt \<le> length xs" and "heap_except xs cnt lo i"
  shows "heap_from (sift_down compare xs i cnt) cnt lo"
  using assms
proof (induction "Suc cnt - i" arbitrary: xs i rule: less_induct)
  case less
  let ?mx = "largest_of compare xs i cnt"
  note mx = largest_of_max [where xs = xs and i = i and cnt = cnt, OF less.prems(1)]
  have ok: "parent_ok xs cnt k" if "lo \<le> k" "1 \<le> k" "k \<noteq> i" for k
    using less.prems(4) that by (simp add: heap_except_def)
  show ?case
  proof (cases "?mx = i")
    case True
    then have "parent_ok xs cnt i"
      using mx(3) by (simp add: parent_ok_def)
    then have "heap_from xs cnt lo"
      unfolding heap_from_def using ok by metis
    then show ?thesis
      using True by (simp add: sift_down.simps)
  next
    case False
    then have m: "?mx div 2 = i" "i < ?mx" "?mx \<le> cnt"
      using mx(1) by auto
    let ?ys = "swap_elts xs i ?mx"
    have e: "elt ?ys k = (if k = ?mx then elt xs i else if k = i then elt xs ?mx else elt xs k)" if "1 \<le> k" for k
      using m less.prems(1,3) that by (intro elt_swap_elts) auto
    have "heap_except ?ys cnt lo ?mx"
      unfolding heap_except_def
    proof (intro conjI allI impI)
      fix k assume k: "lo \<le> k" "1 \<le> k" "k \<noteq> ?mx"
      show "parent_ok ?ys cnt k"
        unfolding parent_ok_def
      proof (intro allI impI)
        fix c assume c: "c div 2 = k" "1 < c" "c \<le> cnt"
        then have "c \<noteq> k" by auto
        show "le (elt ?ys c) (elt ?ys k)"
        proof (cases "k = i")
          case True
          then have "le (elt xs c) (elt xs ?mx)"
            using mx(3) c by blast
          then show ?thesis
            using e [of c] e [of k] True mx(2) c(2) k \<open>c \<noteq> k\<close> m by simp
        next
          case False
          then have "le (elt xs c) (elt xs k)"
            using ok [OF k(1,2)] c by (simp add: parent_ok_def)
          moreover have "le (elt xs ?mx) (elt xs k)" if "c = i"
            using less.prems(4) that m c k less.prems(1) unfolding heap_except_def by auto
          moreover have "c \<noteq> ?mx"
            using m(1) c(1) False by auto
          ultimately show ?thesis
            using e [of c] e [of k] False k c(2) by simp
        qed
      qed
    next
      fix c assume c: "c div 2 = ?mx" "1 < c" "c \<le> cnt"
      have "le (elt xs c) (elt xs ?mx)"
        using ok [of ?mx] m less.prems(1,2) c by (simp add: parent_ok_def)
      moreover have "c \<noteq> ?mx" "c \<noteq> i"
        using c m by auto
      ultimately show "le (elt ?ys c) (elt ?ys (?mx div 2))"
        using e [of c] e [of i] c(2) m less.prems(1) by simp
    qed
    then have "heap_from (sift_down compare ?ys ?mx cnt) cnt lo"
      using m less.prems by (intro less.hyps) auto
    then show ?thesis
      using False by (simp add: sift_down.simps [of compare xs] Let_def)
  qed
qed

lemma sift_all_correct:
  assumes "i \<le> cnt div 2" and "cnt = length xs" and "heap_from xs cnt (Suc i)"
  shows "heap_from (sift_all compare xs cnt i) cnt 1 \<and> mset (sift_all compare xs cnt i) = mset xs \<and>
         length (sift_all compare xs cnt i) = length xs"
  using assms
proof (induction i arbitrary: xs)
  case (Suc i)
  let ?ys = "sift_down compare xs (Suc i) cnt"
  have "heap_except xs cnt (Suc i) (Suc i)"
    using Suc.prems(3) by (auto simp: heap_except_def heap_from_def)
  then have "heap_from ?ys cnt (Suc i)"
    using Suc.prems by (intro sift_down_heap) auto
  moreover have "mset ?ys = mset xs" "length ?ys = length xs"
    using sift_down_frame [of "Suc i" cnt xs compare] Suc.prems by auto
  ultimately show ?case
    using Suc.IH [of ?ys] Suc.prems by simp
qed simp

text \<open>The root of a heap is its maximum.\<close>

lemma heap_root:
  assumes "heap_from xs cnt 1" and "1 \<le> k" and "k \<le> cnt"
  shows "le (elt xs k) (elt xs 1)"
  using assms(2,3)
proof (induction k rule: less_induct)
  case (less k)
  show ?case
  proof (cases "k = 1")
    case False
    then have k: "1 \<le> k div 2" "k div 2 < k"
      using less.prems by auto
    have "le (elt xs k) (elt xs (k div 2))"
      using assms(1) k less.prems False by (auto simp: heap_from_def parent_ok_def)
    then show ?thesis
      using less.IH [OF k(2,1)] k(2) less.prems(2) le_trans by (meson le_trans order.trans less_imp_le)
  qed simp
qed

lemma extract_all_correct:
  assumes "n \<le> length xs" and "heap_from xs n 1" and "sorted_wrt le (drop n xs)"
    and "\<And>x y. x \<in> set (take n xs) \<Longrightarrow> y \<in> set (drop n xs) \<Longrightarrow> le x y"
  shows "sorted_wrt le (extract_all compare xs n) \<and> mset (extract_all compare xs n) = mset xs"
  using assms
proof (induction n arbitrary: xs)
  case (Suc i)
  show ?case
  proof (cases "Suc i > 1")
    case False
    then have i: "i = 0" by simp
    obtain x ys where xs: "xs = x # ys"
      using Suc.prems(1) by (cases xs) auto
    have "sorted_wrt le ys" "\<forall>y\<in>set ys. le x y"
      using Suc.prems(3,4) by (auto simp: xs i)
    then show ?thesis
      using False by (simp add: xs)
  next
    case True
    let ?ys = "swap_elts xs 1 (Suc i)"
    let ?zs = "sift_down compare ?ys 1 i"
    have ys: "?ys = xs[0 := xs ! i, i := xs ! 0]" and len: "i < length xs"
      using Suc.prems(1) by (simp_all add: swap_elts_def)
    have root: "le x (xs ! 0)" if "x \<in> set (take (Suc i) xs)" for x
    proof -
      obtain k where "k < Suc i" "x = xs ! k"
        using \<open>x \<in> set (take (Suc i) xs)\<close> by (auto simp: in_set_conv_nth)
      then show ?thesis
        using heap_root [OF Suc.prems(2), of "Suc k"] by simp
    qed
    have "heap_except ?ys i 1 1"
    proof -
      have "parent_ok ?ys i k" if "1 \<le> k" "k \<noteq> 1" for k
        unfolding parent_ok_def
      proof (intro allI impI)
        fix c assume c: "c div 2 = k" "1 < c" "c \<le> i"
        then have "le (elt xs c) (elt xs k)"
          using Suc.prems(2) that by (simp add: heap_from_def parent_ok_def)
        moreover have "elt ?ys c = elt xs c" "elt ?ys k = elt xs k"
          using c that len by (subst elt_swap_elts; auto)+
        ultimately show "le (elt ?ys c) (elt ?ys k)" by simp
      qed
      then show ?thesis by (simp add: heap_except_def)
    qed
    then have heap: "heap_from ?zs i 1"
      using len by (intro sift_down_heap) auto
    have td: "mset (take i ?zs) = mset (take i ?ys)" "drop i ?zs = drop i ?ys" "mset ?zs = mset ?ys" "length ?zs = length xs"
      using sift_down_take_drop [of 1 i ?ys compare] sift_down_frame [of 1 i ?ys compare] len by auto
    have dr: "drop i ?ys = xs ! 0 # drop (Suc i) xs"
      unfolding ys using len True by (simp add: Cons_nth_drop_Suc [symmetric])
    have "set (take i ?ys) \<subseteq> set (take (Suc i) xs)"
    proof -
      have "take i ?ys = (take i xs)[0 := xs ! i]"
        unfolding ys by (simp add: take_update_swap list_update_beyond)
      then show ?thesis
        using set_update_subset_insert [of "take i xs" 0 "xs ! i"] len by (auto simp: take_Suc_conv_app_nth)
    qed
    then have tk: "set (take i ?zs) \<subseteq> set (take (Suc i) xs)"
      using td(1) by (metis set_mset_mset)
    have hd: "xs ! 0 \<in> set (take (Suc i) xs)"
      using len by (cases xs) auto
    have "sorted_wrt le (drop i ?zs)"
      using td(2) dr Suc.prems(3,4) hd by auto
    moreover have "le x y" if "x \<in> set (take i ?zs)" "y \<in> set (drop i ?zs)" for x y
      using that tk td(2) dr root Suc.prems(4) by auto
    ultimately have "sorted_wrt le (extract_all compare ?zs i) \<and> mset (extract_all compare ?zs i) = mset ?zs"
      using heap len td(4) by (intro Suc.IH) auto
    moreover have "mset ?ys = mset xs"
      using len by (intro mset_swap_elts) auto
    ultimately show ?thesis
      using True td(3) by simp
  qed
qed simp

lemma sort_c_correct:
  assumes "array \<noteq> NULL \<or> xs = []" and "0 < sz" and "length xs < 2 ^ 31"
  shows "\<exists>ys. sort_c array xs sz (Some compare) = Some ys \<and> sorted_wrt le ys \<and> mset ys = mset xs"
proof -
  let ?n = "length xs"
  let ?h = "sift_all compare xs ?n (?n div 2)"
  have "heap_from xs ?n (Suc (?n div 2))"
    by (auto simp: heap_from_def parent_ok_def)
  then have h: "heap_from ?h ?n 1 \<and> mset ?h = mset xs \<and> length ?h = ?n"
    by (intro sift_all_correct) auto
  then have "sorted_wrt le (extract_all compare ?h ?n) \<and> mset (extract_all compare ?h ?n) = mset ?h"
    by (intro extract_all_correct) auto
  moreover have "sort_c array xs sz (Some compare) = Some (extract_all compare ?h ?n)"
    using build_heap_sift_all [of "?n div 2" ?n xs compare] sort_heap_extract_all [of ?n ?h compare] h assms
    by (simp add: sort_c_def Let_def)
  ultimately show ?thesis using h by simp
qed

end

section \<open>Binary search\<close>

text \<open>
  The key is found when the elements up to some point compare below it and those from some point on
  compare above it: then every probe leaves the matches between \<open>fst_i\<close> and \<open>lst_i\<close>.
\<close>

definition search_ordered :: "('k \<Rightarrow> 'a \<Rightarrow> int) \<Rightarrow> 'k \<Rightarrow> 'a list \<Rightarrow> bool" where
  "search_ordered compare key xs \<longleftrightarrow>
     (\<forall>i j. i < j \<longrightarrow> j < length xs \<longrightarrow>
        (compare key (xs ! j) > 0 \<longrightarrow> compare key (xs ! i) > 0) \<and>
        (compare key (xs ! i) < 0 \<longrightarrow> compare key (xs ! j) < 0))"

lemma binary_search_loop_correct:
  assumes "search_ordered compare key xs" and "lst_i \<le> length xs"
    and "\<forall>k < length xs. compare key (xs ! k) = 0 \<longrightarrow> fst_i \<le> k \<and> k < lst_i"
  shows "case binary_search_loop compare key xs fst_i lst_i of
           None \<Rightarrow> \<forall>k < length xs. compare key (xs ! k) \<noteq> 0
         | Some k \<Rightarrow> k < length xs \<and> compare key (xs ! k) = 0"
  using assms
proof (induction compare key xs fst_i lst_i rule: binary_search_loop.induct)
  case (1 compare key xs f l)
  show ?case
  proof (cases "f < l")
    case False
    then show ?thesis
      using "1.prems"(3) by (subst binary_search_loop.simps) auto
  next
    case True
    let ?m = "f + (l - f) div 2"
    have m: "f \<le> ?m" "?m < l" "?m < length xs"
      using True "1.prems"(2) by auto
    have ord: "compare key (xs ! j) > 0 \<Longrightarrow> compare key (xs ! i) > 0" "compare key (xs ! i) < 0 \<Longrightarrow> compare key (xs ! j) < 0"
      if "i < j" "j < length xs" for i j
      using "1.prems"(1) that by (simp_all add: search_ordered_def)
    consider "compare key (xs ! ?m) < 0" | "compare key (xs ! ?m) > 0" | "compare key (xs ! ?m) = 0"
      by linarith
    then show ?thesis
    proof cases
      case lt: 1
      have "\<forall>k < length xs. compare key (xs ! k) = 0 \<longrightarrow> f \<le> k \<and> k < ?m"
        using "1.prems"(3) ord(2) [of ?m] lt by (metis linorder_neqE_nat order_less_irrefl)
      then show ?thesis
        using "1.IH"(1) [OF True refl refl refl lt] "1.prems"(1) m True lt
        by (subst binary_search_loop.simps) (simp add: Let_def)
    next
      case gt: 2
      have "\<forall>k < length xs. compare key (xs ! k) = 0 \<longrightarrow> ?m + 1 \<le> k \<and> k < l"
        using "1.prems"(3) ord(1) [of _ ?m] gt m(3) by (metis Suc_eq_plus1 Suc_leI linorder_neqE_nat order_less_irrefl)
      then show ?thesis
        using "1.IH"(2) [OF True refl refl refl _ gt] "1.prems"(1,2) True gt
        by (subst binary_search_loop.simps) (simp add: Let_def)
    next
      case eq: 3
      then show ?thesis
        using True m by (subst binary_search_loop.simps) (simp add: Let_def)
    qed
  qed
qed

lemma binary_search_correct:
  "search_ordered compare key xs \<Longrightarrow>
   (case binary_search compare key xs of
      None \<Rightarrow> \<forall>k < length xs. compare key (xs ! k) \<noteq> 0
    | Some k \<Rightarrow> k < length xs \<and> compare key (xs ! k) = 0)"
  unfolding binary_search_def by (rule binary_search_loop_correct) auto

section \<open>Properties\<close>

text \<open>Byte strings in the order of \<open>strcmp\<close>.\<close>

lemma lex_cmp_swap: "0 < lex_cmp s t \<longleftrightarrow> lex_cmp t s < 0"
  by (induction s t rule: lex_cmp.induct) auto

lemma lex_cmp_trans: "lex_cmp s t \<le> 0 \<Longrightarrow> lex_cmp t u \<le> 0 \<Longrightarrow> lex_cmp s u \<le> 0"
proof (induction s arbitrary: t u)
  case Nil
  then show ?case by (cases u) auto
next
  case (Cons a s)
  then show ?case by (cases t; cases u) (auto split: if_splits)
qed

interpretation strings: compare_func lex_cmp
  by unfold_locales (auto simp: lex_cmp_zero lex_cmp_swap intro: lex_cmp_trans)

text \<open>
  C12: the in-place heap sort behind \<open>qsort\<close> ends, without leaving the array, with a sorted
  permutation of an array of fewer than \<open>2 ^ 31\<close> elements, for every comparison function that is a
  total preorder.  An assertion fails for a null array that is not empty and for elements of no bytes.
\<close>

theorem qsort_sorts:
  assumes "compare_func compare" and "length xs < 2 ^ 31"
  shows "if (array = NULL \<and> xs \<noteq> []) \<or> sz = 0 then qsort array xs sz compare = None
     else (\<exists>ys. qsort array xs sz compare = Some ys \<and> sorted_wrt (\<lambda>a b. compare a b \<le> 0) ys \<and> mset ys = mset xs)"
proof -
  have "compare_func.le compare = (\<lambda>a b. compare a b \<le> 0)"
    by (simp add: fun_eq_iff compare_func.le_def [OF assms(1)])
  moreover have "compare_thunk compare = compare"
    by (simp add: fun_eq_iff compare_thunk_def)
  ultimately show ?thesis
    using compare_func.sort_c_correct [OF assms(1), of array xs sz] assms(2)
    by (auto simp: qsort_def sort_c_def ASSERT_def)
qed

theorem qsort_sorts_witness:
  "compare_func lex_cmp \<and>
   (\<exists>ys. qsort 4096 [[3], [1, 2], [], [1]] 4 lex_cmp = Some ys \<and>
      sorted_wrt (\<lambda>a b. lex_cmp a b \<le> 0) ys \<and> mset ys = {#[3], [1, 2], [], [1]#})"
  using qsort_sorts [OF strings.compare_func_axioms, of "[[3], [1, 2], [], [1]]" 4096 4] strings.compare_func_axioms
  by simp

text \<open>
  C13: binary search on an array in the order of the comparison returns the position of a match
  exactly when there is one.
\<close>

theorem bsearch_finds:
  assumes "search_ordered compare key xs"
  shows "case bsearch compare key xs of
           None \<Rightarrow> \<forall>k < length xs. compare key (xs ! k) \<noteq> 0
         | Some k \<Rightarrow> k < length xs \<and> compare key (xs ! k) = 0"
  unfolding bsearch_def using assms by (rule binary_search_correct)

theorem bsearch_finds_witness:
  "bsearch (\<lambda>k x :: int. k - x) 5 [1, 5, 9] = Some 1 \<and> bsearch (\<lambda>k x :: int. k - x) 4 [1, 5, 9] = None"
proof -
  have o: "search_ordered (\<lambda>k x :: int. k - x) k [1, 5, 9]" for k
    unfolding search_ordered_def by (auto simp: less_Suc_eq numeral_3_eq_3)
  show ?thesis
    using bsearch_finds [OF o, of 5] bsearch_finds [OF o, of 4]
    by (auto simp: less_Suc_eq numeral_3_eq_3 split: option.splits)
qed

end
