(* ===== verification/Random_C.thy ===== *)
theory Random_C
  imports Pintos_Prelude
begin

text \<open>
  The RC4-based pseudo-random number generator of \<open>src/src/lib/random.c\<close>.
\<close>

section \<open>State and routines\<close>

record rc4 =
  rc4_s :: "u8 list"
  rc4_i :: u8
  rc4_j :: u8
  inited :: bool

definition swap_byte :: "u8 list \<Rightarrow> u8 \<Rightarrow> u8 \<Rightarrow> u8 list" where
  "swap_byte s a b = s[unat a := s ! unat b, unat b := s ! unat a]"

text \<open>Byte \<open>i\<close> of the seed in memory; the target is little endian.\<close>

definition seed_byte :: "u32 \<Rightarrow> nat \<Rightarrow> u8" where
  "seed_byte seed i = ucast (drop_bit (8 * i) seed)"

text \<open>The key-scheduling loop from index \<open>i\<close> on, with \<open>n\<close> iterations left.\<close>

primrec random_init_loop :: "u32 \<Rightarrow> u8 list \<Rightarrow> u8 \<Rightarrow> nat \<Rightarrow> nat \<Rightarrow> u8 list" where
  "random_init_loop seed s j i 0 = s"
| "random_init_loop seed s j i (Suc n) =
     (let j = j + s ! i + seed_byte seed (i mod 4)
      in random_init_loop seed (swap_byte s (word_of_nat i) j) j (i + 1) n)"

text \<open>The array after the loop \<open>s[i] = i\<close>.\<close>

definition identity_bytes :: "u8 list" where
  "identity_bytes = map word_of_nat [0..<256]"

definition random_init :: "u32 \<Rightarrow> rc4 \<Rightarrow> rc4" where
  "random_init seed r =
     (if inited r then r
      else
        let s = identity_bytes;
            s = random_init_loop seed s 0 0 256
        in \<lparr>rc4_s = s, rc4_i = 0, rc4_j = 0, inited = True\<rparr>)"

primrec random_bytes_loop :: "nat \<Rightarrow> rc4 \<Rightarrow> u8 list \<times> rc4" where
  "random_bytes_loop 0 r = ([], r)"
| "random_bytes_loop (Suc sz) r =
     (let i = rc4_i r + 1;
          j = rc4_j r + rc4_s r ! unat i;
          s = swap_byte (rc4_s r) i j;
          k = s ! unat i + s ! unat j;
          (bs, r) = random_bytes_loop sz (r\<lparr>rc4_s := s, rc4_i := i, rc4_j := j\<rparr>)
      in (s ! unat k # bs, r))"

definition random_bytes :: "nat \<Rightarrow> rc4 \<Rightarrow> u8 list \<times> rc4" where
  "random_bytes sz r =
     (let r = (if \<not> inited r then random_init 0 r else r) in random_bytes_loop sz r)"

definition random_ulong :: "rc4 \<Rightarrow> u32 \<times> rc4" where
  "random_ulong r =
     (let (bs, r) = random_bytes 4 r
      in (ucast (bs ! 0) + push_bit 8 (ucast (bs ! 1)) + push_bit 16 (ucast (bs ! 2)) + push_bit 24 (ucast (bs ! 3)), r))"

section \<open>The RC4 key stream\<close>

text \<open>
  The cipher as it is published, on numbers below 256: the key schedule starts from the identity and
  makes one exchange per index; every byte of the stream makes one more exchange and is read at the
  sum of the two entries exchanged.  \<open>key k\<close> is byte \<open>k\<close> of the key, which has four.
\<close>

definition exchange :: "(nat \<Rightarrow> nat) \<Rightarrow> nat \<Rightarrow> nat \<Rightarrow> nat \<Rightarrow> nat" where
  "exchange S a b = S(a := S b, b := S a)"

primrec key_schedule :: "(nat \<Rightarrow> nat) \<Rightarrow> nat \<Rightarrow> (nat \<Rightarrow> nat) \<times> nat" where
  "key_schedule key 0 = (\<lambda>x. x, 0)"
| "key_schedule key (Suc i) =
     (let (S, j) = key_schedule key i; j' = (j + S i + key (i mod 4)) mod 256 in (exchange S i j', j'))"

primrec stream_state :: "(nat \<Rightarrow> nat) \<Rightarrow> nat \<Rightarrow> (nat \<Rightarrow> nat) \<times> nat" where
  "stream_state key 0 = (fst (key_schedule key 256), 0)"
| "stream_state key (Suc n) =
     (let (S, j) = stream_state key n; i = Suc n mod 256; j' = (j + S i) mod 256 in (exchange S i j', j'))"

definition key_stream :: "(nat \<Rightarrow> nat) \<Rightarrow> nat \<Rightarrow> nat" where
  "key_stream key n = (let (S, j) = stream_state key (Suc n); i = Suc n mod 256 in S ((S i + S j) mod 256))"

definition seed_key :: "u32 \<Rightarrow> nat \<Rightarrow> nat" where
  "seed_key seed k = unat (seed_byte seed k)"

text \<open>The array \<open>s\<close> holds the permutation \<open>S\<close>.\<close>

definition array_of :: "u8 list \<Rightarrow> (nat \<Rightarrow> nat) \<Rightarrow> bool" where
  "array_of s S \<longleftrightarrow> length s = 256 \<and> (\<forall>x<256. unat (s ! x) = S x)"

lemma unat_u8_less: "unat (b :: u8) < 256"
  using unsigned_less [of b, where 'a = nat] by simp

lemma unat_u8_plus: "unat (a + b :: u8) = (unat a + unat b) mod 256"
  by (simp add: unat_word_ariths)

lemma array_of_swap:
  assumes "array_of s S"
  shows "array_of (swap_byte s a b) (exchange S (unat a) (unat b))"
  using assms unat_u8_less [of a] unat_u8_less [of b]
  by (auto simp: array_of_def swap_byte_def exchange_def nth_list_update)

lemma random_init_loop_schedule:
  assumes "array_of s (fst (key_schedule (seed_key seed) i))" and "unat j = snd (key_schedule (seed_key seed) i)"
    and "i + n = 256"
  shows "array_of (random_init_loop seed s j i n) (fst (key_schedule (seed_key seed) 256))"
  using assms
proof (induction n arbitrary: s j i)
  case (Suc n)
  obtain S J where SJ: "key_schedule (seed_key seed) i = (S, J)" by fastforce
  define j' where "j' = j + s ! i + seed_byte seed (i mod 4)"
  have "unat (s ! i) = S i" using Suc.prems(1,3) SJ by (simp add: array_of_def)
  moreover have "unat j = J" using Suc.prems(2) SJ by simp
  ultimately have j': "unat j' = (J + S i + seed_key seed (i mod 4)) mod 256"
    by (simp add: j'_def unat_u8_plus seed_key_def [of seed "i mod 4"] mod_add_left_eq)
  have "unat (word_of_nat i :: u8) = i" using Suc.prems(3) by (simp add: unat_of_nat)
  then have "array_of (swap_byte s (word_of_nat i) j') (exchange S i (unat j'))"
    using array_of_swap [of s S "word_of_nat i" j'] Suc.prems(1) SJ by simp
  then have "array_of (random_init_loop seed (swap_byte s (word_of_nat i) j') j' (Suc i) n) (fst (key_schedule (seed_key seed) 256))"
    using Suc.prems(3) SJ j' by (intro Suc.IH) (simp_all add: Let_def)
  then show ?case by (simp add: j'_def Let_def)
next
  case 0
  then show ?case by simp
qed

text \<open>The generator after \<open>n\<close> bytes.\<close>

definition at_byte :: "(nat \<Rightarrow> nat) \<Rightarrow> nat \<Rightarrow> rc4 \<Rightarrow> bool" where
  "at_byte key n r \<longleftrightarrow> inited r \<and> array_of (rc4_s r) (fst (stream_state key n)) \<and> unat (rc4_i r) = n mod 256 \<and>
     unat (rc4_j r) = snd (stream_state key n)"

lemma random_init_at:
  assumes "\<not> inited r"
  shows "at_byte (seed_key seed) 0 (random_init seed r)"
proof -
  have "identity_bytes ! x = word_of_nat x" if "x < 256" for x
    using that unfolding identity_bytes_def by (subst nth_map) (simp_all only: length_upt nth_upt add_0 diff_zero)
  then have "array_of identity_bytes (\<lambda>x. x)"
    by (simp add: array_of_def identity_bytes_def unat_of_nat)
  then show ?thesis
    using assms random_init_loop_schedule [of identity_bytes seed 0 0 256]
    by (simp add: random_init_def at_byte_def Let_def)
qed

lemma random_bytes_loop_stream:
  assumes "at_byte key n r"
  shows "map unat (fst (random_bytes_loop sz r)) = map (key_stream key) [n..<n + sz] \<and>
    at_byte key (n + sz) (snd (random_bytes_loop sz r))"
  using assms
proof (induction sz arbitrary: n r)
  case (Suc sz)
  obtain S J where SJ: "stream_state key n = (S, J)" by fastforce
  define i where "i = rc4_i r + 1"
  define j where "j = rc4_j r + rc4_s r ! unat i"
  define s where "s = swap_byte (rc4_s r) i j"
  define r' where "r' = r\<lparr>rc4_s := s, rc4_i := i, rc4_j := j\<rparr>"
  have i: "unat i = Suc n mod 256" using Suc.prems by (simp add: at_byte_def i_def unat_u8_plus mod_Suc_eq)
  then have "unat (rc4_s r ! unat i) = S (Suc n mod 256)" using Suc.prems SJ by (simp add: at_byte_def array_of_def)
  then have j: "unat j = (J + S (Suc n mod 256)) mod 256" using Suc.prems SJ by (simp add: j_def unat_u8_plus at_byte_def)
  have s: "array_of s (exchange S (Suc n mod 256) (unat j))"
    using array_of_swap [of "rc4_s r" S i j] Suc.prems SJ i by (simp add: s_def at_byte_def)
  have at: "at_byte key (Suc n) r'"
    using Suc.prems SJ i j s by (simp add: at_byte_def r'_def Let_def)
  have nth: "unat (s ! x) = exchange S (Suc n mod 256) (unat j) x" if "x < 256" for x
    using s that by (simp add: array_of_def)
  have "unat (s ! unat (s ! unat i + s ! unat j)) = key_stream key n"
    using SJ i j unat_u8_less by (simp add: nth unat_u8_plus key_stream_def Let_def)
  moreover have "fst (random_bytes_loop (Suc sz) r) = s ! unat (s ! unat i + s ! unat j) # fst (random_bytes_loop sz r')"
    "snd (random_bytes_loop (Suc sz) r) = snd (random_bytes_loop sz r')"
    by (simp_all add: Let_def case_prod_unfold s_def i_def j_def r'_def)
  moreover have "[n..<n + Suc sz] = n # [Suc n..<Suc n + sz]" by (simp add: upt_rec)
  ultimately show ?case using Suc.IH [OF at] by simp
next
  case 0
  then show ?case by simp
qed

section \<open>Properties\<close>

text \<open>The static variables before the generator is used, and a sequence of requests.\<close>

definition rc4_boot :: rc4 where
  "rc4_boot = \<lparr>rc4_s = replicate 256 0, rc4_i = 0, rc4_j = 0, inited = False\<rparr>"

primrec requests :: "nat list \<Rightarrow> rc4 \<Rightarrow> u8 list" where
  "requests [] r = []"
| "requests (n # ns) r = (let (bs, r) = random_bytes n r in bs @ requests ns r)"

lemma requests_stream:
  "at_byte key n r \<Longrightarrow> map unat (requests ns r) = map (key_stream key) [n..<n + sum_list ns]"
proof (induction ns arbitrary: n r)
  case (Cons m ns)
  have r: "random_bytes m r = random_bytes_loop m r" using Cons.prems by (simp add: random_bytes_def at_byte_def)
  note st = random_bytes_loop_stream [OF Cons.prems, of m]
  have "[n..<n + (m + sum_list ns)] = [n..<n + m] @ [n + m..<n + m + sum_list ns]"
    using upt_add_eq_append [of n "n + m" "sum_list ns"] by (simp add: add.assoc)
  then show ?case
    using Cons.IH [OF conjunct2 [OF st]] st by (simp add: r case_prod_unfold Let_def)
qed simp

text \<open>
  C14: the generator is RC4.  After \<open>random_init\<close> with a seed, any sequence of requests returns,
  together, the beginning of the RC4 key stream for the four bytes of the seed, however the bytes are
  divided into requests; without initialization it is the stream for seed 0.
\<close>

theorem random_bytes_rc4:
  "map unat (requests ns (random_init seed rc4_boot)) = map (key_stream (seed_key seed)) [0..<sum_list ns] \<and>
   map unat (requests ns rc4_boot) = map (key_stream (seed_key 0)) [0..<sum_list ns]"
proof
  have b: "\<not> inited rc4_boot" by (simp add: rc4_boot_def)
  show seeded: "map unat (requests ns (random_init seed rc4_boot)) = map (key_stream (seed_key seed)) [0..<sum_list ns]" for seed
    using requests_stream [OF random_init_at [OF b, of seed], of ns] by simp
  have "requests ns rc4_boot = requests ns (random_init 0 rc4_boot)"
    using random_init_at [OF b, of 0] b by (cases ns) (simp_all add: random_bytes_def at_byte_def)
  then show "map unat (requests ns rc4_boot) = map (key_stream (seed_key 0)) [0..<sum_list ns]"
    using seeded [of 0] by simp
qed

text \<open>
  The comment of \<open>random_init\<close> says that it initialises or reinitialises the generator; once the
  generator is initialised the call has no effect, whatever the seed.
\<close>

lemma random_init_no_reinit: "inited r \<Longrightarrow> random_init seed r = r"
  by (simp add: random_init_def)

end
