(* ===== verification/Pairing_Heap.thy ===== *)
theory Pairing_Heap
  imports Klist_Sort
begin

text \<open>
  The pairing heap of \<open>src/src/lib/kernel/heap.c\<close>, at the level of the pointers.  The children of an
  element form a list linked through \<open>sibling\<close>.  \<open>forest h p ts\<close> says that the sibling list at \<open>p\<close>
  represents the trees \<open>ts\<close>; the routines are proved to implement a priority queue of the multiset of
  elements.
\<close>

section \<open>Routines\<close>

record heap_elem =
  child :: addr
  sibling :: addr

type_synonym nheap = "addr \<Rightarrow> heap_elem"

record pheap =
  hsize :: nat
  top :: addr

definition set_child :: "addr \<Rightarrow> addr \<Rightarrow> nheap \<Rightarrow> nheap" where
  "set_child a v h = h(a := (h a)\<lparr>child := v\<rparr>)"

definition set_sibling :: "addr \<Rightarrow> addr \<Rightarrow> nheap \<Rightarrow> nheap" where
  "set_sibling a v h = h(a := (h a)\<lparr>sibling := v\<rparr>)"

definition heap_init :: pheap where
  "heap_init = \<lparr>hsize = 0, top = NULL\<rparr>"

definition meld :: "less_fun \<Rightarrow> addr \<Rightarrow> addr \<Rightarrow> nheap \<Rightarrow> addr \<times> nheap" where
  "meld lt x y h =
     (if x = NULL then (y, h)
      else if y = NULL then (x, h)
      else
        let (x, y) = (if lt x y then (y, x) else (x, y));
            h = set_sibling y (child (h x)) h;
            h = set_child x y h
        in (x, h))"

partial_function (option) merge_siblings :: "less_fun \<Rightarrow> addr \<Rightarrow> nheap \<Rightarrow> (addr \<times> nheap) option" where
  "merge_siblings lt x h =
     (if x = NULL \<or> sibling (h x) = NULL then Some (x, h)
      else
        let y = sibling (h x);
            a = sibling (h y);
            h = set_sibling x NULL (set_sibling y NULL h)
        in do {
          (r, h) \<leftarrow> merge_siblings lt a h;
          let (m, h) = meld lt x y h;
          Some (meld lt r m h)
        })"

definition heap_push :: "less_fun \<Rightarrow> addr \<Rightarrow> pheap \<times> nheap \<Rightarrow> pheap \<times> nheap" where
  "heap_push lt elem = (\<lambda>(p, h).
     let h = set_child elem NULL (set_sibling elem NULL h);
         (t, h) = meld lt (top p) elem h
     in (\<lparr>hsize = size_t (hsize p + 1), top = t\<rparr>, h))"

definition heap_empty :: "pheap \<Rightarrow> bool" where
  "heap_empty p \<longleftrightarrow> hsize p = 0"

definition heap_pop :: "less_fun \<Rightarrow> pheap \<times> nheap \<Rightarrow> (addr \<times> pheap \<times> nheap) option" where
  "heap_pop lt = (\<lambda>(p, h).
     if heap_empty p then Some (NULL, p, h)
     else do {
       let t = top p;
       (r, h) \<leftarrow> merge_siblings lt (child (h t)) h;
       Some (t, \<lparr>hsize = size_t (hsize p + (2 ^ 32 - 1)), top = r\<rparr>, h)
     })"

definition heap_top :: "pheap \<Rightarrow> addr" where
  "heap_top p = top p"

definition heap_size :: "pheap \<Rightarrow> nat" where
  "heap_size p = hsize p"

section \<open>The trees a heap represents\<close>

datatype ptree = Node (root: addr) (subtrees: "ptree list")

fun forest :: "nheap \<Rightarrow> addr \<Rightarrow> ptree list \<Rightarrow> bool" where
  "forest h p [] \<longleftrightarrow> p = NULL"
| "forest h p (Node a cs # ts) \<longleftrightarrow>
     p = a \<and> a \<noteq> NULL \<and> forest h (child (h a)) cs \<and> forest h (sibling (h a)) ts"

fun nodes :: "ptree list \<Rightarrow> addr list" where
  "nodes [] = []"
| "nodes (Node a cs # ts) = a # nodes cs @ nodes ts"

lemma nodes_append [simp]: "nodes (ts @ us) = nodes ts @ nodes us"
  by (induction ts rule: nodes.induct) auto

lemma forest_frame:
  "forest h p ts \<Longrightarrow> (\<And>a. a \<in> set (nodes ts) \<Longrightarrow> h' a = h a) \<Longrightarrow> forest h' p ts"
  by (induction h p ts rule: forest.induct) auto

lemma forest_NULL: "forest h p ts \<Longrightarrow> p = NULL \<longleftrightarrow> ts = []"
  by (induction h p ts rule: forest.induct) auto

lemma forest_nodes_nonnull: "forest h p ts \<Longrightarrow> NULL \<notin> set (nodes ts)"
  by (induction h p ts rule: forest.induct) auto

lemma set_child_simps [simp]:
  "child (set_child a v h b) = (if b = a then v else child (h b))" "sibling (set_child a v h b) = sibling (h b)"
  "child (set_sibling a v h b) = child (h b)" "sibling (set_sibling a v h b) = (if b = a then v else sibling (h b))"
  by (simp_all add: set_child_def set_sibling_def)

lemma set_child_other [simp]: "b \<noteq> a \<Longrightarrow> set_child a v h b = h b" "b \<noteq> a \<Longrightarrow> set_sibling a v h b = h b"
  by (simp_all add: set_child_def set_sibling_def)

text \<open>The operations on trees; a root list has at most one tree.\<close>

fun meld_trees :: "less_fun \<Rightarrow> ptree list \<Rightarrow> ptree list \<Rightarrow> ptree list" where
  "meld_trees lt [] us = us"
| "meld_trees lt ts [] = ts"
| "meld_trees lt (Node a cs # ts) (Node b ds # us) =
     (if lt a b then [Node b (Node a cs # ds)] else [Node a (Node b ds # cs)])"

fun merge_trees :: "less_fun \<Rightarrow> ptree list \<Rightarrow> ptree list" where
  "merge_trees lt [] = []"
| "merge_trees lt [t] = [t]"
| "merge_trees lt (t # u # ts) = meld_trees lt (merge_trees lt ts) (meld_trees lt [t] [u])"

lemma length_meld_trees: "length ts \<le> 1 \<Longrightarrow> length us \<le> 1 \<Longrightarrow> length (meld_trees lt ts us) \<le> 1"
  by (induction lt ts us rule: meld_trees.induct) auto

lemma mset_meld_trees:
  "length ts \<le> 1 \<Longrightarrow> length us \<le> 1 \<Longrightarrow> mset (nodes (meld_trees lt ts us)) = mset (nodes ts) + mset (nodes us)"
  by (induction lt ts us rule: meld_trees.induct) auto

lemma length_merge_trees: "length (merge_trees lt ts) \<le> 1"
proof (induction lt ts rule: merge_trees.induct)
  case (3 lt t u ts)
  then show ?case
    using length_meld_trees [of "[t]" "[u]" lt]
      length_meld_trees [of "merge_trees lt ts" "meld_trees lt [t] [u]" lt] by simp
qed auto

lemma mset_merge_trees: "mset (nodes (merge_trees lt ts)) = mset (nodes ts)"
proof (induction lt ts rule: merge_trees.induct)
  case (3 lt t u ts)
  have "mset (nodes (t # u # ts)) = mset (nodes [t]) + mset (nodes [u]) + mset (nodes ts)"
    using nodes_append [of "[t]" "u # ts"] nodes_append [of "[u]" ts] by simp
  then show ?case
    using 3 length_meld_trees [of "[t]" "[u]" lt] length_merge_trees [of lt ts]
      mset_meld_trees [of "merge_trees lt ts" "meld_trees lt [t] [u]" lt] mset_meld_trees [of "[t]" "[u]" lt]
    by simp
qed auto

section \<open>The pointer routines implement the operations on trees\<close>

definition pframe :: "nheap \<Rightarrow> nheap \<Rightarrow> addr set \<Rightarrow> bool" where
  "pframe h h' as \<longleftrightarrow> (\<forall>a. a \<notin> as \<longrightarrow> h' a = h a)"

lemma meld_correct:
  assumes "forest h x ts" and "forest h y us" and "length ts \<le> 1" and "length us \<le> 1"
    and "distinct (nodes ts @ nodes us)"
  shows "\<exists>r h'. meld lt x y h = (r, h') \<and> forest h' r (meld_trees lt ts us) \<and>
                pframe h h' (set (nodes ts @ nodes us))"
proof (cases "ts = [] \<or> us = []")
  case True
  then show ?thesis
    using assms forest_NULL [OF assms(1)] forest_NULL [OF assms(2)]
    by (cases ts; cases us) (auto simp: meld_def pframe_def)
next
  case False
  then obtain a cs b ds where ab: "ts = [Node a cs]" "us = [Node b ds]"
    using assms(3,4) by (cases ts; cases us) (auto, metis ptree.exhaust)
  have xy: "x = a" "y = b" "a \<noteq> NULL" "b \<noteq> NULL" "a \<noteq> b" "a \<notin> set (nodes cs)" "b \<notin> set (nodes cs)"
    "a \<notin> set (nodes ds)" "b \<notin> set (nodes ds)"
    using assms(1,2,5) ab by auto
  have cs: "forest h (child (h a)) cs" "forest h (child (h b)) ds" "sibling (h a) = NULL" "sibling (h b) = NULL"
    using assms(1,2) ab by auto
  define h1 where "h1 = set_child a b (set_sibling b (child (h a)) h)"
  define h2 where "h2 = set_child b a (set_sibling a (child (h b)) h)"
  have same: "h1 c = h c" "h2 c = h c" if "c \<noteq> a" "c \<noteq> b" for c
    using that by (simp_all add: h1_def h2_def)
  have "h1 c = h c" "h2 c = h c" if "c \<in> set (nodes cs) \<or> c \<in> set (nodes ds)" for c
    using that same [of c] xy by blast+
  then have "forest h1 (child (h a)) cs" "forest h1 (child (h b)) ds" "forest h2 (child (h a)) cs" "forest h2 (child (h b)) ds"
    using forest_frame [OF cs(1)] forest_frame [OF cs(2)] by simp_all
  then have "forest h1 a [Node a (Node b ds # cs)]" "forest h2 b [Node b (Node a cs # ds)]"
    using xy cs by (simp_all add: h1_def h2_def)
  moreover have "meld lt x y h = (if lt a b then (b, h2) else (a, h1))"
    using xy by (simp add: meld_def h1_def h2_def)
  moreover have "pframe h h1 {a, b}" "pframe h h2 {a, b}"
    by (simp_all add: pframe_def h1_def h2_def)
  ultimately show ?thesis
    using ab by (auto simp: pframe_def)
qed

lemma set_nodes_merge_trees: "set (nodes (merge_trees lt ts)) = set (nodes ts)"
  by (metis mset_merge_trees set_mset_mset)

lemma merge_siblings_correct:
  assumes "forest h x ts" and "distinct (nodes ts)"
  shows "\<exists>r h'. merge_siblings lt x h = Some (r, h') \<and> forest h' r (merge_trees lt ts) \<and>
                pframe h h' (set (nodes ts))"
  using assms
proof (induction lt ts arbitrary: x h rule: merge_trees.induct)
  case (1 lt)
  then show ?case by (subst merge_siblings.simps) (simp add: pframe_def)
next
  case (2 lt t)
  then show ?case by (cases t) (subst merge_siblings.simps, simp add: pframe_def)
next
  case (3 lt t u ts)
  obtain a cs b ds where tu: "t = Node a cs" "u = Node b ds"
    by (metis ptree.exhaust)
  let ?p = "sibling (h b)"
  define h1 where "h1 = set_sibling a NULL (set_sibling b NULL h)"
  have f: "x = a" "a \<noteq> NULL" "b \<noteq> NULL" "sibling (h a) = b" "forest h (child (h a)) cs" "forest h (child (h b)) ds" "forest h ?p ts"
    using "3.prems"(1) by (auto simp: tu)
  have d: "a \<noteq> b" "a \<notin> set (nodes cs)" "a \<notin> set (nodes ds)" "a \<notin> set (nodes ts)" "b \<notin> set (nodes cs)"
    "b \<notin> set (nodes ds)" "b \<notin> set (nodes ts)" "distinct (nodes [t] @ nodes [u])" "distinct (nodes ts)"
    "set (nodes cs) \<inter> set (nodes ts) = {}" "set (nodes ds) \<inter> set (nodes ts) = {}"
    using "3.prems"(2) by (auto simp: tu)
  have h1: "h1 c = h c" if "c \<noteq> a" "c \<noteq> b" for c
    using that by (simp add: h1_def)
  have "forest h1 ?p ts"
    by (rule forest_frame [OF f(7)]) (metis h1 d(4,7))
  then obtain r h2 where h2: "merge_siblings lt ?p h1 = Some (r, h2)" "forest h2 r (merge_trees lt ts)"
      "pframe h1 h2 (set (nodes ts))"
    using "3.IH" [OF _ d(9)] by blast
  have h2_eq: "h2 c = h1 c" if "c \<notin> set (nodes ts)" for c
    using h2(3) that by (simp add: pframe_def)
  have "forest h2 (child (h a)) cs"
    by (rule forest_frame [OF f(5)]) (metis h1 h2_eq d(2,5,10) disjoint_iff)
  then have fx: "forest h2 a [t]"
    using f(2) d(1,4) h2_eq [of a] by (simp add: tu h1_def)
  have "forest h2 (child (h b)) ds"
    by (rule forest_frame [OF f(6)]) (metis h1 h2_eq d(3,6,11) disjoint_iff)
  then have fy: "forest h2 b [u]"
    using f(3) d(1,7) h2_eq [of b] by (simp add: tu h1_def)
  obtain m h3 where h3: "meld lt a b h2 = (m, h3)" "forest h3 m (meld_trees lt [t] [u])"
      "pframe h2 h3 (set (nodes [t] @ nodes [u]))"
    using meld_correct [OF fx fy _ _ d(8), of lt] by auto
  have fr: "forest h3 r (merge_trees lt ts)"
  proof (rule forest_frame [OF h2(2)])
    fix c assume "c \<in> set (nodes (merge_trees lt ts))"
    then have "c \<notin> set (nodes [t] @ nodes [u])"
      using d by (auto simp: tu set_nodes_merge_trees)
    then show "h3 c = h2 c"
      using h3(3) by (simp add: pframe_def)
  qed
  have lens: "length (merge_trees lt ts) \<le> 1" "length (meld_trees lt [t] [u]) \<le> 1"
    using length_merge_trees [of lt ts] length_meld_trees [of "[t]" "[u]" lt] by simp_all
  have nm: "mset (nodes (meld_trees lt [t] [u])) = mset (nodes [t] @ nodes [u])"
    using mset_meld_trees [of "[t]" "[u]" lt] by simp
  have "mset (nodes (merge_trees lt ts) @ nodes (meld_trees lt [t] [u])) = mset (nodes (t # u # ts))"
    using nm nodes_append [of "[t]" "u # ts"] nodes_append [of "[u]" ts] by (simp add: mset_merge_trees)
  then have dist: "distinct (nodes (merge_trees lt ts) @ nodes (meld_trees lt [t] [u]))"
    using "3.prems"(2) mset_eq_imp_distinct_iff by blast
  obtain q h4 where h4: "meld lt r m h3 = (q, h4)" "forest h4 q (merge_trees lt (t # u # ts))"
      "pframe h3 h4 (set (nodes (merge_trees lt ts) @ nodes (meld_trees lt [t] [u])))"
    using meld_correct [OF fr h3(2) lens dist, of lt] by auto
  have "merge_siblings lt x h = Some (q, h4)"
    using f h2(1) h3(1) h4(1) by (subst merge_siblings.simps) (simp add: Let_def h1_def)
  moreover have "pframe h h4 (set (nodes (t # u # ts)))"
    unfolding pframe_def
  proof (intro allI impI)
    fix c assume "c \<notin> set (nodes (t # u # ts))"
    then have c: "c \<noteq> a" "c \<noteq> b" "c \<notin> set (nodes ts)" "c \<notin> set (nodes [t] @ nodes [u])"
      by (auto simp: tu)
    moreover have "c \<notin> set (nodes (meld_trees lt [t] [u]))"
      using c(4) nm by (metis set_mset_mset)
    ultimately show "h4 c = h c"
      using h1 [of c] h2_eq [of c] h3(3) h4(3) by (simp add: pframe_def set_nodes_merge_trees)
  qed
  ultimately show ?case
    using h4(2) by blast
qed

section \<open>Heap order\<close>

fun heap_ordered :: "less_fun \<Rightarrow> ptree list \<Rightarrow> bool" where
  "heap_ordered lt [] \<longleftrightarrow> True"
| "heap_ordered lt (Node a cs # ts) \<longleftrightarrow>
     (\<forall>b\<in>set (nodes cs). \<not> lt a b) \<and> heap_ordered lt cs \<and> heap_ordered lt ts"

lemma heap_ordered_append: "heap_ordered lt (ts @ us) \<longleftrightarrow> heap_ordered lt ts \<and> heap_ordered lt us"
  by (induction lt ts rule: heap_ordered.induct) auto

lemma heap_ordered_meld:
  assumes "list_less_func lt" and "heap_ordered lt ts" and "heap_ordered lt us" and "length ts \<le> 1" and "length us \<le> 1"
  shows "heap_ordered lt (meld_trees lt ts us)"
proof (cases "ts = [] \<or> us = []")
  case True
  then show ?thesis
    using assms by (cases ts; cases us) auto
next
  case False
  then obtain a cs b ds where ab: "ts = [Node a cs]" "us = [Node b ds]"
    using assms(4,5) by (cases ts; cases us) (auto, metis ptree.exhaust)
  note asym = list_less_func.lt_asym [OF assms(1)] and trans = list_less_func.not_lt_trans [OF assms(1)]
  have cs: "\<forall>c\<in>set (nodes cs). \<not> lt a c" "\<forall>d\<in>set (nodes ds). \<not> lt b d" "heap_ordered lt cs" "heap_ordered lt ds"
    using assms(2,3) ab by auto
  show ?thesis
  proof (cases "lt a b")
    case True
    then have "\<not> lt b a" by (rule asym)
    then have "\<forall>c\<in>set (nodes cs). \<not> lt b c"
      using cs(1) trans by blast
    then show ?thesis
      using True \<open>\<not> lt b a\<close> cs by (simp add: ab ball_Un)
  next
    case False
    then have "\<forall>d\<in>set (nodes ds). \<not> lt a d"
      using cs(2) trans by blast
    then show ?thesis
      using False cs by (simp add: ab ball_Un)
  qed
qed

lemma heap_ordered_merge:
  assumes "list_less_func lt"
  shows "heap_ordered lt ts \<Longrightarrow> heap_ordered lt (merge_trees lt ts)"
proof (induction ts rule: induct_list012)
  case (3 t u ts)
  have "heap_ordered lt [t]" "heap_ordered lt [u]" "heap_ordered lt ts"
    using "3.prems" heap_ordered_append [of lt "[t]" "u # ts"] heap_ordered_append [of lt "[u]" ts] by simp_all
  moreover have "heap_ordered lt (meld_trees lt [t] [u])"
    using calculation by (intro heap_ordered_meld [OF assms]) auto
  moreover have "length (merge_trees lt ts) \<le> 1" "length (meld_trees lt [t] [u]) \<le> 1"
    using length_merge_trees [of lt ts] length_meld_trees [of "[t]" "[u]" lt] by simp_all
  ultimately show ?case
    using "3.IH"(1) heap_ordered_meld [OF assms] by simp
qed auto

section \<open>Priority queue\<close>

text \<open>\<open>heap_rep lt (p, h) xs\<close>: the heap \<open>p\<close> holds the elements \<open>xs\<close>.\<close>

definition heap_rep :: "less_fun \<Rightarrow> pheap \<times> nheap \<Rightarrow> addr multiset \<Rightarrow> bool" where
  "heap_rep lt = (\<lambda>(p, h) xs. \<exists>ts.
     forest h (top p) ts \<and> length ts \<le> 1 \<and> distinct (nodes ts) \<and> heap_ordered lt ts \<and>
     mset (nodes ts) = xs \<and> hsize p = size xs \<and> size xs < 2 ^ 32)"

lemma heap_init_rep: "heap_rep lt (heap_init, h) {#}"
  by (auto simp: heap_rep_def heap_init_def intro!: exI [of _ "[]"])

lemma heap_push_rep:
  assumes "list_less_func lt" and "heap_rep lt s xs" and "e \<notin># xs" and "e \<noteq> NULL" and "size xs + 1 < 2 ^ 32"
  shows "heap_rep lt (heap_push lt e s) (add_mset e xs)"
proof -
  obtain p h where s: "s = (p, h)" by fastforce
  obtain ts where ts: "forest h (top p) ts" "length ts \<le> 1" "distinct (nodes ts)" "heap_ordered lt ts"
      "mset (nodes ts) = xs" "hsize p = size xs"
    using assms(2) by (auto simp: s heap_rep_def)
  define h1 where "h1 = set_child e NULL (set_sibling e NULL h)"
  have e: "e \<notin> set (nodes ts)"
    using assms(3) ts(5) by (metis set_mset_mset)
  have "h1 c = h c" if "c \<noteq> e" for c
    using that by (simp add: h1_def)
  then have f: "forest h1 (top p) ts"
    using e by (intro forest_frame [OF ts(1)]) metis
  have fe: "forest h1 e [Node e []]"
    using assms(4) by (simp add: h1_def)
  obtain r h2 where h2: "meld lt (top p) e h1 = (r, h2)" "forest h2 r (meld_trees lt ts [Node e []])"
    using meld_correct [OF f fe ts(2), of lt] ts(3) e by auto
  have push: "heap_push lt e s = (\<lparr>hsize = size_t (hsize p + 1), top = r\<rparr>, h2)"
    using h2(1) by (simp add: heap_push_def s h1_def)
  have ms: "mset (nodes (meld_trees lt ts [Node e []])) = add_mset e xs"
    using mset_meld_trees [of ts "[Node e []]" lt] ts(2,5) by simp
  then have "distinct (nodes (meld_trees lt ts [Node e []]))"
    using mset_eq_imp_distinct_iff [of _ "e # nodes ts"] ts(3,5) e by simp
  moreover have "heap_ordered lt (meld_trees lt ts [Node e []])"
    using ts(2,4) by (intro heap_ordered_meld [OF assms(1)]) auto
  moreover have "length (meld_trees lt ts [Node e []]) \<le> 1"
    using ts(2) by (intro length_meld_trees) auto
  ultimately show ?thesis
    using push h2(2) ms ts(6) assms(5) by (auto simp: heap_rep_def size_t_def)
qed

lemma heap_pop_rep:
  assumes "list_less_func lt" and "heap_rep lt s xs" and "xs \<noteq> {#}"
  shows "\<exists>e s'. heap_pop lt s = Some (e, s') \<and> e \<in># xs \<and> (\<forall>x\<in>#xs. \<not> lt e x) \<and> heap_rep lt s' (xs - {#e#})"
proof -
  obtain p h where s: "s = (p, h)" by fastforce
  obtain ts where ts: "forest h (top p) ts" "length ts \<le> 1" "distinct (nodes ts)" "heap_ordered lt ts"
      "mset (nodes ts) = xs" "hsize p = size xs" "size xs < 2 ^ 32"
    using assms(2) by (auto simp: s heap_rep_def)
  have "ts \<noteq> []"
    using ts(5) assms(3) by auto
  then obtain a cs where t: "ts = [Node a cs]"
    using ts(2) by (cases ts) (auto, metis ptree.exhaust)
  have a: "top p = a" "forest h (child (h a)) cs" "distinct (nodes cs)" "a \<notin> set (nodes cs)" "heap_ordered lt cs"
      "\<forall>b\<in>set (nodes cs). \<not> lt a b" "xs = add_mset a (mset (nodes cs))"
    using ts by (auto simp: t)
  obtain r h' where h': "merge_siblings lt (child (h a)) h = Some (r, h')" "forest h' r (merge_trees lt cs)"
    using merge_siblings_correct [OF a(2,3), of lt] by blast
  have sz: "size_t (hsize p + (2 ^ 32 - 1)) = size xs - 1" "hsize p \<noteq> 0"
  proof -
    have "0 < size xs" using assms(3) by (simp add: nonempty_has_size)
    then have "hsize p + (2 ^ 32 - 1) = (size xs - 1) + 2 ^ 32" "hsize p \<noteq> 0"
      using ts(6) assms(3) by simp_all
    then show "size_t (hsize p + (2 ^ 32 - 1)) = size xs - 1" "hsize p \<noteq> 0"
      using ts(7) by (simp_all add: size_t_def)
  qed
  have pop: "heap_pop lt s = Some (a, \<lparr>hsize = size_t (hsize p + (2 ^ 32 - 1)), top = r\<rparr>, h')"
    using h'(1) sz(2) a(1) by (simp add: heap_pop_def s heap_empty_def)
  have "distinct (nodes (merge_trees lt cs))"
    using a(3) mset_merge_trees [of lt cs] mset_eq_imp_distinct_iff by blast
  then have "heap_rep lt (\<lparr>hsize = size_t (hsize p + (2 ^ 32 - 1)), top = r\<rparr>, h') (xs - {#a#})"
    using h'(2) sz(1) ts(7) a(7) heap_ordered_merge [OF assms(1) a(5)] length_merge_trees [of lt cs]
    by (auto simp: heap_rep_def mset_merge_trees intro!: exI [of _ "merge_trees lt cs"])
  moreover have "\<forall>x\<in>#xs. \<not> lt a x"
    using a(6,7) list_less_func.lt_irrefl [OF assms(1)] by auto
  ultimately show ?thesis
    using pop a(7) by auto
qed

text \<open>
  The contract of a priority queue that its clients rely on, and what follows for them: elements
  leave in order, whatever the order they came in.
\<close>

primrec drain :: "('s \<Rightarrow> ('e \<times> 's) option) \<Rightarrow> nat \<Rightarrow> 's \<Rightarrow> ('e list \<times> 's) option" where
  "drain pop 0 s = Some ([], s)"
| "drain pop (Suc n) s = do { (e, s) \<leftarrow> pop s; (es, s) \<leftarrow> drain pop n s; Some (e # es, s) }"

locale priority_queue =
  fixes lt :: "'e \<Rightarrow> 'e \<Rightarrow> bool"
    and rep :: "'s \<Rightarrow> 'e multiset \<Rightarrow> bool"
    and ok :: "'e \<Rightarrow> 'e multiset \<Rightarrow> bool"
    and push :: "'e \<Rightarrow> 's \<Rightarrow> 's"
    and pop :: "'s \<Rightarrow> ('e \<times> 's) option"
  assumes push: "rep s xs \<Longrightarrow> ok e xs \<Longrightarrow> rep (push e s) (add_mset e xs)"
    and pop: "rep s xs \<Longrightarrow> xs \<noteq> {#} \<Longrightarrow>
      \<exists>e s'. pop s = Some (e, s') \<and> e \<in># xs \<and> (\<forall>x\<in>#xs. \<not> lt e x) \<and> rep s' (xs - {#e#})"
begin

lemma drain_in_order:
  "rep s xs \<Longrightarrow> \<exists>es s'. drain pop (size xs) s = Some (es, s') \<and> mset es = xs \<and>
     sorted_wrt (\<lambda>x y. \<not> lt x y) es \<and> rep s' {#}"
proof (induction "size xs" arbitrary: xs s)
  case 0
  then show ?case by auto
next
  case (Suc n)
  then have "xs \<noteq> {#}" by auto
  then obtain e s1 where e: "pop s = Some (e, s1)" "e \<in># xs" "\<forall>x\<in>#xs. \<not> lt e x" "rep s1 (xs - {#e#})"
    using pop [OF Suc.prems] by blast
  have sz: "n = size (xs - {#e#})" "size xs = Suc n"
    using Suc.hyps(2) e(2) by (simp_all add: size_Diff_singleton)
  obtain es s2 where es: "drain pop n s1 = Some (es, s2)" "mset es = xs - {#e#}"
      "sorted_wrt (\<lambda>x y. \<not> lt x y) es" "rep s2 {#}"
    using Suc.hyps(1) [OF sz(1) e(4)] sz(1) by auto
  have "\<forall>x\<in>set es. \<not> lt e x"
    using e(3) es(2) by (metis in_diffD set_mset_mset)
  then show ?case
    using e es sz(2) by (simp add: insert_DiffM)
qed

lemma push_all:
  "rep s xs \<Longrightarrow> (\<And>us v vs. es = us @ v # vs \<Longrightarrow> ok v (xs + mset us)) \<Longrightarrow> rep (fold push es s) (xs + mset es)"
proof (induction es arbitrary: s xs)
  case (Cons e es)
  have "ok e xs"
    using Cons.prems(2) [of "[]" e es] by simp
  then have "rep (push e s) (add_mset e xs)"
    by (rule push [OF Cons.prems(1)])
  moreover have "ok v (add_mset e xs + mset us)" if "es = us @ v # vs" for us v vs
    using Cons.prems(2) [of "e # us" v vs] that by simp
  ultimately show ?case
    using Cons.IH by fastforce
qed simp

end

definition heap_ok :: "addr \<Rightarrow> addr multiset \<Rightarrow> bool" where
  "heap_ok e xs \<longleftrightarrow> e \<notin># xs \<and> e \<noteq> NULL \<and> size xs + 1 < 2 ^ 32"

lemma pairing_heap_is_priority_queue:
  assumes "list_less_func lt"
  shows "priority_queue lt (heap_rep lt) heap_ok (heap_push lt) (heap_pop lt)"
proof
  fix s xs e
  assume "heap_rep lt s xs"
  then show "heap_ok e xs \<Longrightarrow> heap_rep lt (heap_push lt e s) (add_mset e xs)"
    using heap_push_rep [OF assms] by (simp add: heap_ok_def)
  show "\<exists>e s'. heap_pop lt s = Some (e, s') \<and> e \<in># xs \<and> (\<forall>x\<in>#xs. \<not> lt e x) \<and> heap_rep lt s' (xs - {#e#})"
    if "xs \<noteq> {#}"
    using heap_pop_rep [OF assms \<open>heap_rep lt s xs\<close> that] .
qed

section \<open>Properties\<close>

text \<open>
  C15: pushing any distinct elements on an empty pairing heap and then popping them all returns every
  element exactly once, each time one that no remaining element exceeds, without running forever and
  leaving the heap empty.
\<close>

theorem heap_pops_in_order:
  assumes "list_less_func lt" and "distinct es" and "NULL \<notin> set es" and "length es < 2 ^ 32"
  shows "\<exists>os s'. drain (heap_pop lt) (length es) (fold (heap_push lt) es (heap_init, h)) = Some (os, s') \<and>
           mset os = mset es \<and> sorted_wrt (\<lambda>x y. \<not> lt x y) os \<and> heap_rep lt s' {#}"
proof -
  note pq = pairing_heap_is_priority_queue [OF assms(1)]
  have "heap_ok v ({#} + mset us)" if "es = us @ v # vs" for us v vs
    using that assms(2-4) by (auto simp: heap_ok_def)
  then have "heap_rep lt (fold (heap_push lt) es (heap_init, h)) ({#} + mset es)"
    by (rule priority_queue.push_all [OF pq heap_init_rep])
  then show ?thesis
    using priority_queue.drain_in_order [OF pq] by fastforce
qed

theorem heap_pops_in_order_witness:
  "\<exists>os s'. drain (heap_pop (<)) 3 (fold (heap_push (<)) [20, 40, 30] (heap_init, \<lambda>_. \<lparr>child = NULL, sibling = NULL\<rparr>)) = Some (os, s') \<and>
           mset os = {#20, 40, 30#} \<and> sorted_wrt (\<lambda>x y. \<not> x < y) os"
proof -
  have "list_less_func ((<) :: addr \<Rightarrow> addr \<Rightarrow> bool)"
    by unfold_locales auto
  then show ?thesis
    using heap_pops_in_order [of "(<)" "[20, 40, 30]" "\<lambda>_. \<lparr>child = NULL, sibling = NULL\<rparr>"] by (auto simp: numeral_3_eq_3)
qed

end
