(* ===== verification/Khash.thy ===== *)
theory Khash
  imports Klist_Sort Cstring
begin

text \<open>
  The hash tables of \<open>src/src/lib/kernel/hash.c\<close>.  A bucket is the sequence of the elements of its
  kernel list (theory \<open>Klist\<close> shows that the list routines act on that sequence); an element is
  linked into at most one bucket, once.  The hash and comparison functions are fields of the table,
  as in the source; locale \<open>hash_contract\<close> says what the table needs of them.
\<close>

unbundle bit_operations_syntax

section \<open>State and routines\<close>

record 'e hash_table =
  ht_elem_cnt :: nat
  bucket_cnt :: nat
  buckets :: "'e list list"
  hash_fn :: "'e \<Rightarrow> u32"
  less_fn :: "'e \<Rightarrow> 'e \<Rightarrow> bool"

definition turn_off_least_1bit :: "nat \<Rightarrow> nat" where
  "turn_off_least_1bit x = x AND (x - 1)"

definition is_power_of_2 :: "nat \<Rightarrow> bool" where
  "is_power_of_2 x \<longleftrightarrow> x \<noteq> 0 \<and> turn_off_least_1bit x = 0"

definition find_bucket :: "'e hash_table \<Rightarrow> 'e \<Rightarrow> nat" where
  "find_bucket h e = unat (hash_fn h e AND word_of_nat (bucket_cnt h - 1))"

definition find_elem :: "'e hash_table \<Rightarrow> nat \<Rightarrow> 'e \<Rightarrow> 'e option" where
  "find_elem h b e = find (\<lambda>hi. \<not> less_fn h hi e \<and> \<not> less_fn h e hi) (buckets h ! b)"

definition insert_elem :: "'e hash_table \<Rightarrow> nat \<Rightarrow> 'e \<Rightarrow> 'e hash_table" where
  "insert_elem h b e = h\<lparr>ht_elem_cnt := size_t (ht_elem_cnt h + 1),
     buckets := (buckets h)[b := e # buckets h ! b]\<rparr>"

text \<open>\<open>list_remove\<close> unlinks the element from the bucket it is linked into.\<close>

definition remove_elem :: "'e hash_table \<Rightarrow> 'e \<Rightarrow> 'e hash_table" where
  "remove_elem h e = h\<lparr>ht_elem_cnt := size_t (ht_elem_cnt h + (2 ^ 32 - 1)),
     buckets := map (removeAll e) (buckets h)\<rparr>"

text \<open>The loop that rounds the bucket count down to a power of two; it does not end on 0.\<close>

partial_function (option) round_bucket_cnt :: "nat \<Rightarrow> nat option" where
  "round_bucket_cnt n =
     (if is_power_of_2 n then Some n else round_bucket_cnt (turn_off_least_1bit n))"

definition move_elem :: "'e hash_table \<Rightarrow> 'e \<Rightarrow> 'e hash_table" where
  "move_elem h e =
     (let b = find_bucket h e in h\<lparr>buckets := (buckets h)[b := e # buckets h ! b]\<rparr>)"

text \<open>The flag \<open>ok\<close> says whether \<open>malloc\<close> finds memory for the new buckets.\<close>

definition rehash :: "bool \<Rightarrow> 'e hash_table \<Rightarrow> 'e hash_table option" where
  "rehash ok h = do {
     let n = ht_elem_cnt h div 2;
     new_bucket_cnt \<leftarrow> round_bucket_cnt (if n < 4 then 4 else n);
     if new_bucket_cnt = bucket_cnt h then Some h
     else if \<not> ok then Some h
     else Some (fold (\<lambda>b h. fold (\<lambda>e h. move_elem h e) b h) (buckets h)
       (h\<lparr>buckets := replicate new_bucket_cnt [], bucket_cnt := new_bucket_cnt\<rparr>))
   }"

definition hash_insert :: "bool \<Rightarrow> 'e hash_table \<Rightarrow> 'e \<Rightarrow> ('e option \<times> 'e hash_table) option" where
  "hash_insert ok h e = do {
     let b = find_bucket h e;
     let old = find_elem h b e;
     h \<leftarrow> rehash ok (if old = None then insert_elem h b e else h);
     Some (old, h)
   }"

definition hash_replace :: "bool \<Rightarrow> 'e hash_table \<Rightarrow> 'e \<Rightarrow> ('e option \<times> 'e hash_table) option" where
  "hash_replace ok h e = do {
     let b = find_bucket h e;
     let old = find_elem h b e;
     let h = (case old of None \<Rightarrow> h | Some d \<Rightarrow> remove_elem h d);
     h \<leftarrow> rehash ok (insert_elem h b e);
     Some (old, h)
   }"

definition hash_find :: "'e hash_table \<Rightarrow> 'e \<Rightarrow> 'e option" where
  "hash_find h e = find_elem h (find_bucket h e) e"

definition hash_delete :: "bool \<Rightarrow> 'e hash_table \<Rightarrow> 'e \<Rightarrow> ('e option \<times> 'e hash_table) option" where
  "hash_delete ok h e =
     (case find_elem h (find_bucket h e) e of
        None \<Rightarrow> Some (None, h)
      | Some found \<Rightarrow> do {
          h \<leftarrow> rehash ok (remove_elem h found);
          Some (Some found, h)
        })"

text \<open>
  An action and a destructor transform the state \<open>'s\<close> of the kernel outside the table; the result
  is that state after the calls, in the order in which the source makes them.
\<close>

definition hash_clear ::
  "('e \<Rightarrow> 's \<Rightarrow> 's) option \<Rightarrow> 'e hash_table \<Rightarrow> 's \<Rightarrow> 'e hash_table \<times> 's" where
  "hash_clear destructor h s =
     (h\<lparr>buckets := replicate (bucket_cnt h) [], ht_elem_cnt := 0\<rparr>,
      case destructor of None \<Rightarrow> s | Some d \<Rightarrow> fold (\<lambda>b s. fold d b s) (buckets h) s)"

definition hash_destroy :: "('e \<Rightarrow> 's \<Rightarrow> 's) option \<Rightarrow> 'e hash_table \<Rightarrow> 's \<Rightarrow> 's" where
  "hash_destroy destructor h s = (if destructor \<noteq> None then snd (hash_clear destructor h s) else s)"

definition hash_apply :: "('e \<Rightarrow> 's \<Rightarrow> 's) \<Rightarrow> 'e hash_table \<Rightarrow> 's \<Rightarrow> 's" where
  "hash_apply action h s = fold (\<lambda>b s. fold action b s) (buckets h) s"

definition hash_init ::
  "bool \<Rightarrow> ('e \<Rightarrow> u32) \<Rightarrow> ('e \<Rightarrow> 'e \<Rightarrow> bool) \<Rightarrow> bool \<times> 'e hash_table" where
  "hash_init ok hsh lt =
     (let h = \<lparr>ht_elem_cnt = 0, bucket_cnt = 4, buckets = [], hash_fn = hsh, less_fn = lt\<rparr>
      in if ok then (True, fst (hash_clear None h ())) else (False, h))"

definition hash_size :: "'e hash_table \<Rightarrow> nat" where
  "hash_size h = ht_elem_cnt h"

definition hash_empty :: "'e hash_table \<Rightarrow> bool" where
  "hash_empty h \<longleftrightarrow> ht_elem_cnt h = 0"

text \<open>
  An iterator: the bucket it is in, the number of elements of that bucket up to and including the
  current one (0 at the list head), and the current element (\<^const>\<open>None\<close> for the null pointer).
\<close>

record 'e hash_iterator =
  it_bucket :: nat
  it_pos :: nat
  it_elem :: "'e option"

definition hash_first :: "'e hash_table \<Rightarrow> 'e hash_iterator" where
  "hash_first h = \<lparr>it_bucket = 0, it_pos = 0, it_elem = None\<rparr>"

text \<open>The loop of \<open>hash_next\<close> at position \<open>p\<close> of bucket \<open>b\<close>.\<close>

function hash_next_loop :: "'e hash_table \<Rightarrow> nat \<Rightarrow> nat \<Rightarrow> 'e hash_iterator" where
  "hash_next_loop h b p =
     (if p < length (buckets h ! b)
      then \<lparr>it_bucket = b, it_pos = p + 1, it_elem = Some (buckets h ! b ! p)\<rparr>
      else if bucket_cnt h \<le> b + 1 then \<lparr>it_bucket = b + 1, it_pos = 0, it_elem = None\<rparr>
      else hash_next_loop h (b + 1) 0)"
  by auto
termination
  by (relation "measure (\<lambda>(h, b, p). bucket_cnt h - b)") auto

text \<open>Advancing an iterator that is past the last bucket follows its null element pointer.\<close>

definition hash_next :: "'e hash_table \<Rightarrow> 'e hash_iterator \<Rightarrow> 'e hash_iterator option" where
  "hash_next h i = do {
     ASSERT (it_bucket i < bucket_cnt h);
     Some (hash_next_loop h (it_bucket i) (it_pos i))
   }"

definition hash_cur :: "'e hash_iterator \<Rightarrow> 'e option" where
  "hash_cur i = it_elem i"

text \<open>
  The iteration idiom in the comment of \<open>hash_first\<close>, collecting the elements in the order in which
  the loop body sees them.
\<close>

partial_function (option) hash_iterate ::
  "'e hash_table \<Rightarrow> 'e hash_iterator \<Rightarrow> 'e list \<Rightarrow> 'e list option" where
  "hash_iterate h i seen = do {
     i \<leftarrow> hash_next h i;
     case hash_cur i of None \<Rightarrow> Some seen | Some e \<Rightarrow> hash_iterate h i (seen @ [e])
   }"

subsection \<open>Hash functions\<close>

definition FNV_32_PRIME :: u32 where
  "FNV_32_PRIME = 16777619"

definition FNV_32_BASIS :: u32 where
  "FNV_32_BASIS = 2166136261"

definition fnv_step :: "u8 \<Rightarrow> u32 \<Rightarrow> u32" where
  "fnv_step b hash = (hash * FNV_32_PRIME) XOR ucast b"

primrec hash_bytes_loop :: "mem \<Rightarrow> addr \<Rightarrow> nat \<Rightarrow> u32 \<Rightarrow> u32" where
  "hash_bytes_loop m buf 0 hash = hash"
| "hash_bytes_loop m buf (Suc n) hash = hash_bytes_loop m (buf + 1) n (fnv_step (m buf) hash)"

definition hash_bytes :: "mem \<Rightarrow> addr \<Rightarrow> nat \<Rightarrow> u32 option" where
  "hash_bytes m buf n = do {
     ASSERT (buf \<noteq> NULL);
     Some (hash_bytes_loop m buf n FNV_32_BASIS)
   }"

partial_function (option) hash_string_loop :: "mem \<Rightarrow> addr \<Rightarrow> u32 \<Rightarrow> u32 option" where
  "hash_string_loop m s hash =
     (if m s = 0 then Some hash else hash_string_loop m (s + 1) (fnv_step (m s) hash))"

definition hash_string :: "mem \<Rightarrow> addr \<Rightarrow> u32 option" where
  "hash_string m s = do {
     ASSERT (s \<noteq> NULL);
     hash_string_loop m s FNV_32_BASIS
   }"

text \<open>\<open>hash_int\<close> hashes the four bytes of its argument, least significant first.\<close>

definition hash_int :: "int \<Rightarrow> u32" where
  "hash_int i =
     fold (\<lambda>k. fnv_step (ucast (drop_bit (8 * k) (word_of_int i :: u32)))) [0, 1, 2, 3] FNV_32_BASIS"

section \<open>Rounding to a power of two\<close>

lemma bit_top:
  assumes "2 ^ k \<le> (n :: nat)" and "n < 2 ^ Suc k"
  shows "bit n k"
proof -
  have "n div 2 ^ k = 1"
    using assms by (intro div_nat_eqI) auto
  then show ?thesis by (simp add: bit_nat_def)
qed

lemma bit_imp_le: "bit (n :: nat) k \<Longrightarrow> 2 ^ k \<le> n"
  unfolding bit_nat_def by (metis div_less even_zero not_le)

lemma and_le_nat: "(m :: nat) AND n \<le> n"
  unfolding and_nat_def using AND_upper2 [of "int n" "int m"] by (simp add: nat_le_iff)

lemma turn_off_between:
  assumes "2 ^ k < n" and "n < 2 ^ Suc k"
  shows "2 ^ k \<le> turn_off_least_1bit n" "turn_off_least_1bit n < n"
proof -
  have "bit n k" "bit (n - 1) k"
    using assms by (intro bit_top; simp)+
  then have "bit (turn_off_least_1bit n) k"
    by (simp add: turn_off_least_1bit_def bit_and_iff)
  then show "2 ^ k \<le> turn_off_least_1bit n"
    by (rule bit_imp_le)
  show "turn_off_least_1bit n < n"
    using and_le_nat [of n "n - 1"] assms unfolding turn_off_least_1bit_def by (simp add: le_less_trans)
qed

lemma turn_off_power [simp]: "turn_off_least_1bit (2 ^ k) = 0"
proof -
  have "2 ^ k - 1 = (mask k :: nat)"
    by (simp add: mask_eq_exp_minus_1)
  then show ?thesis
    unfolding turn_off_least_1bit_def by (metis take_bit_eq_mask take_bit_of_exp less_irrefl mult_zero_left of_bool_eq(1))
qed

lemma power_bracket: "0 < n \<Longrightarrow> \<exists>k. 2 ^ k \<le> n \<and> n < 2 ^ Suc k" for n :: nat
proof (induction n rule: less_induct)
  case (less n)
  show ?case
  proof (cases "n = 1")
    case True
    then show ?thesis by (intro exI [of _ 0]) simp
  next
    case False
    then obtain k where "2 ^ k \<le> n div 2" "n div 2 < 2 ^ Suc k"
      using less.IH [of "n div 2"] less.prems by auto
    then show ?thesis by (intro exI [of _ "Suc k"]) auto
  qed
qed

lemma is_power_of_2_iff: "is_power_of_2 n \<longleftrightarrow> (\<exists>k. n = 2 ^ k)"
proof
  assume n: "is_power_of_2 n"
  then obtain k where k: "2 ^ k \<le> n" "n < 2 ^ Suc k"
    using power_bracket by (auto simp: is_power_of_2_def)
  then have "n = 2 ^ k"
    using turn_off_between(1) [of k n] n by (force simp: is_power_of_2_def)
  then show "\<exists>k. n = 2 ^ k" ..
qed (auto simp: is_power_of_2_def)

lemma round_bucket_cnt_bracket:
  "2 ^ k \<le> n \<Longrightarrow> n < 2 ^ Suc k \<Longrightarrow> round_bucket_cnt n = Some (2 ^ k)"
proof (induction n rule: less_induct)
  case (less n)
  show ?case
  proof (cases "n = 2 ^ k")
    case True
    then show ?thesis
      by (subst round_bucket_cnt.simps) (auto simp: is_power_of_2_iff)
  next
    case False
    then have n: "2 ^ k < n" using less.prems by simp
    have "\<not> is_power_of_2 n"
      using turn_off_between(1) [OF n less.prems(2)] by (auto simp: is_power_of_2_def)
    moreover have "round_bucket_cnt (turn_off_least_1bit n) = Some (2 ^ k)"
      using turn_off_between [OF n less.prems(2)] less.prems by (intro less.IH) auto
    ultimately show ?thesis by (subst round_bucket_cnt.simps) simp
  qed
qed

section \<open>Buckets\<close>

lemma unat_and_mask:
  assumes "k < 32"
  shows "unat (w AND word_of_nat (2 ^ k - 1) :: u32) = unat w mod 2 ^ k"
proof -
  have "word_of_nat (2 ^ k - 1) = (mask k :: u32)"
    by (simp add: mask_eq_exp_minus_1 of_nat_diff)
  then have "w AND word_of_nat (2 ^ k - 1) = take_bit k w"
    by (simp add: take_bit_eq_mask)
  then show ?thesis
    by (simp add: unsigned_take_bit_eq flip: take_bit_eq_mod)
qed

lemma find_bucket_mod:
  "bucket_cnt h = 2 ^ k \<Longrightarrow> k < 32 \<Longrightarrow> find_bucket h e = unat (hash_fn h e) mod 2 ^ k"
  unfolding find_bucket_def by (simp only: unat_and_mask)

definition elems :: "'e hash_table \<Rightarrow> 'e list" where
  "elems h = concat (buckets h)"

lemma mset_concat_update:
  "i < length bs \<Longrightarrow> mset (concat (bs[i := e # bs ! i])) = add_mset e (mset (concat bs))"
  by (induction bs arbitrary: i) (auto split: nat.split)

lemma concat_map_removeAll: "concat (map (removeAll e) bs) = removeAll e (concat bs)"
  by (induction bs) auto

definition equal_elems :: "('e \<Rightarrow> 'e \<Rightarrow> bool) \<Rightarrow> 'e \<Rightarrow> 'e \<Rightarrow> bool" where
  "equal_elems lt a b \<longleftrightarrow> \<not> lt a b \<and> \<not> lt b a"

definition placed :: "'e hash_table \<Rightarrow> bool" where
  "placed h \<longleftrightarrow> length (buckets h) = bucket_cnt h \<and> (\<exists>k. bucket_cnt h = 2 ^ k \<and> 2 \<le> k \<and> k < 32) \<and>
     (\<forall>i < bucket_cnt h. \<forall>e \<in> set (buckets h ! i). find_bucket h e = i)"

definition unique :: "'e hash_table \<Rightarrow> bool" where
  "unique h \<longleftrightarrow> distinct (elems h) \<and>
     (\<forall>a \<in> set (elems h). \<forall>b \<in> set (elems h). equal_elems (less_fn h) a b \<longrightarrow> a = b)"

text \<open>
  The invariant of a table: the bucket count is a power of two, every element is in the bucket its
  hash value selects, no two elements are equal, and the count is right.
\<close>

definition wf_hash :: "'e hash_table \<Rightarrow> bool" where
  "wf_hash h \<longleftrightarrow> placed h \<and> unique h \<and> ht_elem_cnt h = length (elems h) \<and> length (elems h) < 2 ^ 32"

lemma find_bucket_cong:
  "bucket_cnt h' = bucket_cnt h \<Longrightarrow> hash_fn h' = hash_fn h \<Longrightarrow> find_bucket h' e = find_bucket h e"
  by (simp add: find_bucket_def)

lemma find_bucket_less: "placed h \<Longrightarrow> find_bucket h e < bucket_cnt h"
  by (auto simp: placed_def find_bucket_mod)

lemma set_bucket:
  "placed h \<Longrightarrow> i < bucket_cnt h \<Longrightarrow> set (buckets h ! i) = {e \<in> set (elems h). find_bucket h e = i}"
proof -
  assume h: "placed h" and i: "i < bucket_cnt h"
  have "e \<in> set (buckets h ! find_bucket h e)" if e: "e \<in> set (elems h)" for e
  proof -
    obtain j where "j < length (buckets h)" "e \<in> set (buckets h ! j)"
      using e by (auto simp: elems_def in_set_conv_nth [of _ "buckets h"])
    then show ?thesis using h by (auto simp: placed_def)
  qed
  moreover have "e \<in> set (elems h)" if "e \<in> set (buckets h ! i)" for e
    using that i h unfolding elems_def placed_def by (auto intro!: bexI [of _ "buckets h ! i"])
  ultimately show ?thesis using h i unfolding placed_def by blast
qed

lemma placed_add:
  assumes "placed h"
  shows "placed (h\<lparr>ht_elem_cnt := n, buckets := (buckets h)[find_bucket h e := e # buckets h ! find_bucket h e]\<rparr>)"
proof -
  have "find_bucket (h\<lparr>ht_elem_cnt := n, buckets := bs\<rparr>) x = find_bucket h x" for bs x
    by (rule find_bucket_cong) simp_all
  then show ?thesis
    using assms find_bucket_less [OF assms, of e]
    by (auto simp: placed_def nth_list_update split: if_splits)
qed

lemma elems_add:
  assumes "placed h"
  shows "mset (elems (h\<lparr>ht_elem_cnt := n, buckets := (buckets h)[find_bucket h e := e # buckets h ! find_bucket h e]\<rparr>)) =
    add_mset e (mset (elems h))"
  using assms find_bucket_less [OF assms, of e]
  by (simp add: elems_def placed_def mset_concat_update)

lemma move_elem_add:
  "move_elem h e = h\<lparr>ht_elem_cnt := ht_elem_cnt h,
     buckets := (buckets h)[find_bucket h e := e # buckets h ! find_bucket h e]\<rparr>"
  by (simp add: move_elem_def Let_def)

lemma move_elem_simps [simp]:
  "hash_fn (move_elem h e) = hash_fn h" "less_fn (move_elem h e) = less_fn h"
  "ht_elem_cnt (move_elem h e) = ht_elem_cnt h" "bucket_cnt (move_elem h e) = bucket_cnt h"
  by (simp_all add: move_elem_add)

lemma move_all:
  "placed h \<Longrightarrow> placed (fold (\<lambda>e h. move_elem h e) xs h) \<and>
     mset (elems (fold (\<lambda>e h. move_elem h e) xs h)) = mset xs + mset (elems h) \<and>
     hash_fn (fold (\<lambda>e h. move_elem h e) xs h) = hash_fn h \<and>
     less_fn (fold (\<lambda>e h. move_elem h e) xs h) = less_fn h \<and>
     ht_elem_cnt (fold (\<lambda>e h. move_elem h e) xs h) = ht_elem_cnt h"
proof (induction xs arbitrary: h)
  case (Cons e xs)
  have "placed (move_elem h e)"
    unfolding move_elem_add using Cons.prems by (rule placed_add)
  moreover have "mset (elems (move_elem h e)) = add_mset e (mset (elems h))"
    unfolding move_elem_add using Cons.prems by (rule elems_add)
  ultimately show ?case
    using Cons.IH [of "move_elem h e"] by simp
qed simp

lemma fold_fold_concat: "fold (\<lambda>b. fold f b) bs s = fold f (concat bs) s"
  by (induction bs arbitrary: s) auto

lemma bucket_count_choice:
  assumes "n < 2 ^ 32"
  obtains k where "round_bucket_cnt (if n div 2 < 4 then 4 else n div 2) = Some (2 ^ k)" "2 \<le> k" "k < 32"
proof -
  define m where "m = (if n div 2 < 4 then 4 else n div 2)"
  have m: "4 \<le> m" "m < 2 ^ 31" using assms by (auto simp: m_def)
  then obtain k where k: "2 ^ k \<le> m" "m < 2 ^ Suc k" using power_bracket [of m] by auto
  have "(2 :: nat) ^ 2 < 2 ^ Suc k" using m k by simp
  then have "2 \<le> k" by (subst (asm) power_strict_increasing_iff) auto
  moreover have "(2 :: nat) ^ k < 2 ^ 31" using m k by simp
  then have "k < 32" by (subst (asm) power_strict_increasing_iff) auto
  ultimately show thesis
    using that round_bucket_cnt_bracket [OF k] unfolding m_def by blast
qed

lemma unique_cong:
  "mset (elems h') = mset (elems h) \<Longrightarrow> less_fn h' = less_fn h \<Longrightarrow> unique h' \<longleftrightarrow> unique h"
  unfolding unique_def
  using mset_eq_imp_distinct_iff [of "elems h'" "elems h"] mset_eq_setD [of "elems h'" "elems h"] by simp

text \<open>Whether or not memory is found, rehashing keeps the elements and the invariant.\<close>

lemma rehash_ok:
  assumes "wf_hash h"
  shows "\<exists>h'. rehash ok h = Some h' \<and> wf_hash h' \<and> mset (elems h') = mset (elems h) \<and>
    hash_fn h' = hash_fn h \<and> less_fn h' = less_fn h"
proof -
  have n: "ht_elem_cnt h < 2 ^ 32" using assms by (simp add: wf_hash_def)
  from bucket_count_choice [OF n] obtain k where
    k: "round_bucket_cnt (if ht_elem_cnt h div 2 < 4 then 4 else ht_elem_cnt h div 2) = Some (2 ^ k)"
    "2 \<le> k" "k < 32" .
  define h0 where "h0 = h\<lparr>buckets := replicate (2 ^ k) [], bucket_cnt := 2 ^ k\<rparr>"
  define h1 where "h1 = fold (\<lambda>e h. move_elem h e) (elems h) h0"
  have h0: "placed h0" "mset (elems h0) = {#}"
    using k by (auto simp: placed_def h0_def elems_def)
  note moved = move_all [OF h0(1), of "elems h", folded h1_def]
  have m: "mset (elems h1) = mset (elems h)" using moved h0(2) by simp
  have fns: "hash_fn h1 = hash_fn h" "less_fn h1 = less_fn h" "ht_elem_cnt h1 = ht_elem_cnt h"
    using moved by (simp_all add: h0_def)
  have "wf_hash h1"
    using assms moved fns unique_cong [OF m fns(2)] mset_eq_length [OF m] by (simp add: wf_hash_def)
  moreover have "rehash ok h = Some (if 2 ^ k = bucket_cnt h \<or> \<not> ok then h else h1)"
    by (simp add: rehash_def k(1) Let_def fold_fold_concat h1_def h0_def elems_def)
  ultimately show ?thesis using assms m fns by auto
qed

section \<open>The table as a collection of elements\<close>

text \<open>The abstract table: the elements in some order, no two of them equal.\<close>

definition lookup :: "('e \<Rightarrow> 'e \<Rightarrow> bool) \<Rightarrow> 'e list \<Rightarrow> 'e \<Rightarrow> 'e option" where
  "lookup lt xs e = find (\<lambda>x. equal_elems lt x e) xs"

datatype 'e hash_op = Insert 'e | Replace 'e | Delete 'e | Find 'e

fun abstract_step :: "('e \<Rightarrow> 'e \<Rightarrow> bool) \<Rightarrow> 'e hash_op \<Rightarrow> 'e list \<Rightarrow> 'e option \<times> 'e list" where
  "abstract_step lt (Insert e) xs =
     (lookup lt xs e, if lookup lt xs e = None then e # xs else xs)"
| "abstract_step lt (Replace e) xs =
     (lookup lt xs e, e # (case lookup lt xs e of None \<Rightarrow> xs | Some d \<Rightarrow> removeAll d xs))"
| "abstract_step lt (Delete e) xs =
     (lookup lt xs e, case lookup lt xs e of None \<Rightarrow> xs | Some d \<Rightarrow> removeAll d xs)"
| "abstract_step lt (Find e) xs = (lookup lt xs e, xs)"

fun hash_step :: "bool \<Rightarrow> 'e hash_op \<Rightarrow> 'e hash_table \<Rightarrow> ('e option \<times> 'e hash_table) option" where
  "hash_step ok (Insert e) h = hash_insert ok h e"
| "hash_step ok (Replace e) h = hash_replace ok h e"
| "hash_step ok (Delete e) h = hash_delete ok h e"
| "hash_step ok (Find e) h = Some (hash_find h e, h)"

primrec abstract_run :: "('e \<Rightarrow> 'e \<Rightarrow> bool) \<Rightarrow> (bool \<times> 'e hash_op) list \<Rightarrow> 'e list \<Rightarrow> 'e option list \<times> 'e list" where
  "abstract_run lt [] xs = ([], xs)"
| "abstract_run lt (op # ops) xs =
     (let (r, ys) = abstract_step lt (snd op) xs; (rs, zs) = abstract_run lt ops ys in (r # rs, zs))"

primrec hash_run :: "(bool \<times> 'e hash_op) list \<Rightarrow> 'e hash_table \<Rightarrow> ('e option list \<times> 'e hash_table) option" where
  "hash_run [] h = Some ([], h)"
| "hash_run (op # ops) h = do {
     (r, h) \<leftarrow> hash_step (fst op) (snd op) h;
     (rs, h) \<leftarrow> hash_run ops h;
     Some (r # rs, h)
   }"

lemma find_unique:
  assumes "\<And>a b. a \<in> set xs \<Longrightarrow> b \<in> set xs \<Longrightarrow> P a \<Longrightarrow> P b \<Longrightarrow> a = b"
  shows "find P xs = Some x \<longleftrightarrow> x \<in> set xs \<and> P x"
  using assms by (induction xs) (auto split: if_splits)

lemma wf_hash_add:
  assumes h: "wf_hash h" and new: "\<And>x. x \<in> set (elems h) \<Longrightarrow> \<not> equal_elems (less_fn h) x e"
    and irrefl: "\<not> less_fn h e e" and small: "length (elems h) + 1 < 2 ^ 32"
  shows "wf_hash (insert_elem h (find_bucket h e) e)"
    and "mset (elems (insert_elem h (find_bucket h e) e)) = add_mset e (mset (elems h))"
proof -
  have p: "placed h" using h by (simp add: wf_hash_def)
  let ?h = "insert_elem h (find_bucket h e) e"
  show m: "mset (elems ?h) = add_mset e (mset (elems h))"
    unfolding insert_elem_def by (rule elems_add [OF p])
  have "e \<notin> set (elems h)" using new [of e] irrefl by (auto simp: equal_elems_def)
  moreover have "mset (elems ?h) = mset (e # elems h)" using m by simp
  ultimately have "distinct (elems ?h)" "set (elems ?h) = insert e (set (elems h))"
    "length (elems ?h) = Suc (length (elems h))"
    using h mset_eq_imp_distinct_iff [of "elems ?h" "e # elems h"] mset_eq_setD [of "elems ?h" "e # elems h"]
      mset_eq_length [of "elems ?h" "e # elems h"]
    by (simp_all add: wf_hash_def unique_def)
  moreover have "placed ?h"
    unfolding insert_elem_def by (rule placed_add [OF p])
  ultimately show "wf_hash ?h"
    using h new small unfolding wf_hash_def unique_def
    by (auto simp: insert_elem_def equal_elems_def)
qed

lemma wf_hash_remove:
  assumes h: "wf_hash h" and d: "d \<in> set (elems h)"
  shows "wf_hash (remove_elem h d)"
    and "elems (remove_elem h d) = removeAll d (elems h)"
proof -
  let ?h = "remove_elem h d"
  show e: "elems ?h = removeAll d (elems h)"
    by (simp add: elems_def remove_elem_def concat_map_removeAll)
  have dist: "distinct (elems h)" using h by (simp add: wf_hash_def unique_def)
  have len: "length (elems ?h) = length (elems h) - 1"
    using d dist unfolding e by (simp add: length_remove1 flip: distinct_remove1_removeAll)
  have "0 < length (elems h)" using d by (cases "elems h") auto
  then have "ht_elem_cnt ?h = length (elems h) - 1"
    using h size_t_dec [of "length (elems h)"] by (simp add: remove_elem_def wf_hash_def)
  moreover have "find_bucket ?h x = find_bucket h x" for x
    by (simp add: find_bucket_def remove_elem_def)
  then have "placed ?h"
    using h by (auto simp: wf_hash_def placed_def remove_elem_def)
  moreover have "unique ?h"
    using h e by (auto simp: wf_hash_def unique_def remove_elem_def distinct_removeAll)
  ultimately show "wf_hash ?h"
    using h len by (simp add: wf_hash_def less_imp_diff_less)
qed

text \<open>What a table needs of the hash and comparison functions it is given.\<close>

locale hash_contract = list_less_func lt
  for lt :: "'e \<Rightarrow> 'e \<Rightarrow> bool" +
  fixes hsh :: "'e \<Rightarrow> u32"
  assumes equal_hash: "equal_elems lt a b \<Longrightarrow> hsh a = hsh b"
begin

definition is_table :: "'e hash_table \<Rightarrow> 'e list \<Rightarrow> bool" where
  "is_table h xs \<longleftrightarrow> wf_hash h \<and> hash_fn h = hsh \<and> less_fn h = lt \<and> mset (elems h) = mset xs"

lemma equal_elems_trans: "equal_elems lt a c \<Longrightarrow> equal_elems lt b c \<Longrightarrow> equal_elems lt a b"
  unfolding equal_elems_def using not_lt_trans by blast

lemma lookup_unique:
  assumes "\<And>a b. a \<in> set xs \<Longrightarrow> b \<in> set xs \<Longrightarrow> equal_elems lt a b \<Longrightarrow> a = b"
  shows "lookup lt xs e = Some x \<longleftrightarrow> x \<in> set xs \<and> equal_elems lt x e"
  unfolding lookup_def by (rule find_unique) (blast intro: assms equal_elems_trans)

lemma find_elem_lookup:
  assumes "is_table h xs"
  shows "find_elem h (find_bucket h e) e = lookup lt xs e"
proof -
  have h: "wf_hash h" "hash_fn h = hsh" "less_fn h = lt" and m: "mset (elems h) = mset xs"
    using assms by (auto simp: is_table_def)
  have p: "placed h" using h by (simp add: wf_hash_def)
  have u: "a = b" if "a \<in> set (elems h)" "b \<in> set (elems h)" "equal_elems lt a b" for a b
    using that h by (auto simp: wf_hash_def unique_def)
  note bucket = set_bucket [OF p find_bucket_less [OF p], of e]
  have "find_elem h (find_bucket h e) e = Some x \<longleftrightarrow>
      x \<in> set (buckets h ! find_bucket h e) \<and> equal_elems lt x e" for x
    unfolding find_elem_def h(3) equal_elems_def [symmetric]
    by (rule find_unique) (use bucket u equal_elems_trans in blast)
  moreover have "find_bucket h x = find_bucket h e" if "equal_elems lt x e" for x
    using equal_hash [OF that] h by (simp add: find_bucket_def)
  ultimately have "find_elem h (find_bucket h e) e = Some x \<longleftrightarrow> x \<in> set (elems h) \<and> equal_elems lt x e" for x
    unfolding bucket by auto
  moreover have "lookup lt xs e = Some x \<longleftrightarrow> x \<in> set (elems h) \<and> equal_elems lt x e" for x
    unfolding mset_eq_setD [OF m] by (rule lookup_unique) (use u mset_eq_setD [OF m] in blast)
  ultimately show ?thesis by (metis option.exhaust)
qed

lemma rehash_table:
  assumes "is_table h xs"
  shows "\<exists>h'. rehash ok h = Some h' \<and> is_table h' xs"
  using rehash_ok [of h ok] assms by (auto simp: is_table_def)

lemma insert_table:
  assumes "is_table h xs" and "lookup lt xs e = None" and "length xs + 1 < 2 ^ 32"
  shows "is_table (insert_elem h (find_bucket h e) e) (e # xs)"
proof -
  have h: "wf_hash h" "less_fn h = lt" "hash_fn h = hsh" and m: "mset (elems h) = mset xs"
    using assms by (auto simp: is_table_def)
  have "\<not> equal_elems lt x e" if "x \<in> set (elems h)" for x
    using that assms(2) mset_eq_setD [OF m] by (auto simp: lookup_def find_None_iff)
  then show ?thesis
    using wf_hash_add [OF h(1), of e] h assms(3) mset_eq_length [OF m] m
    by (simp add: is_table_def) (simp add: insert_elem_def)
qed

lemma remove_table:
  assumes "is_table h xs" and "lookup lt xs e = Some d"
  shows "is_table (remove_elem h d) (removeAll d xs)"
proof -
  have m: "mset (elems h) = mset xs" and h: "wf_hash h" using assms by (auto simp: is_table_def)
  have d: "d \<in> set (elems h)"
    using assms(2) mset_eq_setD [OF m] by (auto simp: lookup_def find_Some_iff)
  have "mset (removeAll d (elems h)) = mset (removeAll d xs)"
    using m by (metis mset_filter removeAll_filter_not_eq)
  then show ?thesis
    using wf_hash_remove [OF h d] assms(1) by (simp add: is_table_def) (simp add: remove_elem_def)
qed

lemma removed_lookup:
  assumes "is_table h xs" and "lookup lt xs e = Some d"
  shows "lookup lt (removeAll d xs) e = None"
proof -
  have m: "set (elems h) = set xs" using assms mset_eq_setD by (auto simp: is_table_def)
  have u: "a = b" if "a \<in> set xs" "b \<in> set xs" "equal_elems lt a b" for a b
    using that assms m by (auto simp: is_table_def wf_hash_def unique_def)
  have d: "d \<in> set xs" "equal_elems lt d e"
    using assms(2) lookup_unique [of xs e d] u by auto
  then have "x = d" if "x \<in> set xs" "equal_elems lt x e" for x
    using that u equal_elems_trans [of x e d] by blast
  then show ?thesis by (auto simp: lookup_def find_None_iff)
qed

lemma removed_length: "length (removeAll d xs) + 1 \<le> length xs + 1"
  using length_removeAll_less_eq [of d xs] by simp

lemma step_refines:
  assumes t: "is_table h xs" and small: "length xs + 1 < 2 ^ 32"
  shows "\<exists>h'. hash_step ok op h = Some (fst (abstract_step lt op xs), h') \<and>
    is_table h' (snd (abstract_step lt op xs))"
proof (cases op)
  case (Insert e)
  show ?thesis
  proof (cases "lookup lt xs e")
    case None
    then show ?thesis
      using rehash_table [OF insert_table [OF t None small], of ok] Insert find_elem_lookup [OF t, of e]
      by (auto simp: hash_insert_def Let_def)
  next
    case (Some d)
    then show ?thesis
      using rehash_table [OF t, of ok] Insert find_elem_lookup [OF t, of e] by (auto simp: hash_insert_def)
  qed
next
  case (Replace e)
  show ?thesis
  proof (cases "lookup lt xs e")
    case None
    then show ?thesis
      using rehash_table [OF insert_table [OF t None small], of ok] Replace find_elem_lookup [OF t, of e]
      by (auto simp: hash_replace_def Let_def)
  next
    case (Some d)
    have len: "length (removeAll d xs) + 1 < 2 ^ 32"
      using removed_length small by (rule le_less_trans)
    have b: "find_bucket (remove_elem h d) e = find_bucket h e"
      by (simp add: find_bucket_def remove_elem_def)
    show ?thesis
      using rehash_table [OF insert_table [OF remove_table [OF t Some] removed_lookup [OF t Some] len], of ok]
        Some Replace find_elem_lookup [OF t, of e]
      by (auto simp: hash_replace_def Let_def b)
  qed
next
  case (Delete e)
  show ?thesis
  proof (cases "lookup lt xs e")
    case None
    then show ?thesis
      using t Delete find_elem_lookup [OF t, of e] by (simp add: hash_delete_def)
  next
    case (Some d)
    then show ?thesis
      using rehash_table [OF remove_table [OF t Some], of ok] Delete find_elem_lookup [OF t, of e]
      by (auto simp: hash_delete_def)
  qed
next
  case (Find e)
  then show ?thesis
    using t find_elem_lookup [OF t, of e] by (simp add: hash_find_def)
qed

lemma step_length: "length (snd (abstract_step lt op xs)) \<le> length xs + 1"
  by (cases op) (auto split: option.split intro: le_SucI length_removeAll_less_eq)

lemma run_refines:
  "is_table h xs \<Longrightarrow> length xs + length ops < 2 ^ 32 \<Longrightarrow>
   \<exists>h'. hash_run ops h = Some (fst (abstract_run lt ops xs), h') \<and>
     is_table h' (snd (abstract_run lt ops xs))"
proof (induction ops arbitrary: h xs)
  case (Cons op ops)
  define ys where "ys = snd (abstract_step lt (snd op) xs)"
  have "length xs + 1 < 2 ^ 32" using Cons.prems(2) by simp
  from step_refines [OF Cons.prems(1) this, of "fst op" "snd op"] obtain h1 where
    1: "hash_step (fst op) (snd op) h = Some (fst (abstract_step lt (snd op) xs), h1)" "is_table h1 ys"
    unfolding ys_def by blast
  have "length ys + length ops < 2 ^ 32"
    using Cons.prems(2) step_length [of "snd op" xs] unfolding ys_def by simp
  from Cons.IH [OF 1(2) this] show ?case
    using 1(1) by (auto simp: ys_def split: prod.split)
qed simp

lemma init_table: "is_table (snd (hash_init True hsh lt)) []"
proof -
  have "\<exists>k. (4 :: nat) = 2 ^ k \<and> 2 \<le> k \<and> k < 32" by (intro exI [of _ 2]) simp
  then show ?thesis
    by (auto simp: is_table_def hash_init_def hash_clear_def wf_hash_def unique_def elems_def placed_def Let_def)
qed

end

section \<open>The table refines a collection\<close>

text \<open>
  C16: a hash table refines a collection without duplicates.  After \<open>hash_init\<close>, every sequence of
  insertions, replacements, deletions and searches returns, whatever allocations succeed while the
  table is rehashed, exactly what the same sequence returns on a list of elements searched one by
  one; no operation runs forever or indexes outside the buckets, and the final table satisfies its
  invariant and holds the elements of the list.
\<close>

theorem hash_refines_collection:
  assumes "hash_contract lt hsh" and "length ops < 2 ^ 32"
  shows "\<exists>h. hash_run ops (snd (hash_init True hsh lt)) = Some (fst (abstract_run lt ops []), h) \<and>
    wf_hash h \<and> mset (elems h) = mset (snd (abstract_run lt ops [])) \<and>
    hash_size h = length (snd (abstract_run lt ops []))"
proof -
  obtain h where h: "hash_run ops (snd (hash_init True hsh lt)) = Some (fst (abstract_run lt ops []), h)"
    "hash_contract.is_table lt hsh h (snd (abstract_run lt ops []))"
    using hash_contract.run_refines [OF assms(1) hash_contract.init_table [OF assms(1)]] assms(2) by auto
  then have w: "wf_hash h" "mset (elems h) = mset (snd (abstract_run lt ops []))"
    by (simp_all add: hash_contract.is_table_def [OF assms(1)])
  then have "hash_size h = length (snd (abstract_run lt ops []))"
    using mset_eq_length [OF w(2)] by (simp add: hash_size_def wf_hash_def)
  with h w show ?thesis by blast
qed

definition int_less :: "int \<Rightarrow> int \<Rightarrow> bool" where
  "int_less a b \<longleftrightarrow> a < b"

lemma int_hash_contract: "hash_contract int_less hash_int"
  by unfold_locales (auto simp: int_less_def equal_elems_def)

theorem hash_refines_collection_witness:
  "\<exists>h. hash_run [(True, Insert 5), (True, Insert 7), (True, Insert 5), (True, Delete 7)]
      (snd (hash_init True hash_int int_less)) = Some ([None, None, Some 5, Some 7], h) \<and>
    mset (elems h) = {#5#}"
  using hash_refines_collection [OF int_hash_contract,
      of "[(True, Insert 5), (True, Insert 7), (True, Insert 5), (True, Delete 7)]"]
  by (auto simp: lookup_def equal_elems_def int_less_def)

section \<open>Iteration\<close>

definition left_to_visit :: "'e hash_table \<Rightarrow> nat \<Rightarrow> nat \<Rightarrow> 'e list" where
  "left_to_visit h b p = drop p (buckets h ! b) @ concat (drop (b + 1) (buckets h))"

declare hash_next_loop.simps [simp del]

lemma hash_next_loop_spec:
  assumes "length (buckets h) = bucket_cnt h" and "b < bucket_cnt h"
  shows "case left_to_visit h b p of
      [] \<Rightarrow> it_elem (hash_next_loop h b p) = None
    | e # es \<Rightarrow> (let i = hash_next_loop h b p in
        it_elem i = Some e \<and> it_bucket i < bucket_cnt h \<and> left_to_visit h (it_bucket i) (it_pos i) = es)"
  using assms
proof (induction h b p rule: hash_next_loop.induct)
  case (1 h b p)
  show ?case
  proof (cases "p < length (buckets h ! b)")
    case True
    then show ?thesis
      using 1 by (subst (1 2) hash_next_loop.simps) (simp add: left_to_visit_def Cons_nth_drop_Suc [symmetric])
  next
    case False
    show ?thesis
    proof (cases "bucket_cnt h \<le> b + 1")
      case True
      then show ?thesis
        using False 1 by (subst (1 2) hash_next_loop.simps) (simp add: left_to_visit_def)
    next
      case more: False
      have visit: "left_to_visit h b p = left_to_visit h (b + 1) 0"
        using False more 1 by (simp add: left_to_visit_def Cons_nth_drop_Suc [symmetric])
      have step: "hash_next_loop h b p = hash_next_loop h (b + 1) 0"
        using False more by (subst hash_next_loop.simps) simp
      show ?thesis
        unfolding visit step using False more 1 by (intro 1) simp_all
    qed
  qed
qed

lemma hash_iterate_rest:
  "length (buckets h) = bucket_cnt h \<Longrightarrow> it_bucket i < bucket_cnt h \<Longrightarrow>
   hash_iterate h i seen = Some (seen @ left_to_visit h (it_bucket i) (it_pos i))"
proof (induction "left_to_visit h (it_bucket i) (it_pos i)" arbitrary: i seen)
  case Nil
  then show ?case
    using hash_next_loop_spec [of h "it_bucket i" "it_pos i"]
    by (subst hash_iterate.simps) (simp add: hash_next_def hash_cur_def)
next
  case (Cons e es)
  define j where "j = hash_next_loop h (it_bucket i) (it_pos i)"
  have j: "it_elem j = Some e" "it_bucket j < bucket_cnt h" "es = left_to_visit h (it_bucket j) (it_pos j)"
    using hash_next_loop_spec [of h "it_bucket i" "it_pos i"] Cons.prems Cons.hyps(2) [symmetric]
    by (simp_all add: j_def Let_def)
  have "hash_next h i = Some j"
    using Cons.prems by (simp add: hash_next_def j_def)
  then have "hash_iterate h i seen = hash_iterate h j (seen @ [e])"
    using j(1) by (subst hash_iterate.simps) (simp add: hash_cur_def)
  also have "\<dots> = Some ((seen @ [e]) @ left_to_visit h (it_bucket j) (it_pos j))"
    using j Cons.prems by (intro Cons.hyps(1)) auto
  finally show ?case
    using Cons.hyps(2) j(3) by simp
qed

text \<open>
  C17: iterating over a well-formed table with \<open>hash_first\<close> and \<open>hash_next\<close> ends, and visits every
  element of the table exactly once: the elements visited are distinct, and they are the elements
  that \<open>hash_find\<close> finds.
\<close>

theorem hash_iteration_terminates:
  assumes "wf_hash h" and "hash_contract (less_fn h) (hash_fn h)"
  shows "\<exists>es. hash_iterate h (hash_first h) [] = Some es \<and> distinct es \<and> length es = hash_size h \<and>
    set es = {e. hash_find h e = Some e}"
proof -
  have len: "length (buckets h) = bucket_cnt h" "0 < bucket_cnt h"
    using assms(1) by (auto simp: wf_hash_def placed_def)
  have "left_to_visit h 0 0 = elems h"
    using len by (cases "buckets h") (auto simp: left_to_visit_def elems_def)
  then have "hash_iterate h (hash_first h) [] = Some (elems h)"
    using hash_iterate_rest [of h "hash_first h" "[]"] len by (simp add: hash_first_def)
  moreover have t: "hash_contract.is_table (less_fn h) (hash_fn h) h (elems h)"
    using assms by (simp add: hash_contract.is_table_def)
  have "hash_find h e = Some e \<longleftrightarrow> e \<in> set (elems h)" for e
    unfolding hash_find_def hash_contract.find_elem_lookup [OF assms(2) t]
    using hash_contract.lookup_unique [OF assms(2), of "elems h" e e] assms(1)
      list_less_func.lt_irrefl [OF hash_contract.axioms(1) [OF assms(2)], of e]
    by (auto simp: wf_hash_def unique_def equal_elems_def)
  ultimately show ?thesis
    using assms(1) by (auto simp: wf_hash_def unique_def hash_size_def)
qed

theorem hash_iteration_terminates_witness:
  "\<exists>h es. hash_run [(True, Insert 5), (False, Insert 7)] (snd (hash_init True hash_int int_less)) =
      Some ([None, None], h) \<and> hash_iterate h (hash_first h) [] = Some es \<and> length es = 2"
proof -
  obtain h where h: "hash_run [(True, Insert 5), (False, Insert 7)] (snd (hash_init True hash_int int_less)) =
      Some ([None, None], h)" "hash_contract.is_table int_less hash_int h [7, 5]"
    using hash_contract.run_refines [OF int_hash_contract hash_contract.init_table [OF int_hash_contract],
        of "[(True, Insert 5), (False, Insert 7)]"]
    by (auto simp: lookup_def equal_elems_def int_less_def)
  then have w: "wf_hash h" "hash_contract (less_fn h) (hash_fn h)" "mset (elems h) = {#7, 5#}"
    using int_hash_contract by (simp_all add: hash_contract.is_table_def)
  have "hash_size h = 2"
    using w mset_eq_length [of "elems h" "[7, 5]"] by (simp add: hash_size_def wf_hash_def)
  then show ?thesis
    using hash_iteration_terminates [OF w(1,2)] h(1) by auto
qed

section \<open>Actions and hash functions\<close>

lemma hash_apply_elems: "hash_apply action h s = fold action (elems h) s"
  by (simp add: hash_apply_def elems_def fold_fold_concat)

text \<open>Clearing calls the destructor once on every element and leaves an empty, well-formed table.\<close>

lemma hash_clear_correct:
  assumes "wf_hash h"
  shows "wf_hash (fst (hash_clear (Some d) h s))" "elems (fst (hash_clear (Some d) h s)) = []"
    "snd (hash_clear (Some d) h s) = fold d (elems h) s"
  using assms by (auto simp: wf_hash_def placed_def unique_def hash_clear_def elems_def fold_fold_concat)

lemma hash_bytes_loop_fold: "hash_bytes_loop m p n hash = fold fnv_step (bytes m p n) hash"
  by (induction n arbitrary: p hash) (simp_all add: bytes_Suc)

lemma hash_bytes_fold: "p \<noteq> NULL \<Longrightarrow> hash_bytes m p n = Some (fold fnv_step (bytes m p n) FNV_32_BASIS)"
  by (simp add: hash_bytes_def hash_bytes_loop_fold)

lemma hash_string_loop_fold: "cstr m p s \<Longrightarrow> hash_string_loop m p hash = Some (fold fnv_step s hash)"
  by (induction s arbitrary: p hash) (subst hash_string_loop.simps; simp)+

text \<open>The two hash functions for text agree, and the hash of an integer is that of its bytes.\<close>

lemma hash_string_bytes: "cstr m p s \<Longrightarrow> hash_string m p = hash_bytes m p (length s)"
  by (simp add: hash_string_def hash_string_loop_fold cstr_nonnull hash_bytes_fold) (simp add: cstr_def)

lemma hash_int_bytes:
  assumes "p \<noteq> NULL" and "\<And>k. k < 4 \<Longrightarrow> m (p + k) = ucast (drop_bit (8 * k) (word_of_int i :: u32))"
  shows "hash_bytes m p 4 = Some (hash_int i)"
proof -
  have "bytes m p (Suc (Suc (Suc (Suc 0)))) = [m (p + 0), m (p + 1), m (p + 2), m (p + 3)]"
    by (simp add: bytes_Suc add.commute [of p] eval_nat_numeral)
  then have "bytes m p 4 = [m (p + 0), m (p + 1), m (p + 2), m (p + 3)]"
    by (simp add: eval_nat_numeral)
  then have "bytes m p 4 = map (\<lambda>k. ucast (drop_bit (8 * k) (word_of_int i :: u32))) [0, 1, 2, 3]"
    using assms(2) [of 0] assms(2) [of 1] assms(2) [of 2] assms(2) [of 3] by (simp only: list.map)
  then show ?thesis
    using assms(1) by (simp add: hash_bytes_fold hash_int_def)
qed

end
