(* ===== verification/Kstate.thy ===== *)
theory Kstate
  imports Pairing_Heap Fixed_Point
begin

text \<open>
  The state that \<open>src/src/threads/thread.c\<close>, \<open>synch.c\<close>, \<open>interrupt.c\<close> and \<open>devices/timer.c\<close>
  share.  Threads, semaphores, locks, condition variables and read-write locks live at addresses;
  a kernel list is the sequence of the objects linked into it (theory \<open>Klist\<close>).

  A thread that is switched out inside a kernel routine resumes there.  What is left for it to do
  is a stack of \<open>kframe\<close>s, one for each point of the source from which execution goes on after a
  call that may switch threads; \<open>Synch\<close> gives their meaning.
\<close>

section \<open>Threads\<close>

datatype thread_status = THREAD_RUNNING | THREAD_READY | THREAD_BLOCKED | THREAD_DYING

datatype load_status = LOAD_READY | LOAD_SUCCESS | LOAD_FAIL

text \<open>What is left to do when control returns to a point of the source.\<close>

datatype kframe =
    Set_level bool
  | Sema_down addr
  | Sema_wait addr bool
  | Sema_up addr
  | Lock_acquire addr
  | Lock_acquired addr
  | Lock_release addr
  | Cond_broadcast addr addr
  | Rw_reader addr addr
  | Rw_writer addr addr
  | Rw_released addr
  | Rw_wake addr
  | Tid_locked addr
  | Thread_created addr int
  | Kernel_thread
  | Idle_started addr
  | Idle_loop
  | Idle_halt

record thread =
  tid :: int
  status :: thread_status
  name :: string
  stack :: nat
  priority :: int
  nice :: int
  recent_cpu :: int
  extra_priority :: int
  parent :: addr
  locks :: "addr list"
  wakeup_tick :: int
  pagedir :: addr
  creator :: addr
  ch_load_status :: load_status
  mapid_next :: int
  cwd :: nat
  magic :: u32
  frames :: "kframe list"

definition THREAD_MAGIC :: u32 where
  "THREAD_MAGIC = 0xcd6abf4b"

definition TID_ERROR :: int where
  "TID_ERROR = - 1"

definition PRI_MIN :: int where
  "PRI_MIN = 0"

definition PRI_DEFAULT :: int where
  "PRI_DEFAULT = 31"

definition PRI_MAX :: int where
  "PRI_MAX = 63"

definition NICE_MIN :: int where
  "NICE_MIN = - 20"

definition NICE_DEFAULT :: int where
  "NICE_DEFAULT = 0"

definition NICE_MAX :: int where
  "NICE_MAX = 20"

definition RECENT_CPU_DEFAULT :: int where
  "RECENT_CPU_DEFAULT = INT_TO_FP 0"

definition LOAD_AVG_DEFAULT :: int where
  "LOAD_AVG_DEFAULT = INT_TO_FP 0"

definition TIME_SLICE :: nat where
  "TIME_SLICE = 4"

section \<open>Synchronisation objects\<close>

record semaphore =
  sema_value :: nat
  waiters :: "addr list"

text \<open>
  The semaphore of a lock is stored at the address of the lock, the lock of a read-write lock at
  the address of the read-write lock; a waiter of a read-write lock is its \<open>is_writer\<close> flag and the
  address of its semaphore.
\<close>

record rwlock =
  rw_waiters :: "(bool \<times> addr) list"
  active_readers :: nat
  active_writers :: nat

section \<open>The kernel\<close>

record kernel =
  threads :: "addr \<Rightarrow> thread"
  ready_list :: "addr list"
  all_list :: "addr list"
  idle_thread :: addr
  initial_thread :: addr
  running :: addr
  intr_on :: bool
  in_external_intr :: bool
  yield_on_return :: bool
  idle_ticks :: int
  kernel_ticks :: int
  user_ticks :: int
  thread_ticks :: nat
  thread_mlfqs :: bool
  load_avg :: int
  next_tid :: int
  active_pagedir :: addr
  freed :: "addr list"
  semas :: "addr \<Rightarrow> semaphore"
  holder :: "addr \<Rightarrow> addr"
  conds :: "addr \<Rightarrow> addr list"
  rwlocks :: "addr \<Rightarrow> rwlock"
  ticks :: int
  loops_per_tick :: int
  sleep_que :: pheap
  sleep_links :: nheap

definition upd_thread :: "addr \<Rightarrow> (thread \<Rightarrow> thread) \<Rightarrow> kernel \<Rightarrow> kernel" where
  "upd_thread t f k = k\<lparr>threads := (threads k)(t := f (threads k t))\<rparr>"

abbreviation set_status :: "addr \<Rightarrow> thread_status \<Rightarrow> kernel \<Rightarrow> kernel" where
  "set_status t s \<equiv> upd_thread t (status_update (\<lambda>_. s))"

abbreviation thread_status_of :: "kernel \<Rightarrow> addr \<Rightarrow> thread_status" where
  "thread_status_of k t \<equiv> status (threads k t)"

definition push_frames :: "kframe list \<Rightarrow> kernel \<Rightarrow> kernel" where
  "push_frames fs k = upd_thread (running k) (frames_update (\<lambda>gs. fs @ gs)) k"

definition upd_sema :: "addr \<Rightarrow> (semaphore \<Rightarrow> semaphore) \<Rightarrow> kernel \<Rightarrow> kernel" where
  "upd_sema s f k = k\<lparr>semas := (semas k)(s := f (semas k s))\<rparr>"

section \<open>Interrupts\<close>

text \<open>The interrupt flag of the processor, \<open>interrupt.c\<close>.\<close>

definition intr_context :: "kernel \<Rightarrow> bool" where
  "intr_context k = in_external_intr k"

definition intr_enable :: "kernel \<Rightarrow> kernel option" where
  "intr_enable k = do {
     ASSERT (\<not> intr_context k);
     Some (k\<lparr>intr_on := True\<rparr>)
   }"

definition intr_disable :: "kernel \<Rightarrow> kernel" where
  "intr_disable k = k\<lparr>intr_on := False\<rparr>"

definition intr_set_level :: "bool \<Rightarrow> kernel \<Rightarrow> kernel option" where
  "intr_set_level l k = (if l then intr_enable k else Some (intr_disable k))"

definition intr_yield_on_return :: "kernel \<Rightarrow> kernel option" where
  "intr_yield_on_return k = do {
     ASSERT (intr_context k);
     Some (k\<lparr>yield_on_return := True\<rparr>)
   }"

lemma upd_thread_simps [simp]:
  "threads (upd_thread t f k) = (threads k)(t := f (threads k t))"
  "ready_list (upd_thread t f k) = ready_list k"
  "all_list (upd_thread t f k) = all_list k"
  "idle_thread (upd_thread t f k) = idle_thread k"
  "initial_thread (upd_thread t f k) = initial_thread k"
  "running (upd_thread t f k) = running k"
  "intr_on (upd_thread t f k) = intr_on k"
  "in_external_intr (upd_thread t f k) = in_external_intr k"
  "yield_on_return (upd_thread t f k) = yield_on_return k"
  "thread_mlfqs (upd_thread t f k) = thread_mlfqs k"
  "load_avg (upd_thread t f k) = load_avg k"
  "next_tid (upd_thread t f k) = next_tid k"
  "semas (upd_thread t f k) = semas k"
  "holder (upd_thread t f k) = holder k"
  "conds (upd_thread t f k) = conds k"
  "rwlocks (upd_thread t f k) = rwlocks k"
  "ticks (upd_thread t f k) = ticks k"
  "sleep_que (upd_thread t f k) = sleep_que k"
  "sleep_links (upd_thread t f k) = sleep_links k"
  "freed (upd_thread t f k) = freed k"
  by (simp_all add: upd_thread_def)

lemma upd_sema_simps [simp]:
  "semas (upd_sema s g k) = (semas k)(s := g (semas k s))"
  "threads (upd_sema s g k) = threads k"
  "ready_list (upd_sema s g k) = ready_list k"
  "all_list (upd_sema s g k) = all_list k"
  "idle_thread (upd_sema s g k) = idle_thread k"
  "initial_thread (upd_sema s g k) = initial_thread k"
  "running (upd_sema s g k) = running k"
  "intr_on (upd_sema s g k) = intr_on k"
  "in_external_intr (upd_sema s g k) = in_external_intr k"
  "yield_on_return (upd_sema s g k) = yield_on_return k"
  "thread_mlfqs (upd_sema s g k) = thread_mlfqs k"
  "holder (upd_sema s g k) = holder k"
  "conds (upd_sema s g k) = conds k"
  "rwlocks (upd_sema s g k) = rwlocks k"
  "sleep_que (upd_sema s g k) = sleep_que k"
  "sleep_links (upd_sema s g k) = sleep_links k"
  by (simp_all add: upd_sema_def)

end
