(* ===== verification/Sched.thy ===== *)
theory Sched
  imports Kstate
begin

text \<open>
  The scheduler of \<open>src/src/threads/thread.c\<close>: choice of the next thread, blocking, unblocking,
  yielding and exiting, priorities and the multi-level feedback queue.  A routine that switches
  threads leaves the state in which the new thread runs; what the old thread has still to do is on
  its frame stack.
\<close>

section \<open>Threads and priorities\<close>

definition is_thread :: "kernel \<Rightarrow> addr \<Rightarrow> bool" where
  "is_thread k t \<longleftrightarrow> t \<noteq> NULL \<and> magic (threads k t) = THREAD_MAGIC"

text \<open>
  \<open>running_thread\<close> rounds the stack pointer down to its page, which is the field \<open>running\<close>.
\<close>

definition running_thread :: "kernel \<Rightarrow> addr" where
  "running_thread k = running k"

definition thread_current :: "kernel \<Rightarrow> addr option" where
  "thread_current k = do {
     let t = running_thread k;
     ASSERT (is_thread k t);
     ASSERT (status (threads k t) = THREAD_RUNNING);
     Some t
   }"

definition thread_name :: "kernel \<Rightarrow> string option" where
  "thread_name k = do { t \<leftarrow> thread_current k; Some (name (threads k t)) }"

definition thread_tid :: "kernel \<Rightarrow> int option" where
  "thread_tid k = do { t \<leftarrow> thread_current k; Some (tid (threads k t)) }"

text \<open>The priority a thread is scheduled with: its own or a donated one, whichever is higher.\<close>

definition eff_priority :: "kernel \<Rightarrow> addr \<Rightarrow> int" where
  "eff_priority k t = max (priority (threads k t)) (extra_priority (threads k t))"

definition thread_less :: "kernel \<Rightarrow> addr \<Rightarrow> addr \<Rightarrow> bool option" where
  "thread_less k a b = do {
     ASSERT (is_thread k a \<and> is_thread k b);
     ASSERT (tid (threads k a) \<noteq> tid (threads k b));
     Some (eff_priority k a < eff_priority k b)
   }"

definition thread_list_less :: "kernel \<Rightarrow> addr \<Rightarrow> addr \<Rightarrow> bool option" where
  "thread_list_less k a b = do {
     ASSERT (a \<noteq> NULL \<and> b \<noteq> NULL);
     thread_less k a b
   }"

text \<open>\<open>list_max\<close> with a comparison that may panic: the first of the greatest elements.\<close>

primrec list_max_from :: "(addr \<Rightarrow> addr \<Rightarrow> bool option) \<Rightarrow> addr \<Rightarrow> addr list \<Rightarrow> addr option" where
  "list_max_from lt m [] = Some m"
| "list_max_from lt m (e # es) = do {
     b \<leftarrow> lt m e;
     list_max_from lt (if b then e else m) es
   }"

definition thread_list_max :: "kernel \<Rightarrow> addr list \<Rightarrow> addr option" where
  "thread_list_max k ts = do {
     ASSERT (ts \<noteq> []);
     m \<leftarrow> list_max_from (thread_list_less k) (hd ts) (tl ts);
     ASSERT (is_thread k m);
     Some m
   }"

section \<open>Scheduling\<close>

definition next_thread_to_run :: "kernel \<Rightarrow> (addr \<times> kernel) option" where
  "next_thread_to_run k =
     (if ready_list k = [] then Some (idle_thread k, k)
      else do {
        max_thread \<leftarrow> thread_list_max k (ready_list k);
        Some (max_thread, k\<lparr>ready_list := removeAll max_thread (ready_list k)\<rparr>)
      })"

definition thread_schedule_tail :: "addr \<Rightarrow> kernel \<Rightarrow> kernel option" where
  "thread_schedule_tail prev k = do {
     let cur = running_thread k;
     ASSERT (\<not> intr_on k);
     let k = set_status cur THREAD_RUNNING k;
     let k = k\<lparr>thread_ticks := 0, active_pagedir := pagedir (threads k cur)\<rparr>;
     if prev \<noteq> NULL \<and> status (threads k prev) = THREAD_DYING \<and> prev \<noteq> initial_thread k
     then do {
       ASSERT (prev \<noteq> cur);
       Some (k\<lparr>freed := prev # freed k\<rparr>)
     }
     else Some k
   }"

definition schedule :: "kernel \<Rightarrow> kernel option" where
  "schedule k = do {
     let cur = running_thread k;
     (nxt, k) \<leftarrow> next_thread_to_run k;
     ASSERT (\<not> intr_on k);
     ASSERT (status (threads k cur) \<noteq> THREAD_RUNNING);
     ASSERT (is_thread k nxt);
     if cur \<noteq> nxt then thread_schedule_tail cur (k\<lparr>running := nxt\<rparr>)
     else thread_schedule_tail NULL k
   }"

definition thread_block :: "kernel \<Rightarrow> kernel option" where
  "thread_block k = do {
     ASSERT (\<not> intr_context k);
     ASSERT (\<not> intr_on k);
     cur \<leftarrow> thread_current k;
     schedule (set_status cur THREAD_BLOCKED k)
   }"

definition thread_unblock :: "addr \<Rightarrow> kernel \<Rightarrow> kernel option" where
  "thread_unblock t k = do {
     ASSERT (is_thread k t);
     let old_level = intr_on k;
     let k = intr_disable k;
     ASSERT (status (threads k t) = THREAD_BLOCKED);
     let k = k\<lparr>ready_list := ready_list k @ [t]\<rparr>;
     intr_set_level old_level (set_status t THREAD_READY k)
   }"

definition thread_exit :: "kernel \<Rightarrow> kernel option" where
  "thread_exit k = do {
     ASSERT (\<not> intr_context k);
     let k = intr_disable k;
     cur \<leftarrow> thread_current k;
     schedule (set_status cur THREAD_DYING (k\<lparr>all_list := removeAll cur (all_list k)\<rparr>))
   }"

text \<open>The frame \<open>Set_level\<close> is the restoring of the interrupt level once the thread runs again.\<close>

definition thread_yield :: "kernel \<Rightarrow> kernel option" where
  "thread_yield k = do {
     cur \<leftarrow> thread_current k;
     ASSERT (\<not> intr_context k);
     let old_level = intr_on k;
     let k = push_frames [Set_level old_level] (intr_disable k);
     let k = (if cur \<noteq> idle_thread k then k\<lparr>ready_list := ready_list k @ [cur]\<rparr> else k);
     schedule (set_status cur THREAD_READY k)
   }"

definition thread_foreach :: "(addr \<Rightarrow> kernel \<Rightarrow> kernel option) \<Rightarrow> kernel \<Rightarrow> kernel option" where
  "thread_foreach func k = do {
     ASSERT (\<not> intr_on k);
     fold (\<lambda>t r. do { k \<leftarrow> r; func t k }) (all_list k) (Some k)
   }"

text \<open>
  \<open>tid_to_thread\<close> starts at the last element of \<open>all_list\<close> and steps with \<open>list_next\<close>.  After the
  last element it reaches the list tail, which it takes for a thread too, the one at address
  \<open>tail_entry\<close>; the successor of the tail is a failed assertion in \<open>list_next\<close>.
\<close>

definition tid_to_thread :: "addr \<Rightarrow> int \<Rightarrow> kernel \<Rightarrow> addr option" where
  "tid_to_thread tail_entry t k = do {
     ASSERT (t \<noteq> TID_ERROR);
     ASSERT (all_list k \<noteq> []);
     if tid (threads k (last (all_list k))) = t then Some (last (all_list k))
     else do {
       ASSERT (tid (threads k tail_entry) = t);
       Some tail_entry
     }
   }"

section \<open>Priorities and the multi-level feedback queue\<close>

definition calc_mlfq_priority :: "addr \<Rightarrow> kernel \<Rightarrow> int option" where
  "calc_mlfq_priority t k = do {
     ASSERT (is_thread k t);
     if t = idle_thread k then Some (priority (threads k t))
     else do {
       q \<leftarrow> FP_DIV_INT (recent_cpu (threads k t)) 4;
       let result = to_s32 (PRI_MAX - FP_TO_INT q - nice (threads k t) * 2);
       Some (max (min result PRI_MAX) PRI_MIN)
     }
   }"

definition thread_calc_recent_cpu :: "addr \<Rightarrow> kernel \<Rightarrow> kernel option" where
  "thread_calc_recent_cpu t k = do {
     tmp \<leftarrow> FP_DIV (FP_MUL_INT (load_avg k) 2) (FP_ADD_INT (FP_MUL_INT (load_avg k) 2) 1);
     r \<leftarrow> FP_MUL tmp (recent_cpu (threads k t));
     let k = upd_thread t (recent_cpu_update (\<lambda>_. FP_ADD_INT r (nice (threads k t)))) k;
     p \<leftarrow> calc_mlfq_priority t k;
     Some (upd_thread t (priority_update (\<lambda>_. p)) k)
   }"

definition thread_calc_load_avg :: "kernel \<Rightarrow> kernel option" where
  "thread_calc_load_avg k = do {
     cur \<leftarrow> thread_current k;
     let ready_threads = INT_TO_FP (int (length (ready_list k)) + (if cur \<noteq> idle_thread k then 1 else 0));
     k1 \<leftarrow> FP_DIV (INT_TO_FP 59) (INT_TO_FP 60);
     k2 \<leftarrow> FP_DIV (INT_TO_FP 1) (INT_TO_FP 60);
     a \<leftarrow> FP_MUL k1 (load_avg k);
     b \<leftarrow> FP_MUL k2 ready_threads;
     Some (k\<lparr>load_avg := FP_ADD a b\<rparr>)
   }"

text \<open>Yield at once when a ready thread has a higher priority than the running one.\<close>

definition yield_to_higher :: "addr \<Rightarrow> kernel \<Rightarrow> kernel option" where
  "yield_to_higher cur k =
     (if ready_list k \<noteq> [] then do {
        max_thread \<leftarrow> thread_list_max k (ready_list k);
        b \<leftarrow> thread_less k cur max_thread;
        if b then thread_yield k else Some k
      }
      else Some k)"

definition thread_set_priority :: "int \<Rightarrow> kernel \<Rightarrow> kernel option" where
  "thread_set_priority new_priority k =
     (if thread_mlfqs k then Some k
      else do {
        let old_level = intr_on k;
        let k = intr_disable k;
        cur \<leftarrow> thread_current k;
        let k = upd_thread cur (priority_update (\<lambda>_. new_priority)) k;
        yield_to_higher cur (push_frames [Set_level old_level] k)
      })"

definition thread_get_priority :: "kernel \<Rightarrow> int option" where
  "thread_get_priority k = do { cur \<leftarrow> thread_current k; Some (eff_priority k cur) }"

definition thread_set_nice :: "int \<Rightarrow> kernel \<Rightarrow> kernel option" where
  "thread_set_nice n k = do {
     ASSERT (NICE_MIN \<le> n \<and> n \<le> NICE_MAX);
     let old_level = intr_on k;
     let k = intr_disable k;
     cur \<leftarrow> thread_current k;
     let k = upd_thread cur (nice_update (\<lambda>_. n)) k;
     p \<leftarrow> calc_mlfq_priority cur k;
     let k = upd_thread cur (priority_update (\<lambda>_. p)) k;
     yield_to_higher cur (push_frames [Set_level old_level] k)
   }"

definition thread_get_nice :: "kernel \<Rightarrow> int option" where
  "thread_get_nice k = do { cur \<leftarrow> thread_current k; Some (nice (threads k cur)) }"

definition thread_get_load_avg :: "kernel \<Rightarrow> int" where
  "thread_get_load_avg k = FP_TO_INT_ROUND (FP_MUL_INT (load_avg k) 100)"

definition thread_get_recent_cpu :: "kernel \<Rightarrow> int option" where
  "thread_get_recent_cpu k = do {
     cur \<leftarrow> thread_current k;
     Some (FP_TO_INT_ROUND (FP_MUL_INT (recent_cpu (threads k cur)) 100))
   }"

definition thread_tick :: "kernel \<Rightarrow> kernel option" where
  "thread_tick k = do {
     t \<leftarrow> thread_current k;
     let k = (if t = idle_thread k then k\<lparr>idle_ticks := to_s64 (idle_ticks k + 1)\<rparr>
              else if pagedir (threads k t) \<noteq> NULL then k\<lparr>user_ticks := to_s64 (user_ticks k + 1)\<rparr>
              else k\<lparr>kernel_ticks := to_s64 (kernel_ticks k + 1)\<rparr>);
     k \<leftarrow> (if thread_mlfqs k \<and> t \<noteq> idle_thread k then do {
             let k = upd_thread t (recent_cpu_update (\<lambda>r. FP_ADD_INT r 1)) k;
             p \<leftarrow> calc_mlfq_priority t k;
             Some (upd_thread t (priority_update (\<lambda>_. p)) k)
           }
           else Some k);
     let k = k\<lparr>thread_ticks := size_t (thread_ticks k + 1)\<rparr>;
     if TIME_SLICE \<le> thread_ticks k then intr_yield_on_return k else Some k
   }"

section \<open>The choice of the next thread\<close>

definition prio_less :: "kernel \<Rightarrow> addr \<Rightarrow> addr \<Rightarrow> bool" where
  "prio_less k a b \<longleftrightarrow> eff_priority k a < eff_priority k b"

interpretation prio: list_less_func "prio_less k" for k
  by unfold_locales (auto simp: prio_less_def)

text \<open>A thread under construction has no tid yet (it is 0); the other threads have their own.\<close>

abbreviation named :: "kernel \<Rightarrow> addr set \<Rightarrow> bool" where
  "named k ts \<equiv> (\<forall>t \<in> ts. tid (threads k t) \<noteq> 0)"

definition comparable :: "kernel \<Rightarrow> addr set \<Rightarrow> bool" where
  "comparable k ts \<longleftrightarrow> (\<forall>t \<in> ts. is_thread k t) \<and>
     inj_on (\<lambda>t. tid (threads k t)) {t \<in> ts. tid (threads k t) \<noteq> 0}"

lemma comparable_less:
  assumes "comparable k ts" and "named k {a, b}" and "a \<in> ts" and "b \<in> ts" and "a \<noteq> b"
  shows "thread_less k a b = Some (prio_less k a b)"
proof -
  have "tid (threads k a) \<noteq> tid (threads k b)"
    using assms inj_onD [of "\<lambda>t. tid (threads k t)" "{t \<in> ts. tid (threads k t) \<noteq> 0}" a b]
    by (auto simp: comparable_def)
  then show ?thesis
    using assms by (simp add: comparable_def thread_less_def prio_less_def)
qed

lemma comparable_list_less:
  assumes "comparable k ts" and "named k {a, b}" and "a \<in> ts" and "b \<in> ts" and "a \<noteq> b"
  shows "thread_list_less k a b = Some (prio_less k a b)"
  using comparable_less [OF assms] assms by (auto simp: thread_list_less_def comparable_def is_thread_def)

lemma comparable_subset: "comparable k ts \<Longrightarrow> us \<subseteq> ts \<Longrightarrow> comparable k us"
  unfolding comparable_def by (auto elim!: inj_on_subset)

lemma first_max_in: "first_max lt xs x \<Longrightarrow> x \<in> set xs"
  by (auto simp: first_max_def)

lemma first_max_ge: "first_max (prio_less k) xs x \<Longrightarrow> y \<in> set xs \<Longrightarrow> eff_priority k y \<le> eff_priority k x"
  by (auto simp: first_max_def prio_less_def not_less) (meson less_imp_le)+

lemma list_max_from_foldl:
  assumes "comparable k ts" and "named k ts" and "set es \<subseteq> ts" and "m \<in> ts" and "distinct es" and "m \<notin> set es"
  shows "list_max_from (thread_list_less k) m es =
    Some (foldl (\<lambda>m e. if prio_less k m e then e else m) m es)"
  using assms
proof (induction es arbitrary: m)
  case (Cons e es)
  have "thread_list_less k m e = Some (prio_less k m e)"
    using Cons.prems by (intro comparable_list_less [of k ts]) auto
  then show ?case using Cons by simp
qed simp

lemma thread_list_max_first:
  assumes "comparable k (set ts)" and "named k (set ts)" and "distinct ts" and "ts \<noteq> []"
  shows "\<exists>x. thread_list_max k ts = Some x \<and> first_max (prio_less k) ts x"
proof -
  obtain m es where ts: "ts = m # es" using assms(4) by (cases ts) auto
  obtain x where x: "list_max_from (thread_list_less k) m es = Some x" "first_max (prio_less k) ts x"
    using list_max_from_foldl [of k "set ts" es m] prio.first_max_foldl [of k m es] assms ts by auto
  moreover have "is_thread k x"
    using first_max_in [OF x(2)] assms(1) by (auto simp: comparable_def)
  ultimately show ?thesis by (simp add: thread_list_max_def ts)
qed

section \<open>The scheduler invariant\<close>

text \<open>
  Every live thread is a valid thread with its own tid; the running thread is the only one in
  state \<open>THREAD_RUNNING\<close>; the ready list holds the threads in state \<open>THREAD_READY\<close>, once each, but
  for the idle thread, which is never in it.
\<close>

definition sched_inv :: "kernel \<Rightarrow> bool" where
  "sched_inv k \<longleftrightarrow> comparable k (set (all_list k)) \<and>
     (\<forall>t \<in> set (all_list k). tid (threads k t) = 0 \<longrightarrow>
        status (threads k t) = THREAD_BLOCKED \<and> t \<noteq> idle_thread k) \<and>
     idle_thread k \<in> set (all_list k) \<and>
     running k \<in> set (all_list k) \<and>
     (\<forall>t \<in> set (all_list k). status (threads k t) = THREAD_RUNNING \<longleftrightarrow> t = running k) \<and>
     (\<forall>t \<in> set (all_list k). status (threads k t) \<noteq> THREAD_DYING) \<and>
     distinct (ready_list k) \<and>
     set (ready_list k) = {t \<in> set (all_list k). status (threads k t) = THREAD_READY \<and> t \<noteq> idle_thread k}"

text \<open>
  The invariant inside the scheduler: the thread on the processor has already left the running
  state.
\<close>

definition switching :: "kernel \<Rightarrow> bool" where
  "switching k \<longleftrightarrow> comparable k (set (all_list k)) \<and> is_thread k (running k) \<and>
     (\<forall>t \<in> set (all_list k). tid (threads k t) = 0 \<longrightarrow>
        status (threads k t) = THREAD_BLOCKED \<and> t \<noteq> idle_thread k) \<and>
     idle_thread k \<in> set (all_list k) \<and>
     status (threads k (running k)) \<noteq> THREAD_RUNNING \<and>
     (\<forall>t \<in> set (all_list k). status (threads k t) \<noteq> THREAD_RUNNING \<and> status (threads k t) \<noteq> THREAD_DYING) \<and>
     distinct (ready_list k) \<and>
     set (ready_list k) = {t \<in> set (all_list k). status (threads k t) = THREAD_READY \<and> t \<noteq> idle_thread k} \<and>
     \<not> intr_on k \<and> (running k \<in> set (all_list k) \<or> running k \<noteq> idle_thread k)"

lemma comparable_cong:
  assumes "\<And>t. t \<in> ts \<Longrightarrow> tid (threads k' t) = tid (threads k t) \<and> magic (threads k' t) = magic (threads k t)"
  shows "comparable k' ts \<longleftrightarrow> comparable k ts"
proof -
  have "{t \<in> ts. tid (threads k' t) \<noteq> 0} = {t \<in> ts. tid (threads k t) \<noteq> 0}"
    using assms by auto
  moreover have "inj_on (\<lambda>t. tid (threads k' t)) {t \<in> ts. tid (threads k t) \<noteq> 0} \<longleftrightarrow>
      inj_on (\<lambda>t. tid (threads k t)) {t \<in> ts. tid (threads k t) \<noteq> 0}"
    using assms by (intro inj_on_cong) auto
  ultimately show ?thesis
    using assms by (auto simp: comparable_def is_thread_def)
qed

text \<open>What a thread switch leaves alone.\<close>

definition switched_to :: "addr \<Rightarrow> kernel \<Rightarrow> kernel \<Rightarrow> bool" where
  "switched_to t k k' \<longleftrightarrow> running k' = t \<and> ready_list k' = removeAll t (ready_list k) \<and>
     threads k' = (threads k)(t := (threads k t)\<lparr>status := THREAD_RUNNING\<rparr>) \<and>
     all_list k' = all_list k \<and> idle_thread k' = idle_thread k \<and> initial_thread k' = initial_thread k \<and>
     intr_on k' = intr_on k \<and> in_external_intr k' = in_external_intr k \<and>
     thread_mlfqs k' = thread_mlfqs k \<and> load_avg k' = load_avg k \<and> next_tid k' = next_tid k \<and>
     thread_ticks k' = 0 \<and> active_pagedir k' = pagedir (threads k t) \<and>
     semas k' = semas k \<and> holder k' = holder k \<and> conds k' = conds k \<and> rwlocks k' = rwlocks k \<and>
     ticks k' = ticks k \<and> loops_per_tick k' = loops_per_tick k \<and>
     sleep_que k' = sleep_que k \<and> sleep_links k' = sleep_links k"

text \<open>The thread that runs next: the first ready thread of greatest priority, or the idle thread.\<close>

definition chosen :: "kernel \<Rightarrow> addr \<Rightarrow> bool" where
  "chosen k t \<longleftrightarrow>
     (if ready_list k = [] then t = idle_thread k else first_max (prio_less k) (ready_list k) t)"

lemma schedule_switches:
  assumes k: "switching k"
  shows "\<exists>k' t. schedule k = Some k' \<and> switched_to t k k' \<and>
    chosen k t"
proof -
  obtain t k1 where nxt: "next_thread_to_run k = Some (t, k1)" "k1 = k\<lparr>ready_list := removeAll t (ready_list k)\<rparr>"
    "chosen k t"
  proof (cases "ready_list k = []")
    case True
    then show thesis using that by (simp add: next_thread_to_run_def chosen_def)
  next
    case False
    have "comparable k (set (ready_list k))"
      using k by (auto simp: switching_def elim!: comparable_subset)
    moreover have "named k (set (ready_list k))"
      using k by (auto simp: switching_def)
    ultimately obtain x where "thread_list_max k (ready_list k) = Some x" "first_max (prio_less k) (ready_list k) x"
      using thread_list_max_first [of k "ready_list k"] k False unfolding switching_def by blast
    then show thesis using that False by (simp add: next_thread_to_run_def chosen_def)
  qed
  have t: "t \<in> set (all_list k)"
    using nxt(3) k by (auto simp: switching_def chosen_def dest: first_max_in split: if_splits)
  then have "is_thread k t" using k by (auto simp: switching_def comparable_def)
  moreover have "NULL \<noteq> running k" using k by (auto simp: switching_def is_thread_def)
  ultimately show ?thesis
    using nxt k unfolding switching_def
    by (auto simp: schedule_def thread_schedule_tail_def running_thread_def switched_to_def Let_def
      is_thread_def upd_thread_def split: if_splits)
qed

lemma next_in_all:
  assumes "switching k" and "chosen k t"
  shows "t \<in> set (all_list k)" and "tid (threads k t) \<noteq> 0"
  using assms first_max_in [of "prio_less k" "ready_list k" t]
  by (auto simp: switching_def chosen_def split: if_splits)

lemma switched_sched_inv:
  assumes k: "switching k" and t: "t \<in> set (all_list k)" "tid (threads k t) \<noteq> 0" and sw: "switched_to t k k'"
  shows "sched_inv k'"
proof -
  have "comparable k' (set (all_list k)) = comparable k (set (all_list k))"
    using sw by (intro comparable_cong) (simp add: switched_to_def)
  then show ?thesis
    using k t sw unfolding switching_def sched_inv_def switched_to_def
    by (intro conjI) (simp_all add: distinct_removeAll, blast+)
qed

lemma sched_inv_current: "sched_inv k \<Longrightarrow> thread_current k = Some (running k)"
  by (simp add: sched_inv_def thread_current_def running_thread_def comparable_def)

lemma switch_ok:
  assumes "switching k"
  shows "\<exists>k' t. schedule k = Some k' \<and> switched_to t k k' \<and> sched_inv k' \<and>
    chosen k t"
  using schedule_switches [OF assms] next_in_all [OF assms] switched_sched_inv [OF assms] by meson

lemma switching_leave:
  assumes "sched_inv k" and "\<not> intr_on k" and "st \<noteq> THREAD_RUNNING" and "st \<noteq> THREAD_DYING"
    and "st = THREAD_READY \<Longrightarrow> running k \<noteq> idle_thread k \<Longrightarrow> xs = ready_list k @ [running k]"
    and "st \<noteq> THREAD_READY \<or> running k = idle_thread k \<Longrightarrow> xs = ready_list k"
  shows "switching (set_status (running k) st (k\<lparr>ready_list := xs\<rparr>))"
proof -
  have "comparable (set_status (running k) st (k\<lparr>ready_list := xs\<rparr>)) (set (all_list k)) =
      comparable k (set (all_list k))"
    by (intro comparable_cong) auto
  moreover have "is_thread k (running k)"
    using assms(1) by (auto simp: sched_inv_def comparable_def)
  then have "is_thread (set_status (running k) st (k\<lparr>ready_list := xs\<rparr>)) (running k)"
    by (simp add: is_thread_def)
  ultimately show ?thesis
    using assms unfolding sched_inv_def switching_def
    by (cases "st = THREAD_READY \<and> running k \<noteq> idle_thread k") auto
qed

lemma prio_less_cong:
  "(\<And>t. priority (threads k' t) = priority (threads k t) \<and> extra_priority (threads k' t) = extra_priority (threads k t))
   \<Longrightarrow> prio_less k' = prio_less k"
  by (intro ext) (simp add: prio_less_def eff_priority_def)

lemma prio_less_simps [simp]:
  "prio_less (set_status t s k) = prio_less k"
  "prio_less (k\<lparr>ready_list := xs\<rparr>) = prio_less k"
  "prio_less (k\<lparr>all_list := xs\<rparr>) = prio_less k"
  "prio_less (k\<lparr>intr_on := b\<rparr>) = prio_less k"
  "prio_less (push_frames fs k) = prio_less k"
  by (intro prio_less_cong; simp add: push_frames_def)+

lemma chosen_simps [simp]:
  "chosen (set_status t s k) = chosen k"
  "chosen (push_frames fs k) = chosen k"
  by (intro ext; simp add: chosen_def; simp add: push_frames_def)+

text \<open>Blocking never panics and hands the processor to a ready thread of greatest priority.\<close>

lemma thread_block_ok:
  assumes "sched_inv k" and "\<not> intr_on k" and "\<not> intr_context k"
  shows "\<exists>k' t. thread_block k = Some k' \<and> switched_to t (set_status (running k) THREAD_BLOCKED k) k' \<and> sched_inv k' \<and>
    chosen k t"
proof -
  let ?k = "set_status (running k) THREAD_BLOCKED k"
  have "switching (set_status (running k) THREAD_BLOCKED (k\<lparr>ready_list := ready_list k\<rparr>))"
    using assms by (intro switching_leave) auto
  then have "switching ?k" by simp
  from switch_ok [OF this] show ?thesis
    using assms by (simp add: thread_block_def sched_inv_current)
qed

lemma sched_inv_cong:
  assumes "threads k' = threads k" and "all_list k' = all_list k" and "ready_list k' = ready_list k"
    and "idle_thread k' = idle_thread k" and "running k' = running k"
  shows "sched_inv k' \<longleftrightarrow> sched_inv k"
  unfolding sched_inv_def using comparable_cong [of "set (all_list k)" k' k] assms by simp

lemma sched_inv_thread:
  assumes "\<And>t. tid (threads k' t) = tid (threads k t) \<and> magic (threads k' t) = magic (threads k t) \<and>
      status (threads k' t) = status (threads k t)"
    and "all_list k' = all_list k" and "ready_list k' = ready_list k"
    and "idle_thread k' = idle_thread k" and "running k' = running k"
  shows "sched_inv k' \<longleftrightarrow> sched_inv k"
  unfolding sched_inv_def using comparable_cong [of "set (all_list k)" k' k] assms by simp

lemma sched_inv_push [simp]: "sched_inv (push_frames fs k) \<longleftrightarrow> sched_inv k"
  by (rule sched_inv_thread) (simp_all add: push_frames_def)

lemma sched_inv_intr [simp]: "sched_inv (k\<lparr>intr_on := b\<rparr>) \<longleftrightarrow> sched_inv k"
  by (rule sched_inv_cong) simp_all

lemma push_frames_simps [simp]:
  "running (push_frames fs k) = running k" "ready_list (push_frames fs k) = ready_list k"
  "idle_thread (push_frames fs k) = idle_thread k" "all_list (push_frames fs k) = all_list k"
  "intr_on (push_frames fs k) = intr_on k" "in_external_intr (push_frames fs k) = in_external_intr k"
  "semas (push_frames fs k) = semas k" "holder (push_frames fs k) = holder k"
  "conds (push_frames fs k) = conds k" "rwlocks (push_frames fs k) = rwlocks k"
  "status (threads (push_frames fs k) t) = status (threads k t)"
  "tid (threads (push_frames fs k) t) = tid (threads k t)"
  "eff_priority (push_frames fs k) t = eff_priority k t"
  by (simp_all add: push_frames_def eff_priority_def)

text \<open>
  Yielding never panics.  The thread chosen is the first of greatest priority in the ready list
  with the yielding thread at its end, so a thread yields to every ready thread of equal priority.
\<close>

definition yielded :: "kernel \<Rightarrow> kernel" where
  "yielded k = set_status (running k) THREAD_READY
     ((push_frames [Set_level (intr_on k)] (intr_disable k))
        \<lparr>ready_list := ready_list k @ (if running k = idle_thread k then [] else [running k])\<rparr>)"

lemma thread_yield_ok:
  assumes "sched_inv k" and "\<not> intr_context k"
  shows "\<exists>k' t. thread_yield k = Some k' \<and> switched_to t (yielded k) k' \<and> sched_inv k' \<and> chosen (yielded k) t"
proof -
  let ?k = "push_frames [Set_level (intr_on k)] (intr_disable k)"
  have "switching (set_status (running ?k) THREAD_READY
      (?k\<lparr>ready_list := ready_list k @ (if running k = idle_thread k then [] else [running k])\<rparr>))"
    using assms by (intro switching_leave) (auto simp: intr_disable_def)
  then have sw: "switching (yielded k)"
    by (simp add: yielded_def intr_disable_def)
  have "thread_yield k = schedule (yielded k)"
    using assms by (simp add: thread_yield_def sched_inv_current yielded_def intr_disable_def
      push_frames_def upd_thread_def)
  with switch_ok [OF sw] show ?thesis by simp
qed

lemma thread_unblock_ok:
  assumes "sched_inv k" and "t \<in> set (all_list k)" and "status (threads k t) = THREAD_BLOCKED"
    and "tid (threads k t) \<noteq> 0" and "t \<noteq> idle_thread k" and "\<not> intr_on k \<or> \<not> intr_context k"
  shows "thread_unblock t k = Some (set_status t THREAD_READY (k\<lparr>ready_list := ready_list k @ [t]\<rparr>))"
    and "sched_inv (set_status t THREAD_READY (k\<lparr>ready_list := ready_list k @ [t]\<rparr>))"
proof -
  have "is_thread k t" using assms by (auto simp: sched_inv_def comparable_def)
  then show "thread_unblock t k = Some (set_status t THREAD_READY (k\<lparr>ready_list := ready_list k @ [t]\<rparr>))"
    using assms(3,6) by (auto simp: thread_unblock_def intr_disable_def intr_set_level_def intr_enable_def
      intr_context_def upd_thread_def is_thread_def Let_def)
  let ?k = "set_status t THREAD_READY (k\<lparr>ready_list := ready_list k @ [t]\<rparr>)"
  have "comparable ?k (set (all_list k)) = comparable k (set (all_list k))"
    by (intro comparable_cong) auto
  then show "sched_inv ?k"
    using assms by (auto simp: sched_inv_def)
qed

lemma thread_exit_ok:
  assumes "sched_inv k" and "running k \<noteq> idle_thread k" and "\<not> intr_context k"
  shows "\<exists>k' k1 t. thread_exit k = Some k' \<and> sched_inv k' \<and> chosen k1 t \<and> switched_to t k1 k' \<and>
    ready_list k1 = ready_list k \<and> set (all_list k') = set (all_list k) - {running k}"
proof -
  let ?k = "set_status (running k) THREAD_DYING (k\<lparr>intr_on := False, all_list := removeAll (running k) (all_list k)\<rparr>)"
  have "comparable ?k (set (all_list k)) = comparable k (set (all_list k))"
    by (intro comparable_cong) auto
  then have "comparable ?k (set (all_list ?k))"
    using assms by (auto simp: sched_inv_def elim!: comparable_subset)
  moreover have "is_thread ?k (running k)"
    using assms by (auto simp: sched_inv_def comparable_def is_thread_def)
  ultimately have sw: "switching ?k"
    using assms unfolding sched_inv_def switching_def by auto
  have "thread_exit k = schedule ?k"
    using assms by (simp add: thread_exit_def sched_inv_current intr_disable_def upd_thread_def)
  moreover obtain k' t where k': "schedule ?k = Some k'" "switched_to t ?k k'" "sched_inv k'" "chosen ?k t"
    using switch_ok [OF sw] by blast
  moreover have "set (all_list k') = set (all_list k) - {running k}" "ready_list ?k = ready_list k"
    using k'(2) by (auto simp: switched_to_def)
  ultimately show ?thesis by metis
qed

section \<open>Properties of the scheduler\<close>

text \<open>The threads on the processor yield it \<open>n\<close> times in turn.\<close>

primrec yields :: "nat \<Rightarrow> kernel \<Rightarrow> kernel option" where
  "yields 0 k = Some k"
| "yields (Suc n) k = do { k \<leftarrow> thread_yield k; yields n k }"

lemma eff_priority_yielded: "eff_priority (yielded k) t = eff_priority k t"
  by (simp add: yielded_def eff_priority_def push_frames_def intr_disable_def)

lemma eff_priority_switched: "switched_to t k k' \<Longrightarrow> eff_priority k' u = eff_priority k u"
  by (simp add: switched_to_def eff_priority_def)

lemma prio_less_yielded: "prio_less (yielded k) = prio_less k"
  by (intro ext) (simp add: prio_less_def eff_priority_yielded)

lemma chosen_before:
  assumes "first_max (prio_less k) (us @ t # vs) x" and "\<And>u. u \<in> set us \<union> set vs \<Longrightarrow> eff_priority k u \<le> eff_priority k t"
  shows "x \<in> set us \<or> x = t"
proof (rule ccontr)
  assume x: "\<not> (x \<in> set us \<or> x = t)"
  obtain as bs where *: "us @ t # vs = as @ x # bs" "\<forall>u \<in> set as. prio_less k u x"
    using assms(1) by (auto simp: first_max_def)
  have "us @ [t] = take (length us + 1) (as @ x # bs)"
    unfolding *(1) [symmetric] by simp
  moreover have "length us < length as"
  proof (rule ccontr)
    assume "\<not> length us < length as"
    then have "x = (us @ t # vs) ! length as" "length as \<le> length us" using * by (simp_all add: nth_append)
    then show False using x by (auto simp: nth_append nth_Cons' split: if_splits)
  qed
  ultimately have "t \<in> set as"
    by (metis Suc_eq_plus1 Suc_leI in_set_conv_decomp in_set_takeD take_append take_all_iff append_Nil2 diff_is_0_eq take0)
  then have "eff_priority k t < eff_priority k x"
    using *(2) by (auto simp: prio_less_def)
  moreover have "x \<in> set us \<union> set vs"
    using x * by (metis in_set_conv_decomp Un_iff set_ConsD set_append)
  ultimately show False using assms(2) [of x] by simp
qed

lemma yield_step:
  assumes "sched_inv k" and "\<not> intr_context k" and "ready_list k = us @ t # vs"
    and "\<And>u. u \<in> set (all_list k) \<Longrightarrow> eff_priority k u \<le> eff_priority k t"
  shows "\<exists>k' us' vs'. thread_yield k = Some k' \<and> sched_inv k' \<and> \<not> intr_context k' \<and> all_list k' = all_list k \<and>
    eff_priority k' = eff_priority k \<and>
    (running k' = t \<or> ready_list k' = us' @ t # vs' \<and> length us' < length us)"
proof -
  obtain k' x where k': "thread_yield k = Some k'" "switched_to x (yielded k) k'" "sched_inv k'" "chosen (yielded k) x"
    using thread_yield_ok [OF assms(1,2)] by blast
  define ws where "ws = vs @ (if running k = idle_thread k then [] else [running k])"
  have ready: "ready_list (yielded k) = us @ t # ws"
    using assms(3) by (simp add: yielded_def ws_def)
  have "first_max (prio_less k) (us @ t # ws) x"
    using k'(4) ready by (simp add: chosen_def prio_less_yielded)
  moreover have "u \<in> set (all_list k)" if "u \<in> set us \<union> set ws" for u
    using that assms(1,3) by (auto simp: sched_inv_def ws_def split: if_splits)
  ultimately have x: "x \<in> set us \<or> x = t"
    using chosen_before [of k us t ws x] assms(4) by blast
  have "length (removeAll x us) < length us" if "x \<in> set us"
    using that by (rule length_removeAll_less)
  then have "running k' = t \<or> ready_list k' = removeAll x us @ t # removeAll x ws \<and> length (removeAll x us) < length us"
    using x k'(2) ready by (cases "x = t") (auto simp: switched_to_def)
  moreover have "eff_priority k' = eff_priority k"
    by (intro ext) (simp add: eff_priority_switched [OF k'(2)] eff_priority_yielded)
  moreover have "\<not> intr_context k'" "all_list k' = all_list k"
    using k'(2) assms(2) by (simp_all add: switched_to_def yielded_def intr_context_def intr_disable_def)
  ultimately show ?thesis using k' by blast
qed

lemma yields_reach:
  assumes "sched_inv k" and "\<not> intr_context k" and "ready_list k = us @ t # vs"
    and "\<And>u. u \<in> set (all_list k) \<Longrightarrow> eff_priority k u \<le> eff_priority k t"
  shows "\<exists>n k'. 0 < n \<and> n \<le> length us + 1 \<and> yields n k = Some k' \<and> sched_inv k' \<and> running k' = t"
  using assms
proof (induction us arbitrary: k vs rule: length_induct)
  case (1 us)
  from yield_step [OF "1.prems"] obtain k1 us1 vs1 where
    k1: "thread_yield k = Some k1" "sched_inv k1" "\<not> intr_context k1" "all_list k1 = all_list k" "eff_priority k1 = eff_priority k"
    "running k1 = t \<or> ready_list k1 = us1 @ t # vs1 \<and> length us1 < length us"
    by blast
  show ?case
  proof (cases "running k1 = t")
    case True
    then show ?thesis using k1 by (intro exI [of _ 1] exI [of _ k1]) simp
  next
    case False
    then have "\<exists>n k'. 0 < n \<and> n \<le> length us1 + 1 \<and> yields n k1 = Some k' \<and> sched_inv k' \<and> running k' = t"
      using k1 "1.prems"(4) by (intro "1.IH" [rule_format, of us1 k1 vs1]) auto
    then obtain n k' where "n \<le> length us1 + 1" "yields n k1 = Some k'" "sched_inv k'" "running k' = t" by blast
    then show ?thesis
      using k1 False by (intro exI [of _ "Suc n"] exI [of _ k']) auto
  qed
qed

text \<open>
  C19: no starvation among the threads of highest priority.  A ready thread that no live thread
  exceeds in priority is on the processor after at most as many yields as there are ready threads;
  none of those yields panics.
\<close>

theorem yield_no_starvation:
  assumes "sched_inv k" and "\<not> intr_context k" and "t \<in> set (ready_list k)"
    and "\<forall>u \<in> set (all_list k). eff_priority k u \<le> eff_priority k t"
  shows "\<exists>n k'. 0 < n \<and> n \<le> length (ready_list k) \<and> yields n k = Some k' \<and> sched_inv k' \<and> running k' = t"
proof -
  obtain us vs where ready: "ready_list k = us @ t # vs"
    using assms(3) by (meson split_list)
  obtain n k' where "0 < n" "n \<le> length us + 1" "yields n k = Some k'" "sched_inv k'" "running k' = t"
    using yields_reach [OF assms(1,2) ready] assms(4) by blast
  then show ?thesis
    using ready by (intro exI [of _ n] exI [of _ k']) simp
qed

text \<open>A small system: the idle thread 2, and the threads 1, 3 and 4 with the priorities given.\<close>

definition sample_thread :: "int \<Rightarrow> thread_status \<Rightarrow> int \<Rightarrow> thread" where
  "sample_thread i st p = \<lparr>tid = i, status = st, name = ''t'', stack = 4096, priority = p, nice = 0,
     recent_cpu = 0, extra_priority = 0, parent = NULL, locks = [], wakeup_tick = 0, pagedir = NULL,
     creator = NULL, ch_load_status = LOAD_READY, mapid_next = 1, cwd = 1, magic = THREAD_MAGIC,
     frames = []\<rparr>"

definition sample_kernel :: "(int \<times> int \<times> int) \<Rightarrow> kernel" where
  "sample_kernel = (\<lambda>(p1, p3, p4). \<lparr>
     threads = (\<lambda>t. if t = 1 then sample_thread 1 THREAD_RUNNING p1
       else if t = 2 then sample_thread 2 THREAD_BLOCKED PRI_MIN
       else if t = 3 then sample_thread 3 THREAD_READY p3
       else sample_thread 4 THREAD_READY p4),
     ready_list = [3, 4], all_list = [1, 2, 3, 4], idle_thread = 2, initial_thread = 1, running = 1,
     intr_on = True, in_external_intr = False, yield_on_return = False, idle_ticks = 0,
     kernel_ticks = 0, user_ticks = 0, thread_ticks = 0, thread_mlfqs = False, load_avg = 0,
     next_tid = 5, active_pagedir = NULL, freed = [],
     semas = (\<lambda>_. \<lparr>sema_value = 1, waiters = []\<rparr>), holder = (\<lambda>_. NULL), conds = (\<lambda>_. []),
     rwlocks = (\<lambda>_. \<lparr>rw_waiters = [], active_readers = 0, active_writers = 0\<rparr>), ticks = 0,
     loops_per_tick = 1024, sleep_que = heap_init, sleep_links = (\<lambda>_. \<lparr>child = NULL, sibling = NULL\<rparr>)\<rparr>)"

lemma sample_kernel_inv: "sched_inv (sample_kernel ps)"
  by (cases ps) (auto simp: sched_inv_def sample_kernel_def comparable_def is_thread_def sample_thread_def inj_on_def)

lemma sample_kernel_simps:
  "ready_list (sample_kernel ps) = [3, 4]" "all_list (sample_kernel ps) = [1, 2, 3, 4]"
  "intr_context (sample_kernel ps) = False" "running (sample_kernel ps) = 1"
  "idle_thread (sample_kernel ps) = 2" "intr_on (sample_kernel ps) = True"
  by (cases ps; simp add: sample_kernel_def intr_context_def)+

lemma sample_eff_priority:
  "eff_priority (sample_kernel (p1, p3, p4)) t =
     max 0 (if t = 1 then p1 else if t = 2 then 0 else if t = 3 then p3 else p4)"
  by (simp add: eff_priority_def sample_kernel_def sample_thread_def PRI_MIN_def max.commute)

theorem yield_no_starvation_witness:
  "\<exists>n k'. 0 < n \<and> n \<le> 2 \<and> yields n (sample_kernel (31, 31, 31)) = Some k' \<and> sched_inv k' \<and> running k' = 4"
  using yield_no_starvation [OF sample_kernel_inv, of "(31, 31, 31)" 4]
  by (simp add: sample_kernel_simps sample_eff_priority numeral_2_eq_2)

lemma chosen_highest:
  assumes "chosen k1 t" and "switched_to t k1 k'" and "u \<in> set (ready_list k')"
  shows "eff_priority k' u \<le> eff_priority k' (running k')"
  using assms first_max_ge [of k1 "ready_list k1" t u]
  by (auto simp: chosen_def eff_priority_switched [OF assms(2)] switched_to_def split: if_splits)

text \<open>
  C18: the processor is always handed over safely.  From every state that satisfies the scheduler
  invariant, yielding, blocking and exiting end without a failed assertion, keep the invariant, and
  leave on the processor a thread that no ready thread exceeds in effective (own or donated)
  priority; an exiting thread is gone from the list of threads.  The idle thread, whose loop never
  ends, is the one thread that must not exit.
\<close>

theorem scheduler_picks_highest:
  assumes "sched_inv k" and "\<not> intr_context k"
  shows "(\<exists>k'. thread_yield k = Some k' \<and> sched_inv k' \<and>
      (\<forall>u. u \<in> set (ready_list k') \<longrightarrow> eff_priority k' u \<le> eff_priority k' (running k'))) \<and>
    (\<not> intr_on k \<longrightarrow> (\<exists>k'. thread_block k = Some k' \<and> sched_inv k' \<and>
      (\<forall>u. u \<in> set (ready_list k') \<longrightarrow> eff_priority k' u \<le> eff_priority k' (running k')))) \<and>
    (running k \<noteq> idle_thread k \<longrightarrow> (\<exists>k'. thread_exit k = Some k' \<and> sched_inv k' \<and>
      running k \<notin> set (all_list k') \<and>
      (\<forall>u. u \<in> set (ready_list k') \<longrightarrow> eff_priority k' u \<le> eff_priority k' (running k'))))"
proof (intro conjI impI)
  show "\<exists>k'. thread_yield k = Some k' \<and> sched_inv k' \<and>
      (\<forall>u. u \<in> set (ready_list k') \<longrightarrow> eff_priority k' u \<le> eff_priority k' (running k'))"
    using thread_yield_ok [OF assms] chosen_highest by blast
  assume "\<not> intr_on k"
  then show "\<exists>k'. thread_block k = Some k' \<and> sched_inv k' \<and>
      (\<forall>u. u \<in> set (ready_list k') \<longrightarrow> eff_priority k' u \<le> eff_priority k' (running k'))"
    using thread_block_ok [of k] chosen_highest [of "set_status (running k) THREAD_BLOCKED k"] assms by fastforce
next
  assume "running k \<noteq> idle_thread k"
  then obtain k' k1 t where "thread_exit k = Some k'" "sched_inv k'" "chosen k1 t" "switched_to t k1 k'"
      "set (all_list k') = set (all_list k) - {running k}"
    using thread_exit_ok [of k] assms by blast
  then show "\<exists>k'. thread_exit k = Some k' \<and> sched_inv k' \<and> running k \<notin> set (all_list k') \<and>
      (\<forall>u. u \<in> set (ready_list k') \<longrightarrow> eff_priority k' u \<le> eff_priority k' (running k'))"
    using chosen_highest [of k1 t k'] by auto
qed

theorem scheduler_picks_highest_witness:
  "(\<exists>k'. thread_yield (sample_kernel (31, 20, 63)) = Some k' \<and> sched_inv k' \<and>
     (\<forall>u. u \<in> set (ready_list k') \<longrightarrow> eff_priority k' u \<le> eff_priority k' (running k'))) \<and>
   (\<exists>k'. thread_exit (sample_kernel (31, 20, 63)) = Some k' \<and> sched_inv k' \<and> 1 \<notin> set (all_list k') \<and>
     (\<forall>u. u \<in> set (ready_list k') \<longrightarrow> eff_priority k' u \<le> eff_priority k' (running k')))"
  using scheduler_picks_highest [OF sample_kernel_inv, of "(31, 20, 63)"] by (simp add: sample_kernel_simps)

text \<open>
  Although \<open>tid_to_thread\<close> is documented to search all threads, it panics on every live thread but
  the one created last.
\<close>

lemma tid_to_thread_only_last:
  assumes "sched_inv k" and "t \<in> set (all_list k)" and "t \<noteq> last (all_list k)" and "tid (threads k t) \<noteq> 0"
    and "tid (threads k tail_entry) \<noteq> tid (threads k t)"
  shows "tid_to_thread tail_entry (tid (threads k t)) k = None"
proof -
  have "last (all_list k) \<in> set (all_list k)" using assms(2) by (cases "all_list k") auto
  then have "tid (threads k (last (all_list k))) \<noteq> tid (threads k t)"
    using assms(1-4) inj_onD [of "\<lambda>t. tid (threads k t)" "{t \<in> set (all_list k). tid (threads k t) \<noteq> 0}"]
    by (auto simp: sched_inv_def comparable_def)
  then show ?thesis
    using assms(5) by (simp add: tid_to_thread_def)
qed

section \<open>The multi-level feedback queue\<close>

lemma FP_DIV_INT_4: "is_s32 x \<Longrightarrow> FP_DIV_INT x 4 = Some (x sdiv 4)"
proof -
  assume x: "is_s32 x"
  have "x div 4 < 2 ^ 31" "- x div 4 < 2 ^ 31" "0 \<le> x \<Longrightarrow> 0 \<le> x div 4" "\<not> 0 \<le> x \<Longrightarrow> 0 \<le> - x div 4"
    using x by (simp_all add: zdiv_less_iff)
  then have "is_s32 (x sdiv 4)"
    by (auto simp: sdiv_pos)
  then show ?thesis by (simp add: FP_DIV_INT_def)
qed

lemma mlfq_no_overflow:
  assumes "is_s32 r" and "NICE_MIN \<le> n" and "n \<le> NICE_MAX"
  shows "is_s32 (PRI_MAX - FP_TO_INT (r sdiv 4) - n * 2)"
proof -
  have "\<bar>FP_TO_INT (r sdiv 4)\<bar> \<le> 2 ^ 31 div 4 div 16384"
    using assms(1) unfolding FP_TO_INT_def abs_le_iff
    by (auto simp: sdiv_pos intro!: zdiv_mono1)
  then show ?thesis
    using assms(2,3) unfolding abs_le_iff by (simp add: PRI_MAX_def NICE_MIN_def NICE_MAX_def)
qed

lemma calc_mlfq_priority_value:
  assumes "is_thread k t" and "t \<noteq> idle_thread k" and "is_s32 (recent_cpu (threads k t))"
    and "NICE_MIN \<le> nice (threads k t)" and "nice (threads k t) \<le> NICE_MAX"
  shows "calc_mlfq_priority t k =
    Some (max PRI_MIN (min PRI_MAX (PRI_MAX - FP_TO_INT (recent_cpu (threads k t) sdiv 4) - nice (threads k t) * 2)))"
  using assms mlfq_no_overflow [OF assms(3-5)]
  by (simp add: calc_mlfq_priority_def FP_DIV_INT_4 max.commute min.commute)

lemma calc_mlfq_priority_total:
  "is_thread k t \<Longrightarrow> \<exists>p. calc_mlfq_priority t k = Some p \<and> (t \<noteq> idle_thread k \<longrightarrow> PRI_MIN \<le> p \<and> p \<le> PRI_MAX)"
  by (auto simp: calc_mlfq_priority_def FP_DIV_INT_def PRI_MIN_def PRI_MAX_def)

text \<open>
  The load average is a weighted mean with weights 16110/16384 and 273/16384, so it cannot leave the
  range of the number of threads that are ready to run.
\<close>

lemma load_weights:
  "FP_DIV (INT_TO_FP 59) (INT_TO_FP 60) = Some 16110" "FP_DIV (INT_TO_FP 1) (INT_TO_FP 60) = Some 273"
  using FP_DIV_value [of "INT_TO_FP 59" "INT_TO_FP 60"] FP_DIV_value [of "INT_TO_FP 1" "INT_TO_FP 60"]
  by (simp_all add: INT_TO_FP_def signed_divide_int_def)

text \<open>
  C20: the load average stays within the range of the numbers of runnable threads.  While at most
  \<open>N\<close> threads are ready to run, \<open>N < 2 ^ 17\<close>, \<open>thread_calc_load_avg\<close> ends without overflow or
  division trap and a load average between 0 and \<open>N\<close> stays between 0 and \<open>N\<close>.
\<close>

theorem load_avg_bounded:
  assumes "sched_inv k" and "int (length (ready_list k)) + 1 \<le> N" and "N < 2 ^ 17"
    and "0 \<le> load_avg k" and "load_avg k \<le> N * FPT_F"
  shows "\<exists>l. thread_calc_load_avg k = Some (k\<lparr>load_avg := l\<rparr>) \<and> 0 \<le> l \<and> l \<le> N * FPT_F"
proof -
  define r where "r = int (length (ready_list k)) + (if running k \<noteq> idle_thread k then 1 else 0)"
  define L where "L = load_avg k"
  have r: "0 \<le> r" "r \<le> N" using assms(2) by (auto simp: r_def)
  have R: "INT_TO_FP r = r * 16384" using r assms(3) by (simp add: INT_TO_FP_def)
  have L: "0 \<le> L" "L \<le> N * 16384" using assms(4,5) by (simp_all add: L_def)
  define a where "a = 16110 * L div 16384"
  have "16110 * L div 16384 < 16110 * N + 1"
    using L by (subst zdiv_less_iff) auto
  moreover have "0 \<le> 16110 * L div 16384" using L by simp
  ultimately have a: "0 \<le> a" "a \<le> 16110 * N" by (simp_all add: a_def)
  have A: "FP_MUL 16110 L = Some a"
    using FP_MUL_value [of 16110 L] L a assms(3) by (simp add: a_def sdiv_pos)
  have B: "FP_MUL 273 (r * 16384) = Some (273 * r)"
    using FP_MUL_value [of 273 "r * 16384"] r assms(3) by (simp add: sdiv_pos)
  have "FP_ADD a (273 * r) = a + 273 * r"
    using a r assms(3) by (simp add: FP_ADD_def)
  then have "thread_calc_load_avg k = Some (k\<lparr>load_avg := a + 273 * r\<rparr>)"
    using A B R load_weights sched_inv_current [OF assms(1)]
    by (simp add: thread_calc_load_avg_def r_def L_def)
  then show ?thesis
    using a r by (intro exI [of _ "a + 273 * r"]) simp
qed

theorem load_avg_bounded_witness:
  "\<exists>l. thread_calc_load_avg (sample_kernel (31, 31, 31)) = Some ((sample_kernel (31, 31, 31))\<lparr>load_avg := l\<rparr>) \<and>
     0 \<le> l \<and> l \<le> 3 * FPT_F"
  using load_avg_bounded [OF sample_kernel_inv, of "(31, 31, 31)" 3]
  by (simp add: sample_kernel_simps) (simp add: sample_kernel_def)

text \<open>The decay factor of \<open>recent_cpu\<close>, \<open>2 l / (2 l + 1)\<close>, in fixed point.\<close>

definition decay :: "int \<Rightarrow> int" where
  "decay l = 2 * l * FPT_F sdiv (2 * l + FPT_F)"

lemma decay_value:
  assumes "0 \<le> l" and "l < 2 ^ 29"
  shows "FP_DIV (FP_MUL_INT l 2) (FP_ADD_INT (FP_MUL_INT l 2) 1) = Some (decay l)"
    and "0 \<le> decay l" and "decay l < FPT_F"
proof -
  have 1: "FP_MUL_INT l 2 = 2 * l" "FP_ADD_INT (2 * l) 1 = 2 * l + 16384"
    using assms by (simp_all add: FP_MUL_INT_def FP_ADD_INT_def)
  have pos: "0 < 2 * l + 16384" using assms by simp
  have "2 * l * 16384 div (2 * l + 16384) < 16384"
    using assms unfolding zdiv_less_iff [OF pos] by (simp add: algebra_simps)
  moreover have "0 \<le> 2 * l * 16384 div (2 * l + 16384)"
    using assms pos by (simp add: pos_imp_zdiv_nonneg_iff)
  ultimately have d: "0 \<le> decay l" "decay l < 16384"
    using pos assms by (simp_all add: decay_def sdiv_pos)
  have "FP_DIV (2 * l) (2 * l + 16384) = Some (to_s32 (decay l))"
    using FP_DIV_value [of "2 * l" "2 * l + 16384"] assms pos by (simp add: decay_def)
  then show "FP_DIV (FP_MUL_INT l 2) (FP_ADD_INT (FP_MUL_INT l 2) 1) = Some (decay l)"
    using 1 d by simp
  show "0 \<le> decay l" "decay l < FPT_F" using d by simp_all
qed

definition decayed :: "int \<Rightarrow> thread \<Rightarrow> int" where
  "decayed l th = FP_ADD_INT (to_s32 (decay l * recent_cpu th sdiv FPT_F)) (nice th)"

text \<open>The documented formula of the priority, and a thread after the update.\<close>

definition mlfq_priority :: "int \<Rightarrow> int \<Rightarrow> int" where
  "mlfq_priority r n = max PRI_MIN (min PRI_MAX (PRI_MAX - FP_TO_INT (r sdiv 4) - n * 2))"

definition mlfq_thread :: "kernel \<Rightarrow> addr \<Rightarrow> thread" where
  "mlfq_thread k t = (let th = threads k t; r = decayed (load_avg k) th in
     th\<lparr>recent_cpu := r, priority := if t = idle_thread k then priority th else mlfq_priority r (nice th)\<rparr>)"

lemma calc_recent_cpu_ok:
  assumes "is_thread k t" and "0 \<le> load_avg k" and "load_avg k < 2 ^ 29" and "is_s32 (recent_cpu (threads k t))"
    and "NICE_MIN \<le> nice (threads k t)" and "nice (threads k t) \<le> NICE_MAX"
  shows "thread_calc_recent_cpu t k = Some (k\<lparr>threads := (threads k)(t := mlfq_thread k t)\<rparr>)"
proof -
  note d = decay_value [OF assms(2,3)]
  have mul: "FP_MUL (decay (load_avg k)) (recent_cpu (threads k t)) =
      Some (to_s32 (decay (load_avg k) * recent_cpu (threads k t) sdiv FPT_F))"
    using FP_MUL_value [of "decay (load_avg k)" "recent_cpu (threads k t)"] d(2,3) assms(4) by simp
  let ?k = "upd_thread t (recent_cpu_update (\<lambda>_. decayed (load_avg k) (threads k t))) k"
  have "is_thread ?k t" using assms(1) by (simp add: is_thread_def)
  moreover have "is_s32 (decayed (load_avg k) (threads k t))"
    unfolding decayed_def FP_ADD_INT_def by (rule to_s32_range)
  ultimately have "calc_mlfq_priority t ?k = Some (if t = idle_thread k then priority (threads k t)
      else mlfq_priority (decayed (load_avg k) (threads k t)) (nice (threads k t)))"
    using calc_mlfq_priority_value [of ?k t] assms(5,6)
    by (auto simp: mlfq_priority_def calc_mlfq_priority_def)
  moreover have "FP_ADD_INT (to_s32 (decay (load_avg k) * recent_cpu (threads k t) sdiv 16384)) (nice (threads k t)) =
      decayed (load_avg k) (threads k t)"
    by (simp add: decayed_def)
  ultimately have "thread_calc_recent_cpu t k = Some (upd_thread t (priority_update (\<lambda>_. if t = idle_thread k
      then priority (threads k t) else mlfq_priority (decayed (load_avg k) (threads k t)) (nice (threads k t)))) ?k)"
    using d(1) mul by (simp add: thread_calc_recent_cpu_def Let_def)
  then show ?thesis
    by (simp add: upd_thread_def mlfq_thread_def Let_def)
qed

definition mlfq_updated :: "kernel \<Rightarrow> addr set \<Rightarrow> kernel" where
  "mlfq_updated k ts = k\<lparr>threads := (\<lambda>t. if t \<in> ts then mlfq_thread k t else threads k t)\<rparr>"

lemma foreach_recent_cpu:
  assumes "\<forall>t \<in> set ts. is_thread k t \<and> is_s32 (recent_cpu (threads k t)) \<and>
      NICE_MIN \<le> nice (threads k t) \<and> nice (threads k t) \<le> NICE_MAX"
    and "0 \<le> load_avg k" and "load_avg k < 2 ^ 29" and "distinct ts" and "set ts \<inter> us = {}"
  shows "fold (\<lambda>t r. r \<bind> thread_calc_recent_cpu t) ts (Some (mlfq_updated k us)) = Some (mlfq_updated k (us \<union> set ts))"
  using assms
proof (induction ts arbitrary: us)
  case (Cons t ts)
  let ?k = "mlfq_updated k us"
  have "t \<notin> us" using Cons.prems(5) by auto
  then have t: "threads ?k t = threads k t" "load_avg ?k = load_avg k" "idle_thread ?k = idle_thread k"
    by (simp_all add: mlfq_updated_def)
  then have m: "mlfq_thread ?k t = mlfq_thread k t" by (simp add: mlfq_thread_def)
  have "thread_calc_recent_cpu t ?k = Some (?k\<lparr>threads := (threads ?k)(t := mlfq_thread ?k t)\<rparr>)"
    using Cons.prems(1-3) t by (intro calc_recent_cpu_ok) (simp_all add: is_thread_def)
  moreover have "?k\<lparr>threads := (threads ?k)(t := mlfq_thread ?k t)\<rparr> = mlfq_updated k (insert t us)"
    unfolding m by (auto simp: mlfq_updated_def fun_eq_iff)
  ultimately show ?case
    using Cons.IH [of "insert t us"] Cons.prems by (simp add: insert_absorb)
qed simp

text \<open>
  C21: the once-per-second update of the multi-level feedback queue is total and local.  For every
  load average from 0 up to \<open>2 ^ 15\<close> (\<open>2 ^ 29\<close> in fixed point) it ends without a division trap or
  failed assertion.  Whatever the order of the thread list, every thread gets the decayed
  \<open>recent_cpu\<close> that its old value, its nice value and the load average determine; every thread but
  the idle thread gets the priority \<open>PRI_MAX - recent_cpu / 4 - 2 * nice\<close> of the new value, clamped
  to the range of priorities; the idle thread keeps its priority, and nothing else changes.
\<close>

theorem mlfqs_update_total:
  assumes "sched_inv k" and "distinct (all_list k)" and "\<not> intr_on k" and "0 \<le> load_avg k" and "load_avg k < 2 ^ 29"
    and "\<forall>t \<in> set (all_list k). is_s32 (recent_cpu (threads k t)) \<and>
      NICE_MIN \<le> nice (threads k t) \<and> nice (threads k t) \<le> NICE_MAX"
  shows "thread_foreach thread_calc_recent_cpu k =
    Some (k\<lparr>threads := (\<lambda>t. if t \<in> set (all_list k) then
      (threads k t)\<lparr>recent_cpu := decayed (load_avg k) (threads k t),
        priority := if t = idle_thread k then priority (threads k t)
          else mlfq_priority (decayed (load_avg k) (threads k t)) (nice (threads k t))\<rparr>
      else threads k t)\<rparr>)"
proof -
  have "mlfq_updated k {} = k" by (simp add: mlfq_updated_def)
  moreover have "\<forall>t \<in> set (all_list k). is_thread k t \<and> is_s32 (recent_cpu (threads k t)) \<and>
      NICE_MIN \<le> nice (threads k t) \<and> nice (threads k t) \<le> NICE_MAX"
    using assms(1,6) by (auto simp: sched_inv_def comparable_def)
  ultimately have "fold (\<lambda>t r. r \<bind> thread_calc_recent_cpu t) (all_list k) (Some k) =
      Some (mlfq_updated k (set (all_list k)))"
    using foreach_recent_cpu [of "all_list k" k "{}"] assms(2,4,5) by simp
  then show ?thesis
    using assms(3) unfolding mlfq_updated_def mlfq_thread_def Let_def by (simp add: thread_foreach_def)
qed

theorem mlfqs_update_total_witness:
  "\<exists>k'. thread_foreach thread_calc_recent_cpu ((sample_kernel (31, 31, 31))\<lparr>intr_on := False\<rparr>) = Some k' \<and>
     priority (threads k' 3) = 63 \<and> priority (threads k' 2) = 0"
proof -
  let ?k = "(sample_kernel (31, 31, 31))\<lparr>intr_on := False\<rparr>"
  have "decayed 0 (sample_thread i st p) = 0" for i st p
    by (simp add: decayed_def decay_def sample_thread_def FP_ADD_INT_def)
  then have "threads ?k 3 = sample_thread 3 THREAD_READY 31" "threads ?k 2 = sample_thread 2 THREAD_BLOCKED 0" "load_avg ?k = 0"
    "decayed 0 (threads ?k 3) = 0" "nice (threads ?k 3) = 0" "priority (threads ?k 2) = 0"
    by (simp_all add: sample_kernel_def PRI_MIN_def) (simp_all add: sample_thread_def)
  moreover have "mlfq_priority 0 0 = 63"
    by (simp add: mlfq_priority_def PRI_MAX_def PRI_MIN_def FP_TO_INT_def)
  moreover have "\<forall>t \<in> set (all_list ?k). is_s32 (recent_cpu (threads ?k t)) \<and>
      NICE_MIN \<le> nice (threads ?k t) \<and> nice (threads ?k t) \<le> NICE_MAX"
    by (simp add: sample_kernel_def sample_thread_def NICE_MIN_def NICE_MAX_def)
  ultimately show ?thesis
    using mlfqs_update_total [of ?k] sample_kernel_inv [of "(31, 31, 31)"]
    by (simp add: sample_kernel_simps)
qed

end
