(* ===== verification/Synch.thy ===== *)
theory Synch
  imports Sched
begin

text \<open>
  The synchronisation primitives of \<open>src/src/threads/synch.c\<close>.  Where the source calls a routine
  that may switch threads, the rest of the caller is pushed on the frame stack of the running
  thread first; theory \<open>Kernel_Steps\<close> runs the frames.
\<close>

section \<open>Semaphores\<close>

definition sema_init :: "addr \<Rightarrow> nat \<Rightarrow> kernel \<Rightarrow> kernel option" where
  "sema_init s v k = do {
     ASSERT (s \<noteq> NULL);
     Some (upd_sema s (\<lambda>_. \<lparr>sema_value = v, waiters = []\<rparr>) k)
   }"

text \<open>The loop of \<open>sema_down\<close>, entered with interrupts off, and the code after it.\<close>

definition sema_wait :: "addr \<Rightarrow> bool \<Rightarrow> kernel \<Rightarrow> kernel option" where
  "sema_wait s old_level k =
     (if sema_value (semas k s) = 0 then do {
        cur \<leftarrow> thread_current k;
        let k = upd_sema s (waiters_update (\<lambda>ws. ws @ [cur])) k;
        thread_block (push_frames [Sema_wait s old_level] k)
      }
      else intr_set_level old_level (upd_sema s (sema_value_update (\<lambda>v. v - 1)) k))"

definition sema_down :: "addr \<Rightarrow> kernel \<Rightarrow> kernel option" where
  "sema_down s k = do {
     ASSERT (s \<noteq> NULL);
     ASSERT (\<not> intr_context k);
     sema_wait s (intr_on k) (intr_disable k)
   }"

definition sema_try_down :: "addr \<Rightarrow> kernel \<Rightarrow> (bool \<times> kernel) option" where
  "sema_try_down s k = do {
     ASSERT (s \<noteq> NULL);
     if 0 < sema_value (semas k s)
     then Some (True, upd_sema s (sema_value_update (\<lambda>v. v - 1)) k)
     else Some (False, k)
   }"

definition sema_up :: "addr \<Rightarrow> kernel \<Rightarrow> kernel option" where
  "sema_up s k = do {
     ASSERT (s \<noteq> NULL);
     let old_level = intr_on k;
     let k = intr_disable k;
     (max_waiter, k) \<leftarrow>
       (if waiters (semas k s) \<noteq> [] then do {
          m \<leftarrow> thread_list_max k (waiters (semas k s));
          k \<leftarrow> thread_unblock m (upd_sema s (waiters_update (removeAll m)) k);
          Some (m, k)
        }
        else Some (NULL, k));
     let k = upd_sema s (sema_value_update (\<lambda>v. size_t (v + 1))) k;
     yield \<leftarrow> (if \<not> intr_context k \<and> max_waiter \<noteq> NULL then do {
                 cur \<leftarrow> thread_current k;
                 thread_less k cur max_waiter
               }
               else Some False);
     if yield then thread_yield (push_frames [Set_level old_level] k)
     else intr_set_level old_level k
   }"

section \<open>Locks and priority donation\<close>

definition MAX_DEPTH :: nat where
  "MAX_DEPTH = 8"

function donate_up :: "addr \<Rightarrow> nat \<Rightarrow> kernel \<Rightarrow> kernel" where
  "donate_up t depth k =
     (if MAX_DEPTH < depth \<or> t = NULL \<or> parent (threads k t) = NULL then k
      else let p = parent (threads k t);
               donated = max (extra_priority (threads k t)) (priority (threads k t))
           in donate_up p (depth + 1) (upd_thread p (extra_priority_update (\<lambda>e. max e donated)) k))"
  by auto
termination
  by (relation "measure (\<lambda>(t, d, k). MAX_DEPTH + 1 - d)") (auto simp: MAX_DEPTH_def)

declare donate_up.simps [simp del]

definition lock_init :: "addr \<Rightarrow> kernel \<Rightarrow> kernel option" where
  "lock_init l k = do {
     ASSERT (l \<noteq> NULL);
     sema_init l 1 (k\<lparr>holder := (holder k)(l := NULL)\<rparr>)
   }"

definition lock_held_by_current_thread :: "addr \<Rightarrow> kernel \<Rightarrow> bool option" where
  "lock_held_by_current_thread l k = do {
     ASSERT (l \<noteq> NULL);
     cur \<leftarrow> thread_current k;
     Some (holder k l = cur)
   }"

definition lock_acquire :: "addr \<Rightarrow> kernel \<Rightarrow> kernel option" where
  "lock_acquire l k = do {
     ASSERT (l \<noteq> NULL);
     ASSERT (\<not> intr_context k);
     held \<leftarrow> lock_held_by_current_thread l k;
     ASSERT (\<not> held);
     cur \<leftarrow> thread_current k;
     let k = donate_up cur 0 (upd_thread cur (parent_update (\<lambda>_. holder k l)) k);
     Some (push_frames [Sema_down l, Lock_acquired l] k)
   }"

text \<open>The rest of \<open>lock_acquire\<close> after \<open>sema_down\<close>.\<close>

definition lock_acquired :: "addr \<Rightarrow> kernel \<Rightarrow> kernel option" where
  "lock_acquired l k = do {
     cur \<leftarrow> thread_current k;
     Some (upd_thread cur (locks_update (\<lambda>ls. ls @ [l])) (k\<lparr>holder := (holder k)(l := cur)\<rparr>))
   }"

definition lock_try_acquire :: "addr \<Rightarrow> kernel \<Rightarrow> (bool \<times> kernel) option" where
  "lock_try_acquire l k = do {
     ASSERT (l \<noteq> NULL);
     held \<leftarrow> lock_held_by_current_thread l k;
     ASSERT (\<not> held);
     cur \<leftarrow> thread_current k;
     let k = donate_up cur 0 (upd_thread cur (parent_update (\<lambda>_. holder k l)) k);
     (success, k) \<leftarrow> sema_try_down l k;
     if success then do { k \<leftarrow> lock_acquired l k; Some (True, k) }
     else Some (False, k)
   }"

text \<open>The priority donated by the waiters of the locks a thread still holds.\<close>

primrec donated_by :: "kernel \<Rightarrow> addr list \<Rightarrow> int \<Rightarrow> int option" where
  "donated_by k [] e = Some e"
| "donated_by k (l # ls) e =
     (if waiters (semas k l) = [] then donated_by k ls e
      else do {
        t \<leftarrow> thread_list_max k (waiters (semas k l));
        donated_by k ls (max e (max (extra_priority (threads k t)) (priority (threads k t))))
      })"

definition lock_release :: "addr \<Rightarrow> kernel \<Rightarrow> kernel option" where
  "lock_release l k = do {
     ASSERT (l \<noteq> NULL);
     held \<leftarrow> lock_held_by_current_thread l k;
     ASSERT held;
     let k = fold (\<lambda>t. upd_thread t (parent_update (\<lambda>_. NULL))) (waiters (semas k l)) k;
     let h = holder k l;
     let k = upd_thread h (\<lambda>th. th\<lparr>extra_priority := 0, locks := removeAll l (locks th)\<rparr>) k;
     e \<leftarrow> donated_by k (locks (threads k h)) 0;
     let k = upd_thread h (extra_priority_update (\<lambda>_. e)) k;
     Some (push_frames [Sema_up l] (k\<lparr>holder := (holder k)(l := NULL)\<rparr>))
   }"

section \<open>Condition variables\<close>

text \<open>A waiter of a condition variable is the address of its semaphore on the waiting thread's stack.\<close>

definition cond_init :: "addr \<Rightarrow> kernel \<Rightarrow> kernel option" where
  "cond_init c k = do {
     ASSERT (c \<noteq> NULL);
     Some (k\<lparr>conds := (conds k)(c := [])\<rparr>)
   }"

definition cond_wait :: "addr \<Rightarrow> addr \<Rightarrow> addr \<Rightarrow> kernel \<Rightarrow> kernel option" where
  "cond_wait c l w k = do {
     ASSERT (c \<noteq> NULL);
     ASSERT (l \<noteq> NULL);
     ASSERT (\<not> intr_context k);
     held \<leftarrow> lock_held_by_current_thread l k;
     ASSERT held;
     k \<leftarrow> sema_init w 0 k;
     let k = k\<lparr>conds := (conds k)(c := conds k c @ [w])\<rparr>;
     Some (push_frames [Lock_release l, Sema_down w, Lock_acquire l] k)
   }"

definition condvar_less :: "kernel \<Rightarrow> addr \<Rightarrow> addr \<Rightarrow> bool option" where
  "condvar_less k a b = do {
     ASSERT (a \<noteq> NULL \<and> b \<noteq> NULL);
     ta \<leftarrow> thread_list_max k (waiters (semas k a));
     tb \<leftarrow> thread_list_max k (waiters (semas k b));
     thread_less k ta tb
   }"

definition cond_signal :: "addr \<Rightarrow> addr \<Rightarrow> kernel \<Rightarrow> kernel option" where
  "cond_signal c l k = do {
     ASSERT (c \<noteq> NULL);
     ASSERT (l \<noteq> NULL);
     ASSERT (\<not> intr_context k);
     held \<leftarrow> lock_held_by_current_thread l k;
     ASSERT held;
     if conds k c \<noteq> [] then do {
       e \<leftarrow> list_max_from (condvar_less k) (hd (conds k c)) (tl (conds k c));
       let k = k\<lparr>conds := (conds k)(c := removeAll e (conds k c))\<rparr>;
       Some (push_frames [Sema_up e] k)
     }
     else Some k
   }"

definition cond_broadcast :: "addr \<Rightarrow> addr \<Rightarrow> kernel \<Rightarrow> kernel option" where
  "cond_broadcast c l k = do {
     ASSERT (c \<noteq> NULL);
     ASSERT (l \<noteq> NULL);
     if conds k c \<noteq> [] then cond_signal c l (push_frames [Cond_broadcast c l] k)
     else Some k
   }"

section \<open>Read-write locks\<close>

definition upd_rw :: "addr \<Rightarrow> (rwlock \<Rightarrow> rwlock) \<Rightarrow> kernel \<Rightarrow> kernel" where
  "upd_rw r f k = k\<lparr>rwlocks := (rwlocks k)(r := f (rwlocks k r))\<rparr>"

definition rwlock_init :: "addr \<Rightarrow> kernel \<Rightarrow> kernel option" where
  "rwlock_init r k = do {
     ASSERT (r \<noteq> NULL);
     k \<leftarrow> lock_init r k;
     Some (upd_rw r (\<lambda>_. \<lparr>rw_waiters = [], active_readers = 0, active_writers = 0\<rparr>) k)
   }"

definition waiter_init :: "addr \<Rightarrow> kernel \<Rightarrow> kernel option" where
  "waiter_init w k = do {
     ASSERT (w \<noteq> NULL);
     sema_init w 0 k
   }"

definition rwlock_acquire_reader :: "addr \<Rightarrow> addr \<Rightarrow> kernel \<Rightarrow> kernel option" where
  "rwlock_acquire_reader r w k = do {
     ASSERT (r \<noteq> NULL);
     ASSERT (\<not> intr_context k);
     Some (push_frames [Lock_acquire r, Rw_reader r w] k)
   }"

text \<open>The rest of the routine once the internal lock is held; likewise below.\<close>

definition rw_reader :: "addr \<Rightarrow> addr \<Rightarrow> kernel \<Rightarrow> kernel option" where
  "rw_reader r w k =
     (if rw_waiters (rwlocks k r) = [] \<and> active_writers (rwlocks k r) = 0
      then Some (push_frames [Lock_release r] (upd_rw r (active_readers_update (\<lambda>n. size_t (n + 1))) k))
      else do {
        k \<leftarrow> waiter_init w k;
        let k = upd_rw r (rw_waiters_update (\<lambda>ws. ws @ [(False, w)])) k;
        Some (push_frames [Lock_release r, Sema_down w] k)
      })"

definition rwlock_acquire_writer :: "addr \<Rightarrow> addr \<Rightarrow> kernel \<Rightarrow> kernel option" where
  "rwlock_acquire_writer r w k = do {
     ASSERT (r \<noteq> NULL);
     ASSERT (\<not> intr_context k);
     Some (push_frames [Lock_acquire r, Rw_writer r w] k)
   }"

definition rw_writer :: "addr \<Rightarrow> addr \<Rightarrow> kernel \<Rightarrow> kernel option" where
  "rw_writer r w k =
     (if rw_waiters (rwlocks k r) = [] \<and> active_readers (rwlocks k r) = 0 \<and> active_writers (rwlocks k r) = 0
      then Some (push_frames [Lock_release r] (upd_rw r (active_writers_update (\<lambda>n. size_t (n + 1))) k))
      else do {
        k \<leftarrow> waiter_init w k;
        let k = upd_rw r (rw_waiters_update (\<lambda>ws. ws @ [(True, w)])) k;
        Some (push_frames [Lock_release r, Sema_down w] k)
      })"

definition rwlock_release :: "addr \<Rightarrow> kernel \<Rightarrow> kernel option" where
  "rwlock_release r k = do {
     ASSERT (r \<noteq> NULL);
     Some (push_frames [Lock_acquire r, Rw_released r] k)
   }"

definition rw_released :: "addr \<Rightarrow> kernel \<Rightarrow> kernel option" where
  "rw_released r k = do {
     k \<leftarrow> (if 0 < active_readers (rwlocks k r) then Some (upd_rw r (active_readers_update (\<lambda>n. n - 1)) k)
           else if 0 < active_writers (rwlocks k r) then Some (upd_rw r (active_writers_update (\<lambda>n. n - 1)) k)
           else None);
     if active_readers (rwlocks k r) = 0 \<and> active_writers (rwlocks k r) = 0
     then Some (push_frames [Rw_wake r, Lock_release r] k)
     else Some (push_frames [Lock_release r] k)
   }"

text \<open>One round of the loop that admits the waiters at the front of the queue.\<close>

definition rw_wake :: "addr \<Rightarrow> kernel \<Rightarrow> kernel option" where
  "rw_wake r k =
     (case rw_waiters (rwlocks k r) of
        [] \<Rightarrow> Some k
      | (is_writer, w) # ws \<Rightarrow>
          if is_writer then
            (if \<not> (active_writers (rwlocks k r) = 0 \<and> active_readers (rwlocks k r) = 0) then Some k
             else Some (push_frames [Sema_up w, Rw_wake r] (upd_rw r (\<lambda>q. q\<lparr>rw_waiters := ws,
               active_writers := size_t (active_writers q + 1)\<rparr>) k)))
          else
            (if 0 < active_writers (rwlocks k r) then Some k
             else Some (push_frames [Sema_up w, Rw_wake r] (upd_rw r (\<lambda>q. q\<lparr>rw_waiters := ws,
               active_readers := size_t (active_readers q + 1)\<rparr>) k))))"

end
