(* ===== verification/Kthread.thy ===== *)
theory Kthread
  imports Synch
begin

text \<open>
  Creation of threads, \<open>src/src/threads/thread.c\<close>: \<open>thread_init\<close>, \<open>thread_create\<close>, the idle thread
  and the first code a new thread runs.  The page for the new thread, and the address in it, come
  from \<open>palloc_get_page\<close> and are arguments here.
\<close>

section \<open>Initialisation of a thread structure\<close>

definition ROOT_DIR_SECTOR :: nat where
  "ROOT_DIR_SECTOR = 1"

text \<open>The static variable \<open>tid_lock\<close>; only its being an address of its own matters.\<close>

definition tid_lock :: addr where
  "tid_lock = 8"

definition init_thread :: "addr \<Rightarrow> string \<Rightarrow> int \<Rightarrow> kernel \<Rightarrow> kernel option" where
  "init_thread t nm pri k = do {
     ASSERT (t \<noteq> NULL);
     ASSERT (PRI_MIN \<le> pri \<and> pri \<le> PRI_MAX);
     (ni, rc) \<leftarrow>
       (if thread_mlfqs k then
          (if t = initial_thread k then Some (NICE_DEFAULT, RECENT_CPU_DEFAULT)
           else do { p \<leftarrow> thread_current k; Some (nice (threads k p), recent_cpu (threads k p)) })
        else Some (0, 0));
     cr \<leftarrow> (if t = initial_thread k then Some NULL else thread_current k);
     let k = upd_thread t (\<lambda>_. \<lparr>tid = 0, status = THREAD_BLOCKED, name = take 15 nm, stack = t + 4096,
       priority = (if thread_mlfqs k then PRI_MAX else pri), nice = ni, recent_cpu = rc,
       extra_priority = 0, parent = NULL, locks = [], wakeup_tick = 0, pagedir = NULL, creator = cr,
       ch_load_status = LOAD_READY, mapid_next = 1, cwd = ROOT_DIR_SECTOR, magic = THREAD_MAGIC,
       frames = []\<rparr>) k;
     Some (k\<lparr>all_list := all_list k @ [t]\<rparr>)
   }"

definition alloc_frame :: "addr \<Rightarrow> nat \<Rightarrow> kernel \<Rightarrow> kernel option" where
  "alloc_frame t n k = do {
     ASSERT (is_thread k t);
     ASSERT (n mod 4 = 0);
     Some (upd_thread t (stack_update (\<lambda>s. s - n)) k)
   }"

section \<open>Creating threads\<close>

text \<open>
  \<open>allocate_tid\<close> takes the lock, which may make the creating thread wait; \<open>tid_locked\<close> is the rest
  of it, and \<open>thread_created\<close> the rest of \<open>thread_create\<close>.  A false result is \<open>TID_ERROR\<close>.
\<close>

definition allocate_tid :: "addr \<Rightarrow> kernel \<Rightarrow> kernel option" where
  "allocate_tid t k = Some (push_frames [Lock_acquire tid_lock, Tid_locked t] k)"

definition tid_locked :: "addr \<Rightarrow> kernel \<Rightarrow> kernel option" where
  "tid_locked t k =
     Some (push_frames [Lock_release tid_lock, Thread_created t (next_tid k)]
       (k\<lparr>next_tid := to_s32 (next_tid k + 1)\<rparr>))"

text \<open>
  The three frames \<open>thread_create\<close> builds are 12, 4 and 28 bytes long; the last one makes the new
  thread start in \<open>kernel_thread\<close>.
\<close>

definition thread_created :: "addr \<Rightarrow> int \<Rightarrow> kernel \<Rightarrow> kernel option" where
  "thread_created t new_tid k = do {
     let k = upd_thread t (tid_update (\<lambda>_. new_tid)) k;
     k \<leftarrow> alloc_frame t 12 k;
     k \<leftarrow> alloc_frame t 4 k;
     k \<leftarrow> alloc_frame t 28 k;
     let k = upd_thread t (frames_update (\<lambda>fs. Kernel_thread # fs)) k;
     k \<leftarrow> thread_unblock t k;
     cur \<leftarrow> thread_current k;
     b \<leftarrow> thread_less k cur t;
     if b then thread_yield k else Some k
   }"

definition thread_create :: "string \<Rightarrow> int \<Rightarrow> addr \<Rightarrow> addr \<Rightarrow> kernel \<Rightarrow> (bool \<times> kernel) option" where
  "thread_create nm pri func page k = do {
     ASSERT (func \<noteq> NULL);
     if page = NULL then Some (False, k)
     else do {
       k \<leftarrow> init_thread page nm pri k;
       k \<leftarrow> allocate_tid page k;
       Some (True, k)
     }
   }"

definition kernel_thread :: "kernel \<Rightarrow> kernel option" where
  "kernel_thread k = intr_enable k"

section \<open>The initial and the idle thread\<close>

text \<open>
  At this point the running code is the only one, so the lock of \<open>allocate_tid\<close> is free.
\<close>

definition thread_init :: "addr \<Rightarrow> kernel \<Rightarrow> kernel option" where
  "thread_init main_page k = do {
     ASSERT (\<not> intr_on k);
     k \<leftarrow> lock_init tid_lock k;
     let k = k\<lparr>ready_list := [], all_list := []\<rparr>;
     let k = (if thread_mlfqs k then k\<lparr>load_avg := LOAD_AVG_DEFAULT\<rparr> else k);
     let k = k\<lparr>initial_thread := main_page, running := main_page\<rparr>;
     k \<leftarrow> init_thread main_page ''main'' PRI_DEFAULT k;
     let k = set_status main_page THREAD_RUNNING k;
     Some (upd_thread main_page (tid_update (\<lambda>_. next_tid k)) (k\<lparr>next_tid := to_s32 (next_tid k + 1)\<rparr>))
   }"

text \<open>\<open>thread_start\<close>: the semaphore \<open>s\<close> is the local variable \<open>idle_started\<close>.\<close>

definition thread_start :: "addr \<Rightarrow> addr \<Rightarrow> addr \<Rightarrow> kernel \<Rightarrow> kernel option" where
  "thread_start s func page k = do {
     k \<leftarrow> sema_init s 0 k;
     (_, k) \<leftarrow> thread_create ''idle'' PRI_MIN func page (push_frames [Set_level True, Sema_down s] k);
     Some k
   }"

definition idle_started :: "addr \<Rightarrow> kernel \<Rightarrow> kernel option" where
  "idle_started s k = do {
     t \<leftarrow> thread_current k;
     sema_up s (push_frames [Idle_loop] (k\<lparr>idle_thread := t\<rparr>))
   }"

text \<open>One round of the loop of \<open>idle\<close>: block, then enable interrupts and halt.\<close>

definition idle_loop :: "kernel \<Rightarrow> kernel option" where
  "idle_loop k = thread_block (push_frames [Idle_halt] (intr_disable k))"

definition idle_halt :: "kernel \<Rightarrow> kernel option" where
  "idle_halt k = Some (push_frames [Idle_loop] (k\<lparr>intr_on := True\<rparr>))"

section \<open>A system boots\<close>

text \<open>
  After \<open>thread_init\<close> the only thread is the running one, with the first tid; its scheduler
  invariant then only lacks the idle thread.
\<close>

lemma thread_init_ok:
  assumes "\<not> intr_on k" and "main_page \<noteq> NULL" and "next_tid k = 1"
  shows "\<exists>k'. thread_init main_page k = Some k' \<and> all_list k' = [main_page] \<and> ready_list k' = [] \<and>
    running k' = main_page \<and> thread_current k' = Some main_page \<and> tid (threads k' main_page) = 1 \<and>
    next_tid k' = 2 \<and> sema_value (semas k' tid_lock) = 1 \<and> holder k' tid_lock = NULL"
  using assms
  by (auto simp: thread_init_def lock_init_def sema_init_def init_thread_def tid_lock_def PRI_MIN_def
      PRI_DEFAULT_def PRI_MAX_def thread_current_def running_thread_def is_thread_def Let_def upd_sema_def)

text \<open>A new thread is blocked, has no tid yet, and everything else is as it was.\<close>

lemma init_thread_sched_inv:
  assumes "sched_inv k" and "t \<notin> set (all_list k)" and "t \<noteq> NULL" and "PRI_MIN \<le> pri" and "pri \<le> PRI_MAX"
  shows "\<exists>k'. init_thread t nm pri k = Some k' \<and> sched_inv k' \<and> all_list k' = all_list k @ [t] \<and>
    ready_list k' = ready_list k \<and> running k' = running k \<and>
    status (threads k' t) = THREAD_BLOCKED \<and> tid (threads k' t) = 0 \<and> magic (threads k' t) = THREAD_MAGIC"
proof -
  have cur: "thread_current k = Some (running k)" by (rule sched_inv_current [OF assms(1)])
  obtain th k' where k': "init_thread t nm pri k = Some k'"
    "k' = (upd_thread t (\<lambda>_. th) k)\<lparr>all_list := all_list k @ [t]\<rparr>" "tid th = 0"
    "status th = THREAD_BLOCKED" "magic th = THREAD_MAGIC"
    using assms cur by (cases "thread_mlfqs k"; cases "t = initial_thread k")
      (simp_all add: init_thread_def Let_def)
  have 1: "comparable k' (set (all_list k)) = comparable k (set (all_list k))"
    using assms(2) by (intro comparable_cong) (auto simp: k'(2))
  have "{u \<in> insert t (set (all_list k)). tid (threads k' u) \<noteq> 0} = {u \<in> set (all_list k). tid (threads k' u) \<noteq> 0}"
    using k' assms(2) by auto
  then have "comparable k' (insert t (set (all_list k)))"
    using 1 assms(1,3) k' unfolding sched_inv_def comparable_def by (auto simp: is_thread_def)
  then have "sched_inv k'"
    using assms(1-3) k'(2-5) unfolding sched_inv_def by auto
  then show ?thesis
    using k' by auto
qed

end
