(* ===== verification/Timer.thy ===== *)
theory Timer
  imports Kthread
begin

text \<open>
  The timer of \<open>src/src/devices/timer.c\<close> and the delivery of external interrupts by
  \<open>intr_handler\<close> of \<open>src/src/threads/interrupt.c\<close>.  Sleeping threads wait in a pairing heap
  (theory \<open>Pairing_Heap\<close>) ordered by the tick at which they are to be woken; the heap element of a
  thread is identified with the thread.
\<close>

unbundle bit_operations_syntax

section \<open>Sleeping and waking\<close>

definition TIMER_FREQ :: int where
  "TIMER_FREQ = 100"

definition sleep_que_comp :: "kernel \<Rightarrow> addr \<Rightarrow> addr \<Rightarrow> bool" where
  "sleep_que_comp k a b \<longleftrightarrow> wakeup_tick (threads k a) > wakeup_tick (threads k b)"

definition timer_ticks :: "kernel \<Rightarrow> int" where
  "timer_ticks k = ticks k"

definition timer_elapsed :: "int \<Rightarrow> kernel \<Rightarrow> int" where
  "timer_elapsed before k = to_s64 (timer_ticks k - before)"

definition timer_init :: "kernel \<Rightarrow> kernel" where
  "timer_init k = k\<lparr>sleep_que := heap_init\<rparr>"

definition timer_sleep :: "int \<Rightarrow> kernel \<Rightarrow> kernel option" where
  "timer_sleep n k = do {
     let start = timer_ticks k;
     ASSERT (intr_on k);
     let k = intr_disable k;
     cur \<leftarrow> thread_current k;
     let k = upd_thread cur (wakeup_tick_update (\<lambda>_. to_s64 (start + n))) k;
     let (q, links) = heap_push (sleep_que_comp k) cur (sleep_que k, sleep_links k);
     let k = k\<lparr>sleep_que := q, sleep_links := links\<rparr>;
     thread_block (push_frames [Set_level True] k)
   }"

partial_function (option) timer_wakeup_threads :: "int \<Rightarrow> kernel \<Rightarrow> kernel option" where
  "timer_wakeup_threads now k =
     (if heap_empty (sleep_que k) then Some k
      else let t = heap_top (sleep_que k) in
        if now < wakeup_tick (threads k t) then Some k
        else do {
          (_, q, links) \<leftarrow> heap_pop (sleep_que_comp k) (sleep_que k, sleep_links k);
          k \<leftarrow> thread_unblock t (k\<lparr>sleep_que := q, sleep_links := links\<rparr>);
          timer_wakeup_threads now k
        })"

definition timer_interrupt :: "kernel \<Rightarrow> kernel option" where
  "timer_interrupt k = do {
     let k = k\<lparr>ticks := to_s64 (ticks k + 1)\<rparr>;
     k \<leftarrow> thread_tick k;
     k \<leftarrow> timer_wakeup_threads (ticks k) k;
     if thread_mlfqs k \<and> ticks k smod TIMER_FREQ = 0 then do {
       let old_level = intr_on k;
       k \<leftarrow> thread_calc_load_avg (intr_disable k);
       k \<leftarrow> thread_foreach thread_calc_recent_cpu k;
       intr_set_level old_level k
     }
     else Some k
   }"

text \<open>
  \<open>intr_handler\<close> for an external interrupt: the processor has turned interrupts off on entry and
  turns them on again when the handler returns.
\<close>

definition intr_handler :: "(kernel \<Rightarrow> kernel option) \<Rightarrow> kernel \<Rightarrow> kernel option" where
  "intr_handler handler k = do {
     let k = push_frames [Set_level (intr_on k)] (k\<lparr>intr_on := False\<rparr>);
     ASSERT (\<not> intr_context k);
     k \<leftarrow> handler (k\<lparr>in_external_intr := True, yield_on_return := False\<rparr>);
     ASSERT (\<not> intr_on k);
     ASSERT (intr_context k);
     let k = k\<lparr>in_external_intr := False\<rparr>;
     if yield_on_return k then thread_yield k else Some k
   }"

section \<open>Delays\<close>

text \<open>What a delay amounts to: sleeping for a number of ticks, or a number of empty loop rounds.\<close>

datatype delay = Sleep_ticks int | Busy_loops int

definition real_time_delay :: "int \<Rightarrow> int \<Rightarrow> kernel \<Rightarrow> delay option" where
  "real_time_delay num denom k = do {
     ASSERT (denom smod 1000 = 0);
     Some (Busy_loops (to_s64 (to_s64 (to_s64 (loops_per_tick k * num) sdiv 1000 * TIMER_FREQ) sdiv (denom sdiv 1000))))
   }"

definition real_time_sleep :: "int \<Rightarrow> int \<Rightarrow> kernel \<Rightarrow> delay option" where
  "real_time_sleep num denom k = do {
     let n = to_s64 (num * TIMER_FREQ) sdiv denom;
     ASSERT (intr_on k);
     if n > 0 then Some (Sleep_ticks n) else real_time_delay num denom k
   }"

definition timer_msleep :: "int \<Rightarrow> kernel \<Rightarrow> delay option" where
  "timer_msleep ms = real_time_sleep ms 1000"

definition timer_usleep :: "int \<Rightarrow> kernel \<Rightarrow> delay option" where
  "timer_usleep us = real_time_sleep us 1000000"

definition timer_nsleep :: "int \<Rightarrow> kernel \<Rightarrow> delay option" where
  "timer_nsleep ns = real_time_sleep ns 1000000000"

definition timer_mdelay :: "int \<Rightarrow> kernel \<Rightarrow> delay option" where
  "timer_mdelay ms = real_time_delay ms 1000"

definition timer_udelay :: "int \<Rightarrow> kernel \<Rightarrow> delay option" where
  "timer_udelay us = real_time_delay us 1000000"

definition timer_ndelay :: "int \<Rightarrow> kernel \<Rightarrow> delay option" where
  "timer_ndelay ns = real_time_delay ns 1000000000"

text \<open>
  Calibration measures loops against the clock, which is hardware.  The time is counted in cycles of
  the processor; \<open>tick_at\<close> is the value that the variable \<open>ticks\<close> shows at a time while the timer
  interrupts come in, and the two costs are the cycles of one turn of the loop that waits for a tick
  and of the loop of \<open>busy_wait\<close>.
\<close>

record clock =
  tick_at :: "nat \<Rightarrow> int"
  wait_cost :: nat
  loop_cost :: nat

function busy_wait :: "clock \<Rightarrow> int \<Rightarrow> nat \<Rightarrow> nat" where
  "busy_wait c loops time = (if loops > 0 then busy_wait c (loops - 1) (time + loop_cost c) else time)"
  by pat_completeness auto
termination
  by (relation "measure (\<lambda>(_, loops, _). nat loops)") auto

declare busy_wait.simps [simp del]

partial_function (option) wait_tick :: "clock \<Rightarrow> int \<Rightarrow> nat \<Rightarrow> nat option" where
  "wait_tick c start time = (if tick_at c time = start then wait_tick c start (time + wait_cost c) else Some time)"

definition too_many_loops :: "clock \<Rightarrow> int \<Rightarrow> nat \<Rightarrow> (bool \<times> nat) option" where
  "too_many_loops c loops time = do {
     time \<leftarrow> wait_tick c (tick_at c time) time;
     let start = tick_at c time;
     let time = busy_wait c loops time;
     Some (start \<noteq> tick_at c time, time)
   }"

partial_function (option) calibrate_double :: "clock \<Rightarrow> int \<Rightarrow> nat \<Rightarrow> (int \<times> nat) option" where
  "calibrate_double c l time = do {
     (too_many, time) \<leftarrow> too_many_loops c (to_u32 (l * 2)) time;
     if too_many then Some (l, time)
     else do {
       ASSERT (to_u32 (l * 2) \<noteq> 0);
       calibrate_double c (to_u32 (l * 2)) time
     }
   }"

partial_function (option) calibrate_refine :: "clock \<Rightarrow> int \<Rightarrow> int \<Rightarrow> int \<Rightarrow> nat \<Rightarrow> (int \<times> nat) option" where
  "calibrate_refine c stop test_bit l time =
     (if test_bit = stop then Some (l, time)
      else do {
        (too_many, time) \<leftarrow> too_many_loops c (l OR test_bit) time;
        calibrate_refine c stop (test_bit div 2) (if too_many then l else l OR test_bit) time
      })"

definition timer_calibrate :: "clock \<Rightarrow> kernel \<Rightarrow> nat \<Rightarrow> (kernel \<times> nat) option" where
  "timer_calibrate c k time = do {
     ASSERT (intr_on k);
     (high_bit, time) \<leftarrow> calibrate_double c 1024 time;
     (l, time) \<leftarrow> calibrate_refine c (high_bit div 2 ^ 10) (high_bit div 2) high_bit time;
     Some (k\<lparr>loops_per_tick := l\<rparr>, time)
   }"

section \<open>The sleep queue\<close>

interpretation sleep_order: list_less_func "sleep_que_comp k" for k
  by unfold_locales (auto simp: sleep_que_comp_def)

interpretation sleep_heap: priority_queue "sleep_que_comp k" "heap_rep (sleep_que_comp k)" heap_ok
    "heap_push (sleep_que_comp k)" "heap_pop (sleep_que_comp k)" for k
  by (rule pairing_heap_is_priority_queue) (rule sleep_order.list_less_func_axioms)

definition sleepers :: "kernel \<Rightarrow> addr multiset \<Rightarrow> bool" where
  "sleepers k M \<longleftrightarrow> heap_rep (sleep_que_comp k) (sleep_que k, sleep_links k) M \<and>
     (\<forall>t. t \<in># M \<longrightarrow> count M t = 1 \<and> t \<in> set (all_list k) \<and> status (threads k t) = THREAD_BLOCKED \<and>
        tid (threads k t) \<noteq> 0 \<and> t \<noteq> idle_thread k)"

lemma sleep_que_comp_cong:
  "(\<And>t. wakeup_tick (threads k' t) = wakeup_tick (threads k t)) \<Longrightarrow> sleep_que_comp k' = sleep_que_comp k"
  by (intro ext) (simp add: sleep_que_comp_def)

lemma heap_rep_empty: "heap_rep lt (p, h) M \<Longrightarrow> heap_empty p \<longleftrightarrow> M = {#}"
  by (auto simp: heap_rep_def heap_empty_def)

lemma heap_pop_top: "heap_pop lt (p, h) = Some (e, s) \<Longrightarrow> \<not> heap_empty p \<Longrightarrow> e = heap_top p"
  by (auto simp: heap_pop_def heap_top_def Let_def split: option.splits bind_splits)

lemma wake_one:
  assumes k: "sched_inv k" "\<not> intr_on k" and M: "sleepers k M" "M \<noteq> {#}"
  shows "\<exists>t q l k'. heap_top (sleep_que k) = t \<and> t \<in># M \<and> (\<forall>x \<in># M. wakeup_tick (threads k t) \<le> wakeup_tick (threads k x)) \<and>
    heap_pop (sleep_que_comp k) (sleep_que k, sleep_links k) = Some (t, q, l) \<and>
    thread_unblock t (k\<lparr>sleep_que := q, sleep_links := l\<rparr>) = Some k' \<and> sched_inv k' \<and> \<not> intr_on k' \<and>
    k' = set_status t THREAD_READY (k\<lparr>sleep_que := q, sleep_links := l, ready_list := ready_list k @ [t]\<rparr>) \<and>
    sleepers k' (M - {#t#})"
proof -
  obtain t q l where t: "heap_pop (sleep_que_comp k) (sleep_que k, sleep_links k) = Some (t, q, l)" "t \<in># M"
    "\<forall>x \<in># M. \<not> sleep_que_comp k t x" "heap_rep (sleep_que_comp k) (q, l) (M - {#t#})"
    using sleep_heap.pop [of k "(sleep_que k, sleep_links k)" M] M by (auto simp: sleepers_def)
  have top: "heap_top (sleep_que k) = t"
    using heap_pop_top [OF t(1)] heap_rep_empty [of "sleep_que_comp k" "sleep_que k" "sleep_links k" M] M
    by (auto simp: sleepers_def)
  let ?k = "k\<lparr>sleep_que := q, sleep_links := l\<rparr>"
  have inv: "sched_inv ?k" using k(1) by (subst sched_inv_cong [of ?k k]) simp_all
  have t': "t \<in> set (all_list k)" "status (threads k t) = THREAD_BLOCKED" "tid (threads k t) \<noteq> 0" "t \<noteq> idle_thread k"
    "count M t = 1"
    using M(1) t(2) by (auto simp: sleepers_def)
  let ?k' = "set_status t THREAD_READY (?k\<lparr>ready_list := ready_list ?k @ [t]\<rparr>)"
  have u: "thread_unblock t ?k = Some ?k'" "sched_inv ?k'"
    using thread_unblock_ok [OF inv, of t] t' k(2) by simp_all
  have eq: "?k' = set_status t THREAD_READY (k\<lparr>sleep_que := q, sleep_links := l, ready_list := ready_list k @ [t]\<rparr>)"
    by simp
  have "sleep_que_comp ?k' = sleep_que_comp k"
    by (rule sleep_que_comp_cong) simp
  moreover have "t \<notin># M - {#t#}" using t'(5) by (simp add: not_in_iff)
  moreover have "count (M - {#t#}) x = 1 \<and> x \<in># M \<and> x \<noteq> t" if "x \<in># M - {#t#}" for x
    using that M(1) \<open>t \<notin># M - {#t#}\<close> in_diffD [OF that] by (auto simp: sleepers_def)
  ultimately have "sleepers ?k' (M - {#t#})"
    using t(4) M(1) by (auto simp: sleepers_def)
  moreover have "\<forall>x \<in># M. wakeup_tick (threads k t) \<le> wakeup_tick (threads k x)"
    using t(3) by (auto simp: sleep_que_comp_def)
  ultimately show ?thesis
    using top t(1,2) u k(2) eq by (intro exI [of _ t] exI [of _ q] exI [of _ l] exI [of _ ?k']) simp
qed

text \<open>
  C22: the timer wakes the right threads, in order.  At every tick \<open>now\<close>, waking ends without a
  failed assertion and moves to the end of the ready list exactly the sleeping threads whose wake-up
  tick has come, earliest first; the others stay asleep, and the scheduler invariant is kept.
\<close>

theorem timer_wakes_exactly:
  assumes "sched_inv k" and "\<not> intr_on k" and "sleepers k M"
  shows "\<exists>k' ws. timer_wakeup_threads now k = Some k' \<and> sched_inv k' \<and>
    ready_list k' = ready_list k @ ws \<and> mset ws = filter_mset (\<lambda>t. wakeup_tick (threads k t) \<le> now) M \<and>
    sorted_wrt (\<lambda>a b. wakeup_tick (threads k a) \<le> wakeup_tick (threads k b)) ws \<and>
    sleepers k' (filter_mset (\<lambda>t. now < wakeup_tick (threads k t)) M)"
  using assms
proof (induction "size M" arbitrary: M k rule: less_induct)
  case less
  note rep = less.prems(3) [unfolded sleepers_def, THEN conjunct1]
  show ?case
  proof (cases "M = {#}")
    case True
    then show ?thesis
      using heap_rep_empty [OF rep] less.prems by (subst timer_wakeup_threads.simps) simp
  next
    case False
    from wake_one [OF less.prems False] obtain t q l k1 where
      t: "heap_top (sleep_que k) = t" "t \<in># M" "\<forall>x \<in># M. wakeup_tick (threads k t) \<le> wakeup_tick (threads k x)"
      and pop: "heap_pop (sleep_que_comp k) (sleep_que k, sleep_links k) = Some (t, q, l)"
      and unblock: "thread_unblock t (k\<lparr>sleep_que := q, sleep_links := l\<rparr>) = Some k1"
      and k1: "sched_inv k1" "\<not> intr_on k1"
        "k1 = set_status t THREAD_READY (k\<lparr>sleep_que := q, sleep_links := l, ready_list := ready_list k @ [t]\<rparr>)"
        "sleepers k1 (M - {#t#})"
      by blast
    have ne: "\<not> heap_empty (sleep_que k)" using heap_rep_empty [OF rep] False by simp
    show ?thesis
    proof (cases "now < wakeup_tick (threads k t)")
      case True
      then have "\<forall>x \<in># M. now < wakeup_tick (threads k x)" using t(3) by force
      then have "filter_mset (\<lambda>t. now < wakeup_tick (threads k t)) M = M"
        "filter_mset (\<lambda>t. wakeup_tick (threads k t) \<le> now) M = {#}"
        by (auto simp: filter_mset_eq_conv)
      then show ?thesis
        using True ne t(1) less.prems by (subst timer_wakeup_threads.simps) simp
    next
      case False
      have w: "wakeup_tick (threads k1 x) = wakeup_tick (threads k x)" for x by (simp add: k1(3))
      have "size (M - {#t#}) < size M" using t(2) by (simp add: size_Diff1_less)
      from less.hyps [OF this k1(1,2,4)] obtain k' ws where
        k': "timer_wakeup_threads now k1 = Some k'" "sched_inv k'" "ready_list k' = ready_list k1 @ ws"
        "mset ws = filter_mset (\<lambda>t. wakeup_tick (threads k t) \<le> now) (M - {#t#})"
        "sorted_wrt (\<lambda>a b. wakeup_tick (threads k a) \<le> wakeup_tick (threads k b)) ws"
        "sleepers k' (filter_mset (\<lambda>t. now < wakeup_tick (threads k t)) (M - {#t#}))"
        unfolding w by blast
      have M: "M = add_mset t (M - {#t#})" using t(2) by simp
      have "mset (t # ws) = filter_mset (\<lambda>t. wakeup_tick (threads k t) \<le> now) M"
        using False k'(4) by (subst M) simp
      moreover have "filter_mset (\<lambda>t. now < wakeup_tick (threads k t)) M =
          filter_mset (\<lambda>t. now < wakeup_tick (threads k t)) (M - {#t#})"
        using False by (subst M) simp
      moreover have "\<forall>x \<in> set ws. wakeup_tick (threads k t) \<le> wakeup_tick (threads k x)"
        using t(3) k'(4) by (metis in_diffD mset_subset_eqD multiset_filter_subset set_mset_mset)
      moreover have "ready_list k' = ready_list k @ (t # ws)"
        using k'(3) by (simp add: k1(3))
      moreover have "timer_wakeup_threads now k = Some k'"
        using False ne t(1) pop unblock k'(1) by (subst timer_wakeup_threads.simps) simp
      ultimately show ?thesis
        using k' by (intro exI [of _ k'] exI [of _ "t # ws"]) simp
    qed
  qed
qed

lemma heap_ordered_cong:
  "(\<And>a b. a \<in> set (nodes ts) \<Longrightarrow> b \<in> set (nodes ts) \<Longrightarrow> lt a b = lt' a b) \<Longrightarrow>
   heap_ordered lt ts = heap_ordered lt' ts"
  by (induction ts rule: nodes.induct) auto

lemma heap_rep_cong:
  assumes "\<And>a b. a \<in># M \<Longrightarrow> b \<in># M \<Longrightarrow> lt a b = lt' a b"
  shows "heap_rep lt s M = heap_rep lt' s M"
proof -
  have "heap_ordered lt ts = heap_ordered lt' ts" if "mset (nodes ts) = M" for ts
    using assms that by (intro heap_ordered_cong) (metis set_mset_mset)+
  then show ?thesis by (cases s) (auto simp: heap_rep_def)
qed

text \<open>Going to sleep: the caller is added to the sleepers, and another thread runs.\<close>

lemma timer_sleep_ok:
  assumes k: "sched_inv k" "intr_on k" "\<not> intr_context k" "running k \<noteq> idle_thread k"
    and M: "sleepers k M" "running k \<notin># M" "size M + 1 < 2 ^ 32"
  shows "\<exists>k'. timer_sleep n k = Some k' \<and> sched_inv k' \<and> \<not> intr_on k' \<and>
    sleepers k' (add_mset (running k) M) \<and> ticks k' = ticks k \<and> all_list k' = all_list k \<and>
    wakeup_tick (threads k' (running k)) = to_s64 (ticks k + n) \<and>
    (\<forall>t. t \<noteq> running k \<longrightarrow> wakeup_tick (threads k' t) = wakeup_tick (threads k t))"
proof -
  define k1 where "k1 = upd_thread (running k) (wakeup_tick_update (\<lambda>_. to_s64 (ticks k + n))) (intr_disable k)"
  obtain q l where ql: "heap_push (sleep_que_comp k1) (running k) (sleep_que k1, sleep_links k1) = (q, l)" by fastforce
  define k2 where "k2 = push_frames [Set_level True] (k1\<lparr>sleep_que := q, sleep_links := l\<rparr>)"
  have run: "running k \<noteq> NULL" "running k \<in> set (all_list k)" "tid (threads k (running k)) \<noteq> 0"
    using k(1) by (auto simp: sched_inv_def comparable_def is_thread_def)
  have "heap_rep (sleep_que_comp k1) (sleep_que k1, sleep_links k1) M =
      heap_rep (sleep_que_comp k) (sleep_que k1, sleep_links k1) M"
    using M(2) by (intro heap_rep_cong) (auto simp: sleep_que_comp_def k1_def intr_disable_def)
  then have "heap_rep (sleep_que_comp k1) (sleep_que k1, sleep_links k1) M"
    using M(1) by (simp add: sleepers_def k1_def intr_disable_def)
  from sleep_heap.push [OF this, of "running k"] have rep: "heap_rep (sleep_que_comp k1) (q, l) (add_mset (running k) M)"
    using M run ql by (simp add: heap_ok_def)
  have inv: "sched_inv k2"
    unfolding k2_def sched_inv_push using k(1)
    by (subst sched_inv_thread [where k = k]) (simp_all add: k1_def intr_disable_def)
  have k2: "running k2 = running k" "\<not> intr_on k2" "\<not> intr_context k2"
    using k(3) by (simp_all add: k2_def k1_def intr_disable_def intr_context_def)
  from thread_block_ok [OF inv k2(2,3)] obtain k' t where
    k': "thread_block k2 = Some k'" "switched_to t (set_status (running k2) THREAD_BLOCKED k2) k'" "sched_inv k'" "chosen k2 t"
    by blast
  have th: "threads k' = (threads (set_status (running k2) THREAD_BLOCKED k2))
      (t := (threads (set_status (running k2) THREAD_BLOCKED k2) t)\<lparr>status := THREAD_RUNNING\<rparr>)"
    and k'_simps: "all_list k' = all_list k" "ticks k' = ticks k" "\<not> intr_on k'" "idle_thread k' = idle_thread k"
      "sleep_que k' = q" "sleep_links k' = l"
    using k'(2) k2 by (simp_all add: switched_to_def k2_def push_frames_def k1_def intr_disable_def)
  have w: "wakeup_tick (threads k' u) = wakeup_tick (threads k1 u)" for u
    by (simp add: th k2_def push_frames_def)
  have "t \<noteq> u" if "u = running k \<or> u \<in># M" for u
  proof -
    have "t = idle_thread k \<or> status (threads k t) = THREAD_READY"
      using k'(4) inv first_max_in [of "prio_less k2" "ready_list k2" t] k(1)
      by (auto simp: chosen_def k2_def k1_def intr_disable_def sched_inv_def split: if_splits)
    moreover have "u \<noteq> idle_thread k" "status (threads k u) \<noteq> THREAD_READY"
      using that M(1) k(1,4) by (auto simp: sleepers_def sched_inv_def)
    ultimately show ?thesis by auto
  qed
  then have st: "status (threads k' u) = THREAD_BLOCKED \<and> tid (threads k' u) = tid (threads k u)"
    if "u = running k \<or> u \<in># M" for u
    using that M(1) k2(1) by (auto simp: th k2_def push_frames_def k1_def intr_disable_def sleepers_def)
  have "sleep_que_comp k' = sleep_que_comp k1" by (rule sleep_que_comp_cong) (rule w)
  then have "sleepers k' (add_mset (running k) M)"
    using rep st M run k(4) k'_simps by (auto simp: sleepers_def not_in_iff)
  moreover have "timer_sleep n k = thread_block k2"
    using k sched_inv_current [of "k\<lparr>intr_on := False\<rparr>"] ql
    by (simp add: timer_sleep_def timer_ticks_def k1_def k2_def intr_disable_def)
  ultimately show ?thesis
    using k' k'_simps w by (simp add: k1_def intr_disable_def)
qed

lemma sample_sleepers: "sleepers (sample_kernel ps) {#}"
  by (cases ps) (auto simp: sleepers_def sample_kernel_def heap_init_rep)

theorem timer_wakes_exactly_witness:
  "\<exists>k k'. timer_sleep 5 (sample_kernel (31, 31, 31)) = Some k \<and>
     timer_wakeup_threads 5 k = Some k' \<and> last (ready_list k') = 1"
proof -
  obtain k where k: "timer_sleep 5 (sample_kernel (31, 31, 31)) = Some k" "sched_inv k" "\<not> intr_on k" "sleepers k {#1#}"
    "wakeup_tick (threads k 1) = 5"
    using timer_sleep_ok [OF sample_kernel_inv, of "(31, 31, 31)" "{#}" 5] sample_sleepers [of "(31, 31, 31)"]
    by (auto simp: sample_kernel_simps) (auto simp: sample_kernel_def)
  obtain k' ws where "timer_wakeup_threads 5 k = Some k'" "ready_list k' = ready_list k @ ws" "mset ws = {#1#}"
    using timer_wakes_exactly [OF k(2-4), of 5] k(5) by auto
  then show ?thesis using k(1) by (auto simp: mset_single_iff)
qed

section \<open>Calibration\<close>

text \<open>A clock that ticks every \<open>P\<close> cycles, some time after cycle 0.\<close>

definition ticks_every :: "nat \<Rightarrow> clock \<Rightarrow> bool" where
  "ticks_every P c \<longleftrightarrow> (\<exists>phase. \<forall>time. tick_at c time = int ((phase + time) div P)) \<and>
     0 < wait_cost c \<and> 0 < loop_cost c \<and> wait_cost c \<le> P"

lemma busy_wait_time: "busy_wait c loops time = time + nat loops * loop_cost c"
proof (induction c loops time rule: busy_wait.induct)
  case (1 c loops time)
  show ?case
  proof (cases "loops > 0")
    case True
    then have "nat loops = Suc (nat (loops - 1))" by simp
    then show ?thesis using 1 True by (subst busy_wait.simps) simp
  next
    case False
    then show ?thesis by (subst busy_wait.simps) simp
  qed
qed

text \<open>Waiting for a tick ends within the first turn of the loop after it.\<close>

lemma wait_tick_phase:
  assumes c: "\<And>time. tick_at c time = int ((phase + time) div P)" "0 < wait_cost c" "wait_cost c \<le> P"
  shows "\<exists>time'. wait_tick c (tick_at c time) time = Some time' \<and> (phase + time') mod P < wait_cost c"
proof -
  have P: "0 < P" using c(2,3) by simp
  have "\<exists>time'. wait_tick c (int q) time = Some time' \<and> (phase + time') mod P < wait_cost c"
    if "(phase + time) div P = q \<or> (phase + time) div P = Suc q \<and> (phase + time) mod P < wait_cost c" for q
    using that
  proof (induction "Suc q * P - (phase + time)" arbitrary: time rule: less_induct)
    case less
    show ?case
    proof (cases "(phase + time) div P = q")
      case True
      have lt: "phase + time < Suc q * P"
        using True P by (metis dividend_less_times_div mult.commute mult_Suc_right add.commute)
      have ge: "q * P \<le> phase + time" using True by (metis div_times_less_eq_dividend)
      have "(phase + (time + wait_cost c)) div P = q \<or>
          (phase + (time + wait_cost c)) div P = Suc q \<and> (phase + (time + wait_cost c)) mod P < wait_cost c"
      proof (cases "phase + (time + wait_cost c) < Suc q * P")
        case True
        then have "(phase + (time + wait_cost c)) div P = q"
          using ge by (intro div_nat_eqI) (simp_all add: mult.commute)
        then show ?thesis by simp
      next
        case False
        define d where "d = phase + (time + wait_cost c) - Suc q * P"
        have d: "phase + (time + wait_cost c) = d + Suc q * P" "d < wait_cost c"
          using False lt by (simp_all add: d_def)
        then have "d < P" using c(3) by simp
        then have "(d + Suc q * P) div P = Suc q \<and> (d + Suc q * P) mod P = d"
          using P by (simp only: div_mult_self1 mod_mult_self1 div_less mod_less) simp
        then show ?thesis using d by simp
      qed
      moreover have "Suc q * P - (phase + (time + wait_cost c)) < Suc q * P - (phase + time)"
        using lt c(2) by simp
      ultimately obtain time' where "wait_tick c (int q) (time + wait_cost c) = Some time'" "(phase + time') mod P < wait_cost c"
        using less.hyps by blast
      then show ?thesis using True c(1) by (subst wait_tick.simps) simp
    next
      case False
      then show ?thesis using less.prems c(1) by (subst wait_tick.simps) auto
    qed
  qed
  then show ?thesis using c(1) by simp
qed

lemma too_many_loops_spec:
  assumes "ticks_every P c" and "0 \<le> x"
  shows "\<exists>b time'. too_many_loops c x time = Some (b, time') \<and>
    (b \<longrightarrow> P < nat x * loop_cost c + wait_cost c) \<and> (\<not> b \<longrightarrow> nat x * loop_cost c < P)"
proof -
  obtain phase where c: "\<And>time. tick_at c time = int ((phase + time) div P)" "0 < wait_cost c" "wait_cost c \<le> P"
    using assms(1) by (auto simp: ticks_every_def)
  obtain t where t: "wait_tick c (tick_at c time) time = Some t" "(phase + t) mod P < wait_cost c"
    using wait_tick_phase [OF c] by blast
  define n where "n = nat x * loop_cost c"
  define r where "r = (phase + t) mod P"
  have P: "0 < P" and split: "phase + t = r + (phase + t) div P * P"
    using c(2,3) by (simp_all add: r_def)
  have "(phase + (t + n)) div P = (phase + t) div P + (r + n) div P"
  proof -
    have "phase + (t + n) = (r + n) + (phase + t) div P * P" using split by simp
    then show ?thesis using P by (simp only: div_mult_self1)
  qed
  then have "tick_at c t \<noteq> tick_at c (t + n) \<longleftrightarrow> P \<le> r + n"
    using P by (simp add: c(1) div_eq_0_iff not_less)
  moreover have "too_many_loops c x time = Some (tick_at c t \<noteq> tick_at c (t + n), t + n)"
    using t by (simp add: too_many_loops_def busy_wait_time n_def Let_def)
  ultimately show ?thesis
    using t(2) unfolding n_def [symmetric] r_def [symmetric] by (cases "P \<le> r + n") auto
qed

lemma or_power_add: "2 ^ Suc n dvd l \<Longrightarrow> l OR 2 ^ n = (l + 2 ^ n :: int)"
proof -
  assume "2 ^ Suc n dvd l"
  then obtain q where l: "l = 2 ^ Suc n * q" by auto
  have "l div 2 ^ n = 2 * q" by (simp add: l mult.assoc)
  then have "\<not> bit l n" by (simp add: bit_iff_odd)
  then have "\<not> bit l k \<or> \<not> bit (2 ^ n :: int) k" for k
    by (auto simp: bit_simps)
  then show ?thesis using disjunctive_add [of l "2 ^ n"] by simp
qed

lemma calibrate_refine_bound:
  assumes c: "ticks_every P c" and "2 ^ (n + Suc m) dvd l" and "0 \<le> l" and "nat l * loop_cost c < P"
    and "P < nat (l + 2 ^ (n + Suc m)) * loop_cost c + wait_cost c"
  shows "\<exists>l' time'. calibrate_refine c (2 ^ m) (2 ^ (n + m)) l time = Some (l', time') \<and> l \<le> l' \<and>
    nat l' * loop_cost c < P \<and> P < nat (l' + 2 ^ Suc m) * loop_cost c + wait_cost c"
  using assms(2-)
proof (induction n arbitrary: l time)
  case 0
  then show ?case by (subst calibrate_refine.simps) auto
next
  case (Suc n)
  define b :: int where "b = 2 ^ (Suc n + m)"
  have dvd: "2 ^ Suc (Suc n + m) dvd l" using Suc.prems(1) by simp
  have b: "0 < b" "b \<noteq> 2 ^ m" "b div 2 = 2 ^ (n + m)" "l OR b = l + b" "2 ^ (Suc n + Suc m) = b + b" "2 ^ (n + Suc m) = b"
    using or_power_add [OF dvd] power_strict_increasing [of m "Suc n + m" "2 :: int"] by (auto simp: b_def)
  have db: "b dvd l" using Suc.prems(1) unfolding b(5) by (metis dvd_add_right_iff dvd_refl dvd_trans dvd_triv_left mult_2)
  obtain too t1 where t1: "too_many_loops c (l + b) time = Some (too, t1)"
      "too \<longrightarrow> P < nat (l + b) * loop_cost c + wait_cost c" "\<not> too \<longrightarrow> nat (l + b) * loop_cost c < P"
    using too_many_loops_spec [OF c, of "l + b" time] Suc.prems(2) b(1) by auto
  define l1 where "l1 = (if too then l else l + b)"
  have "calibrate_refine c (2 ^ m) (2 ^ (Suc n + m)) l time = calibrate_refine c (2 ^ m) (2 ^ (n + m)) l1 t1"
    unfolding b_def [symmetric] by (subst calibrate_refine.simps) (simp add: b t1(1) l1_def)
  moreover have "\<exists>l' time'. calibrate_refine c (2 ^ m) (2 ^ (n + m)) l1 t1 = Some (l', time') \<and> l1 \<le> l' \<and>
      nat l' * loop_cost c < P \<and> P < nat (l' + 2 ^ Suc m) * loop_cost c + wait_cost c"
    using t1(2,3) Suc.prems(2-4) db b(1) unfolding b(5)
    by (intro Suc.IH [unfolded b(6)]) (auto simp: l1_def add.assoc)
  moreover have "l \<le> l1" using b(1) by (simp add: l1_def)
  ultimately show ?case by force
qed

lemma calibrate_double_bound:
  assumes c: "ticks_every P c" and P: "P \<le> 2 ^ 31 * loop_cost c"
  shows "2 ^ j * loop_cost c < P \<Longrightarrow> \<exists>i time'. j \<le> i \<and> calibrate_double c (2 ^ j) time = Some (2 ^ i, time') \<and>
    2 ^ i * loop_cost c < P \<and> P < 2 ^ Suc i * loop_cost c + wait_cost c"
proof (induction "31 - j" arbitrary: j time rule: less_induct)
  case less
  have lc: "0 < loop_cost c" using c by (simp add: ticks_every_def)
  have "2 ^ j * loop_cost c < 2 ^ 31 * loop_cost c" using less.prems P by (rule less_le_trans)
  then have "(2 :: nat) ^ j < 2 ^ 31" using mult_less_cancel2 [of _ "loop_cost c"] by blast
  then have j: "j < 31" by (subst (asm) power_strict_increasing_iff) auto
  then have "(2 :: int) ^ Suc j < 2 ^ 32" by (intro power_strict_increasing) auto
  then have u: "to_u32 (2 ^ j * 2) = 2 ^ Suc j" by (simp add: to_u32_def)
  obtain too t1 where t1: "too_many_loops c (2 ^ Suc j) time = Some (too, t1)"
      "too \<longrightarrow> P < 2 ^ Suc j * loop_cost c + wait_cost c" "\<not> too \<longrightarrow> 2 ^ Suc j * loop_cost c < P"
    using too_many_loops_spec [OF c, of "2 ^ Suc j" time] by (auto simp: nat_power_eq nat_mult_distrib)
  show ?case
  proof (cases too)
    case True
    then have "calibrate_double c (2 ^ j) time = Some (2 ^ j, t1)"
      using u t1(1) by (subst calibrate_double.simps) simp
    then show ?thesis using less.prems t1(2) True by auto
  next
    case False
    then have eq: "calibrate_double c (2 ^ j) time = calibrate_double c (2 ^ Suc j) t1"
      using u t1(1) by (subst calibrate_double.simps) simp
    have "31 - Suc j < 31 - j" using j by simp
    from less.hyps [OF this] t1(3) False eq show ?thesis by (metis Suc_leD)
  qed
qed



end
