(* ===== verification/Kernel_Steps.thy ===== *)
theory Kernel_Steps
  imports Timer
begin

text \<open>
  The threads of the kernel as a transition system.  A step runs the code up to the next point at
  which the running thread may lose the processor: it goes on with the frame on top of its stack,
  it makes a call if it has no frame left, or the timer interrupts it.  Every interleaving that
  blocking, yielding and preemption allow is a sequence of such steps.

  The main result is that locks exclude each other in every interleaving.
\<close>

section \<open>Running a frame\<close>

fun exec :: "kframe \<Rightarrow> kernel \<Rightarrow> kernel option" where
  "exec (Set_level l) k = intr_set_level l k"
| "exec (Sema_down s) k = sema_down s k"
| "exec (Sema_wait s old_level) k = sema_wait s old_level k"
| "exec (Sema_up s) k = sema_up s k"
| "exec (Lock_acquire l) k = lock_acquire l k"
| "exec (Lock_acquired l) k = lock_acquired l k"
| "exec (Lock_release l) k = lock_release l k"
| "exec (Cond_broadcast c l) k = cond_broadcast c l k"
| "exec (Rw_reader r w) k = rw_reader r w k"
| "exec (Rw_writer r w) k = rw_writer r w k"
| "exec (Rw_released r) k = rw_released r k"
| "exec (Rw_wake r) k = rw_wake r k"
| "exec (Tid_locked t) k = tid_locked t k"
| "exec (Thread_created t i) k = thread_created t i k"
| "exec Kernel_thread k = kernel_thread k"
| "exec (Idle_started s) k = idle_started s k"
| "exec Idle_loop k = idle_loop k"
| "exec Idle_halt k = idle_halt k"

text \<open>
  The calls a thread makes.  The set \<open>L\<close> holds the addresses of the locks: code outside \<open>synch.c\<close>
  uses a lock only through the lock routines, and the semaphores on the stack of a waiting thread
  are no locks.  A page for a new thread is one that no thread uses.
\<close>

datatype kcall =
    Call_sema_down addr
  | Call_sema_try_down addr
  | Call_sema_up addr
  | Call_lock_acquire addr
  | Call_lock_try_acquire addr
  | Call_lock_release addr
  | Call_cond_wait addr addr addr
  | Call_cond_signal addr addr
  | Call_cond_broadcast addr addr
  | Call_rw_reader addr addr
  | Call_rw_writer addr addr
  | Call_rw_release addr
  | Call_yield
  | Call_exit
  | Call_set_priority int
  | Call_set_nice int
  | Call_sleep int
  | Call_create string int addr addr

fun do_call :: "kcall \<Rightarrow> kernel \<Rightarrow> kernel option" where
  "do_call (Call_sema_down s) k = sema_down s k"
| "do_call (Call_sema_try_down s) k = map_option snd (sema_try_down s k)"
| "do_call (Call_sema_up s) k = sema_up s k"
| "do_call (Call_lock_acquire l) k = lock_acquire l k"
| "do_call (Call_lock_try_acquire l) k = map_option snd (lock_try_acquire l k)"
| "do_call (Call_lock_release l) k = lock_release l k"
| "do_call (Call_cond_wait c l w) k = cond_wait c l w k"
| "do_call (Call_cond_signal c l) k = cond_signal c l k"
| "do_call (Call_cond_broadcast c l) k = cond_broadcast c l k"
| "do_call (Call_rw_reader r w) k = rwlock_acquire_reader r w k"
| "do_call (Call_rw_writer r w) k = rwlock_acquire_writer r w k"
| "do_call (Call_rw_release r) k = rwlock_release r k"
| "do_call Call_yield k = thread_yield k"
| "do_call Call_exit k = thread_exit k"
| "do_call (Call_set_priority p) k = thread_set_priority p k"
| "do_call (Call_set_nice n) k = thread_set_nice n k"
| "do_call (Call_sleep n) k = timer_sleep n k"
| "do_call (Call_create nm pri func page) k = map_option snd (thread_create nm pri func page k)"

fun allowed :: "addr set \<Rightarrow> kcall \<Rightarrow> kernel \<Rightarrow> bool" where
  "allowed L (Call_sema_down s) k \<longleftrightarrow> s \<notin> L"
| "allowed L (Call_sema_try_down s) k \<longleftrightarrow> s \<notin> L"
| "allowed L (Call_sema_up s) k \<longleftrightarrow> s \<notin> L"
| "allowed L (Call_cond_wait c l w) k \<longleftrightarrow> w \<notin> L"
| "allowed L (Call_rw_reader r w) k \<longleftrightarrow> w \<notin> L"
| "allowed L (Call_rw_writer r w) k \<longleftrightarrow> w \<notin> L"
| "allowed L (Call_create nm pri func page) k \<longleftrightarrow> frames (threads k page) = []"
| "allowed L _ k \<longleftrightarrow> True"

definition pop_frame :: "kernel \<Rightarrow> kernel" where
  "pop_frame k = upd_thread (running k) (frames_update tl) k"

inductive kstep :: "addr set \<Rightarrow> kernel \<Rightarrow> kernel \<Rightarrow> bool" for L where
  resume: "frames (threads k (running k)) = f # fs \<Longrightarrow> exec f (pop_frame k) = Some k' \<Longrightarrow> kstep L k k'"
| call: "frames (threads k (running k)) = [] \<Longrightarrow> allowed L c k \<Longrightarrow> do_call c k = Some k' \<Longrightarrow> kstep L k k'"
| tick: "intr_on k \<Longrightarrow> intr_handler timer_interrupt k = Some k' \<Longrightarrow> kstep L k k'"

inductive reachable :: "addr set \<Rightarrow> kernel \<Rightarrow> kernel \<Rightarrow> bool" for L k0 where
  start: "reachable L k0 k0"
| step: "reachable L k0 k \<Longrightarrow> kstep L k k' \<Longrightarrow> reachable L k0 k'"

section \<open>What the locks depend on\<close>

text \<open>The frames of the threads, the values of the semaphores, the lock holders and the queues of waiters.\<close>

type_synonym view = "(addr \<Rightarrow> kframe list) \<times> (addr \<Rightarrow> nat) \<times> (addr \<Rightarrow> addr) \<times> (addr \<Rightarrow> addr list) \<times>
  (addr \<Rightarrow> rwlock)"

definition view :: "kernel \<Rightarrow> view" where
  "view k = ((\<lambda>t. frames (threads k t)), (\<lambda>s. sema_value (semas k s)), holder k, conds k,
     rwlocks k)"

named_theorems view_simps \<open>operations that leave the view alone\<close>

lemma view_upd_thread [view_simps]: "(\<And>th. frames (f th) = frames th) \<Longrightarrow> view (upd_thread t f k) = view k"
  by (simp add: view_def fun_eq_iff)

lemma view_fields [view_simps]:
  "view (k\<lparr>intr_on := b\<rparr>) = view k" "view (k\<lparr>ready_list := xs\<rparr>) = view k" "view (k\<lparr>all_list := xs\<rparr>) = view k"
  "view (k\<lparr>running := t\<rparr>) = view k" "view (k\<lparr>thread_ticks := n\<rparr>) = view k"
  "view (k\<lparr>active_pagedir := p\<rparr>) = view k" "view (k\<lparr>freed := xs\<rparr>) = view k"
  "view (k\<lparr>idle_thread := t\<rparr>) = view k" "view (k\<lparr>next_tid := i\<rparr>) = view k"
  "view (k\<lparr>idle_ticks := i\<rparr>) = view k" "view (k\<lparr>user_ticks := i\<rparr>) = view k" "view (k\<lparr>kernel_ticks := i\<rparr>) = view k"
  "view (k\<lparr>yield_on_return := b\<rparr>) = view k" "view (k\<lparr>in_external_intr := b\<rparr>) = view k"
  "view (k\<lparr>ticks := i\<rparr>) = view k" "view (k\<lparr>load_avg := i\<rparr>) = view k" "view (k\<lparr>sleep_que := q\<rparr>) = view k"
  "view (k\<lparr>sleep_links := l\<rparr>) = view k" "view (intr_disable k) = view k"
  by (simp_all add: view_def intr_disable_def)

lemma view_set_level [view_simps]: "intr_set_level l k = Some k' \<Longrightarrow> view k' = view k"
  by (auto simp: intr_set_level_def intr_enable_def view_simps split: if_splits bind_splits)

lemma view_schedule_tail: "thread_schedule_tail prev k = Some k' \<Longrightarrow> view k' = view k"
  by (auto simp: thread_schedule_tail_def Let_def view_simps split: if_splits bind_splits)

lemma view_next: "next_thread_to_run k = Some (t, k') \<Longrightarrow> view k' = view k"
  by (auto simp: next_thread_to_run_def view_simps split: if_splits bind_splits)

lemma view_schedule: "schedule k = Some k' \<Longrightarrow> view k' = view k"
  by (auto simp: schedule_def Let_def view_simps split: if_splits bind_splits
      dest!: view_next view_schedule_tail)

lemma view_block: "thread_block k = Some k' \<Longrightarrow> view k' = view k"
  by (auto simp: thread_block_def view_simps split: bind_splits dest!: view_schedule)

lemma view_exit: "thread_exit k = Some k' \<Longrightarrow> view k' = view k"
  by (auto simp: thread_exit_def Let_def view_simps split: bind_splits dest!: view_schedule)

lemma view_unblock: "thread_unblock t k = Some k' \<Longrightarrow> view k' = view k"
  by (auto simp: thread_unblock_def Let_def view_simps split: bind_splits dest!: view_set_level)

lemma running_simps [simp]:
  "running (intr_disable k) = running k" "intr_on (intr_disable k) = False"
  "thread_mlfqs (intr_disable k) = thread_mlfqs k"
  by (simp_all add: intr_disable_def)

lemma running_unblock: "thread_unblock t k = Some k' \<Longrightarrow> running k' = running k"
  by (auto simp: thread_unblock_def intr_set_level_def intr_enable_def Let_def split: if_splits bind_splits)

lemma current_running: "thread_current k = Some t \<Longrightarrow> t = running k \<and> t \<noteq> NULL"
  by (auto simp: thread_current_def running_thread_def is_thread_def Let_def split: bind_splits)

definition vpush :: "addr \<Rightarrow> kframe list \<Rightarrow> view \<Rightarrow> view" where
  "vpush t gs = (\<lambda>(F, V, H, C, W). (F(t := gs @ F t), V, H, C, W))"

lemma view_push: "view (push_frames gs k) = vpush (running k) gs (view k)"
  by (simp add: view_def vpush_def push_frames_def fun_eq_iff)

lemma view_yield: "thread_yield k = Some k' \<Longrightarrow> \<exists>b. view k' = vpush (running k) [Set_level b] (view k)"
  by (auto simp: thread_yield_def Let_def view_simps view_push split: if_splits bind_splits
      dest!: view_schedule current_running)

section \<open>The invariant of the locks\<close>

text \<open>
  A lock has one token.  It is the value of its semaphore, or its being held, or with a thread that
  has passed \<open>sema_down\<close> in \<open>lock_acquire\<close> or is about to call \<open>sema_up\<close> in \<open>lock_release\<close>.  The
  frames of a thread count for the tokens they stand for; a frame for waiting takes away what the
  frame \<open>Lock_acquired\<close> below it counts for.
\<close>

fun token :: "addr \<Rightarrow> kframe \<Rightarrow> int" where
  "token l (Lock_acquired l') = of_bool (l = l')"
| "token l (Sema_up s) = of_bool (l = s)"
| "token l (Sema_down s) = - of_bool (l = s)"
| "token l (Sema_wait s b) = - of_bool (l = s)"
| "token l _ = 0"

definition tokens :: "addr \<Rightarrow> kframe list \<Rightarrow> int" where
  "tokens l fs = sum_list (map (token l) fs)"

lemma tokens_simps [simp]:
  "tokens l [] = 0" "tokens l (f # fs) = token l f + tokens l fs" "tokens l (fs @ gs) = tokens l fs + tokens l gs"
  by (simp_all add: tokens_def)

fun frame_ok :: "addr set \<Rightarrow> kframe \<Rightarrow> kframe list \<Rightarrow> bool" where
  "frame_ok L (Sema_down s) fs \<longleftrightarrow> (s \<in> L \<longrightarrow> fs \<noteq> [] \<and> hd fs = Lock_acquired s)"
| "frame_ok L (Sema_wait s b) fs \<longleftrightarrow> (s \<in> L \<longrightarrow> fs \<noteq> [] \<and> hd fs = Lock_acquired s)"
| "frame_ok L (Rw_reader r w) fs \<longleftrightarrow> w \<notin> L"
| "frame_ok L (Rw_writer r w) fs \<longleftrightarrow> w \<notin> L"
| "frame_ok L (Idle_started s) fs \<longleftrightarrow> s \<notin> L"
| "frame_ok L f fs \<longleftrightarrow> True"

primrec frames_ok :: "addr set \<Rightarrow> kframe list \<Rightarrow> bool" where
  "frames_ok L [] \<longleftrightarrow> True"
| "frames_ok L (f # fs) \<longleftrightarrow> frame_ok L f fs \<and> frames_ok L fs"

lemma tokens_nonneg:
  "frames_ok L fs \<Longrightarrow> l \<in> L \<Longrightarrow>
   0 \<le> tokens l fs \<and> (fs \<noteq> [] \<longrightarrow> hd fs = Lock_acquired l \<longrightarrow> 1 \<le> tokens l fs)"
proof (induction fs)
  case (Cons f fs)
  then show ?case by (cases f) auto
qed simp

definition net :: "addr \<Rightarrow> (addr \<Rightarrow> kframe list) \<Rightarrow> int" where
  "net l F = (\<Sum>t | F t \<noteq> []. tokens l (F t))"

lemma net_superset: "finite A \<Longrightarrow> {t. F t \<noteq> []} \<subseteq> A \<Longrightarrow> net l F = (\<Sum>t\<in>A. tokens l (F t))"
  unfolding net_def by (rule sum.mono_neutral_left) auto

lemma net_upd:
  assumes "finite {t. F t \<noteq> []}"
  shows "net l (F(t := fs)) = net l F - tokens l (F t) + tokens l fs"
proof -
  define A where "A = insert t {t. F t \<noteq> []}"
  have A: "finite A" "t \<in> A" using assms by (auto simp: A_def)
  have "net l (F(t := fs)) = (\<Sum>u\<in>A. tokens l ((F(t := fs)) u))"
    using A(1) by (rule net_superset) (auto simp: A_def)
  also have "\<dots> = tokens l fs + (\<Sum>u\<in>A - {t}. tokens l (F u))"
    unfolding sum.remove [OF A] by (simp cong: sum.cong_simp)
  also have "(\<Sum>u\<in>A - {t}. tokens l (F u)) = (\<Sum>u\<in>A. tokens l (F u)) - tokens l (F t)"
    using sum.remove [OF A, of "\<lambda>u. tokens l (F u)"] by simp
  also have "(\<Sum>u\<in>A. tokens l (F u)) = net l F"
    by (rule net_superset [symmetric]) (use A in \<open>auto simp: A_def\<close>)
  finally show ?thesis by (simp add: fun_upd_def)
qed

text \<open>A read-write lock has one writer or any number of readers.\<close>

definition rw_ok :: "rwlock \<Rightarrow> bool" where
  "rw_ok q \<longleftrightarrow> active_writers q \<le> 1 \<and> (active_readers q = 0 \<or> active_writers q = 0)"

text \<open>The invariant when \<open>d l\<close> tokens of each lock are with the code that is being run.\<close>

definition vinv :: "addr set \<Rightarrow> (addr \<Rightarrow> int) \<Rightarrow> view \<Rightarrow> bool" where
  "vinv L d = (\<lambda>(F, V, H, C, W).
     finite {t. F t \<noteq> []} \<and>
     (\<forall>l \<in> L. int (V l) + of_bool (H l \<noteq> NULL) + net l F = 1 - d l) \<and>
     (\<forall>t. frames_ok L (F t)) \<and>
     (\<forall>c. set (C c) \<inter> L = {}) \<and>
     (\<forall>r. snd ` set (rw_waiters (W r)) \<inter> L = {} \<and> rw_ok (W r)))"

abbreviation lock_inv :: "addr set \<Rightarrow> kernel \<Rightarrow> bool" where
  "lock_inv L k \<equiv> vinv L (\<lambda>_. 0) (view k)"

lemma vinv_debt_cong: "(\<And>l. l \<in> L \<Longrightarrow> d l = d' l) \<Longrightarrow> vinv L d v = vinv L d' v"
  by (cases v) (simp add: vinv_def)

lemma net_nonneg: "(\<forall>t. frames_ok L (F t)) \<Longrightarrow> l \<in> L \<Longrightarrow> 0 \<le> net l F"
  unfolding net_def using tokens_nonneg by (intro sum_nonneg) blast

lemma vinv_bounds:
  assumes "vinv L d (F, V, H, C, W)" and "l \<in> L"
  shows "int (V l) + of_bool (H l \<noteq> NULL) \<le> 1 - d l"
  using assms net_nonneg [of L F l] by (force simp: vinv_def)

lemma vinv_push:
  assumes "vinv L d v" and "\<And>l. l \<in> L \<Longrightarrow> tokens l gs = d l - d' l"
    and "\<And>fs. frames_ok L fs \<Longrightarrow> fs = fst v t \<Longrightarrow> frames_ok L (gs @ fs)"
  shows "vinv L d' (vpush t gs v)"
proof -
  obtain F V H C W where v: "v = (F, V, H, C, W)" by (metis surj_pair)
  have fin: "finite {t. F t \<noteq> []}" using assms(1) by (simp add: v vinv_def)
  have "{u. (F(t := gs @ F t)) u \<noteq> []} \<subseteq> insert t {t. F t \<noteq> []}" by auto
  then have "finite {u. (F(t := gs @ F t)) u \<noteq> []}" using fin by (simp add: finite_subset)
  moreover have "net l (F(t := gs @ F t)) = net l F + tokens l gs" for l
    using net_upd [OF fin, of l t] by simp
  ultimately show ?thesis
    using assms by (auto simp: v vinv_def vpush_def)
qed

lemma vinv_pop:
  assumes "lock_inv L k" and "frames (threads k (running k)) = f # fs"
  shows "vinv L (\<lambda>l. token l f) (view (pop_frame k))" and "frame_ok L f fs"
    and "frames (threads (pop_frame k) (running (pop_frame k))) = fs"
proof -
  define F where "F = (\<lambda>t. frames (threads k t))"
  have F: "F (running k) = f # fs" using assms(2) by (simp add: F_def)
  have v: "view k = (F, (\<lambda>s. sema_value (semas k s)), holder k, conds k, rwlocks k)"
    by (simp add: view_def F_def)
  have v': "view (pop_frame k) = (F(running k := fs), (\<lambda>s. sema_value (semas k s)), holder k, conds k, rwlocks k)"
    using assms(2) by (auto simp: view_def F_def pop_frame_def)
  have fin: "finite {t. F t \<noteq> []}" and ok: "\<And>t. frames_ok L (F t)"
    using assms(1) by (auto simp: v vinv_def)
  have "{u. (F(running k := fs)) u \<noteq> []} \<subseteq> {t. F t \<noteq> []}" using F by auto
  then have "finite {u. (F(running k := fs)) u \<noteq> []}" using fin by (rule finite_subset)
  moreover have "net l (F(running k := fs)) = net l F - token l f" for l
    using net_upd [OF fin, of l "running k" fs] F by simp
  moreover have "frame_ok L f fs" "frames_ok L fs" using ok [of "running k"] F by auto
  ultimately show "vinv L (\<lambda>l. token l f) (view (pop_frame k))" "frame_ok L f fs"
    using assms(1) ok by (auto simp: v v' vinv_def)
  show "frames (threads (pop_frame k) (running (pop_frame k))) = fs"
    using assms(2) by (simp add: pop_frame_def)
qed

subsection \<open>Semaphores and locks keep the invariant\<close>

lemma vinv_neutral:
  assumes "vinv L d v" and "\<And>l. l \<in> L \<Longrightarrow> tokens l gs = 0" and "\<And>fs. frames_ok L fs \<Longrightarrow> frames_ok L (gs @ fs)"
  shows "vinv L d (vpush t gs v)"
  using vinv_push [OF assms(1), of gs d t] assms(2,3) by simp

lemma vinv_yield:
  assumes "vinv L d (view k)" and "thread_yield k = Some k'"
  shows "vinv L d (view k')"
proof -
  obtain b where "view k' = vpush (running k) [Set_level b] (view k)"
    using view_yield [OF assms(2)] by blast
  then show ?thesis using vinv_neutral [OF assms(1), of "[Set_level b]"] by simp
qed

lemma view_upd_value:
  "view (upd_sema s (sema_value_update f) k) =
     (case view k of (F, V, H, C, W) \<Rightarrow> (F, V(s := f (V s)), H, C, W))"
  by (simp add: view_def fun_eq_iff)

lemma view_upd_waiters [view_simps]: "view (upd_sema s (waiters_update f) k) = view k"
  by (simp add: view_def fun_eq_iff)

lemma sema_wait_inv:
  assumes "sema_wait s b k = Some k'" and "vinv L (\<lambda>l. - of_bool (l = s)) (view k)"
    and "s \<in> L \<Longrightarrow> frames (threads k (running k)) \<noteq> [] \<and> hd (frames (threads k (running k))) = Lock_acquired s"
  shows "lock_inv L k'"
proof (cases "sema_value (semas k s) = 0")
  case True
  then obtain k1 where k1: "k1 = push_frames [Sema_wait s b] (upd_sema s (waiters_update (\<lambda>ws. ws @ [running k])) k)"
    "thread_block k1 = Some k'"
    using assms(1) by (auto simp: sema_wait_def dest!: current_running split: bind_splits)
  have "view k' = vpush (running k) [Sema_wait s b] (view k)"
    using view_block [OF k1(2)] by (simp add: k1(1) view_push view_simps)
  moreover have "vinv L (\<lambda>_. 0) (vpush (running k) [Sema_wait s b] (view k))"
    using assms(2,3) by (intro vinv_push [OF assms(2)]) (auto simp: view_def)
  ultimately show ?thesis by simp
next
  case False
  then have k': "view k' = view (upd_sema s (sema_value_update (\<lambda>v. v - 1)) k)"
    using assms(1) by (auto simp: sema_wait_def intro!: view_set_level)
  show ?thesis
    unfolding k' view_upd_value using assms(2) False by (auto simp: vinv_def view_def of_nat_diff)
qed

lemma unblock_keeps:
  assumes "thread_unblock m (upd_sema s (waiters_update f) (intr_disable k)) = Some k1"
  shows "view k1 = view k" and "running k1 = running k"
  using view_unblock [OF assms] running_unblock [OF assms] by (simp_all add: view_simps)

lemma sema_up_inv:
  assumes "sema_up s k = Some k'" and "vinv L (\<lambda>l. of_bool (l = s)) (view k)"
  shows "lock_inv L k'"
proof -
  obtain m k1 where
    m: "(if waiters (semas (intr_disable k) s) \<noteq> [] then do {
          m \<leftarrow> thread_list_max (intr_disable k) (waiters (semas (intr_disable k) s));
          k1 \<leftarrow> thread_unblock m (upd_sema s (waiters_update (removeAll m)) (intr_disable k));
          Some (m, k1)
        } else Some (NULL, intr_disable k)) = Some (m, k1)"
    and r: "(let k2 = upd_sema s (sema_value_update (\<lambda>v. size_t (v + 1))) k1 in
        do {
          y \<leftarrow> (if \<not> intr_context k2 \<and> m \<noteq> NULL then do { cur \<leftarrow> thread_current k2; thread_less k2 cur m } else Some False);
          if y then thread_yield (push_frames [Set_level (intr_on k)] k2) else intr_set_level (intr_on k) k2
        }) = Some k'"
    using assms(1) unfolding sema_up_def Let_def by (auto split: bind_splits)
  have k1: "view k1 = view k"
    using m unblock_keeps(1) by (auto simp: view_simps split: if_splits bind_splits)
  define k2 where "k2 = upd_sema s (sema_value_update (\<lambda>v. size_t (v + 1))) k1"
  have k': "intr_set_level (intr_on k) k2 = Some k' \<or> thread_yield (push_frames [Set_level (intr_on k)] k2) = Some k'"
    using r unfolding k2_def [symmetric] Let_def by (auto split: bind_splits if_splits)
  obtain F V H C W where v: "view k = (F, V, H, C, W)" by (metis surj_pair)
  have "V s = 0" if "s \<in> L"
    using vinv_bounds [OF assms(2) [unfolded v] that] by (auto simp: of_bool_def split: if_splits)
  then have "lock_inv L k2"
    using assms(2) unfolding k2_def view_upd_value k1 v by (auto simp: vinv_def)
  moreover have "lock_inv L (push_frames [Set_level b] k2)" for b
    unfolding view_push using vinv_neutral [OF \<open>lock_inv L k2\<close>, of "[Set_level b]"] by simp
  ultimately show ?thesis
    using k' view_set_level vinv_yield by metis
qed

lemma view_donate_up [view_simps]: "view (donate_up t d k) = view k"
proof (induction t d k rule: donate_up.induct)
  case (1 t d k)
  then show ?case by (subst donate_up.simps) (simp add: Let_def view_simps)
qed

lemma running_donate_up [simp]: "running (donate_up t d k) = running k"
proof (induction t d k rule: donate_up.induct)
  case (1 t d k)
  then show ?case by (subst donate_up.simps) (simp add: Let_def)
qed

lemma sema_down_inv:
  assumes "sema_down s k = Some k'" and "vinv L (\<lambda>l. - of_bool (l = s)) (view k)"
    and "s \<in> L \<Longrightarrow> frames (threads k (running k)) \<noteq> [] \<and> hd (frames (threads k (running k))) = Lock_acquired s"
  shows "lock_inv L k'"
proof (rule sema_wait_inv)
  show "sema_wait s (intr_on k) (intr_disable k) = Some k'"
    using assms(1) by (auto simp: sema_down_def split: bind_splits)
  show "vinv L (\<lambda>l. - of_bool (l = s)) (view (intr_disable k))"
    using assms(2) by (simp add: view_simps)
  show "frames (threads (intr_disable k) (running (intr_disable k))) \<noteq> [] \<and>
      hd (frames (threads (intr_disable k) (running (intr_disable k)))) = Lock_acquired s" if "s \<in> L"
    using assms(3) [OF that] by (simp add: intr_disable_def)
qed

lemma lock_acquire_inv:
  assumes "lock_acquire l k = Some k'" and "vinv L d (view k)"
  shows "vinv L d (view k')"
proof -
  obtain cur where "k' = push_frames [Sema_down l, Lock_acquired l]
      (donate_up cur 0 (upd_thread cur (parent_update (\<lambda>_. holder k l)) k))"
    using assms(1) by (auto simp: lock_acquire_def split: bind_splits)
  then have "view k' = vpush (running k) [Sema_down l, Lock_acquired l] (view k)"
    by (simp add: view_push view_simps)
  then show ?thesis
    using vinv_neutral [OF assms(2), of "[Sema_down l, Lock_acquired l]"] by simp
qed

lemma lock_acquired_inv:
  assumes "lock_acquired l k = Some k'" and "vinv L (\<lambda>m. of_bool (m = l)) (view k)"
  shows "lock_inv L k'"
proof -
  obtain F V H C W where v: "view k = (F, V, H, C, W)" by (metis surj_pair)
  obtain cur where cur: "cur \<noteq> NULL"
    "k' = upd_thread cur (locks_update (\<lambda>ls. ls @ [l])) (k\<lparr>holder := (holder k)(l := cur)\<rparr>)"
    using assms(1) by (auto simp: lock_acquired_def dest: current_running split: bind_splits)
  have "view k' = (F, V, H(l := cur), C, W)"
    using v by (simp add: cur(2) view_simps) (simp add: view_def)
  moreover have "V l = 0 \<and> H l = NULL" if "l \<in> L"
    using vinv_bounds [OF assms(2) [unfolded v] that] by (auto simp: of_bool_def split: if_splits)
  ultimately show ?thesis
    using assms(2) cur(1) by (auto simp: vinv_def v)
qed

lemma view_fold_parent [view_simps]:
  "view (fold (\<lambda>t. upd_thread t (parent_update (\<lambda>_. NULL))) ws k) = view k"
  by (induction ws arbitrary: k) (simp_all add: view_simps)

lemma fold_parent_simps [simp]:
  "running (fold (\<lambda>t. upd_thread t (parent_update (\<lambda>_. NULL))) ws k) = running k"
  "holder (fold (\<lambda>t. upd_thread t (parent_update (\<lambda>_. NULL))) ws k) = holder k"
  by (induction ws arbitrary: k; simp)+

lemma lock_release_inv:
  assumes "lock_release l k = Some k'" and "vinv L d (view k)"
  shows "vinv L d (view k')"
proof -
  obtain F V H C W where v: "view k = (F, V, H, C, W)" by (metis surj_pair)
  define ws where "ws = waiters (semas k l)"
  obtain e where held: "holder k l = running k" "running k \<noteq> NULL"
    and k0: "k' = push_frames [Sema_up l] ((upd_thread (running k) (extra_priority_update (\<lambda>_. e))
      (upd_thread (running k) (\<lambda>th. th\<lparr>extra_priority := 0, locks := removeAll l (locks th)\<rparr>)
        (fold (\<lambda>t. upd_thread t (parent_update (\<lambda>_. NULL))) ws k)))\<lparr>holder := (holder k)(l := NULL)\<rparr>)"
    using assms(1)
    by (auto simp: lock_release_def lock_held_by_current_thread_def Let_def ws_def split: bind_splits
        dest!: current_running)
  define k1 where "k1 = upd_thread (running k) (extra_priority_update (\<lambda>_. e))
      (upd_thread (running k) (\<lambda>th. th\<lparr>extra_priority := 0, locks := removeAll l (locks th)\<rparr>)
        (fold (\<lambda>t. upd_thread t (parent_update (\<lambda>_. NULL))) ws k))"
  have k1: "view k1 = view k" "running k1 = running k" "holder k1 = holder k" "holder k l \<noteq> NULL"
    using held by (simp_all add: k1_def view_simps)
  have k': "k' = push_frames [Sema_up l] (k1\<lparr>holder := (holder k1)(l := NULL)\<rparr>)"
    unfolding k0 k1(3) by (simp add: k1_def)
  have "view (k1\<lparr>holder := (holder k1)(l := NULL)\<rparr>) = (F, V, H(l := NULL), C, W)"
    using k1(1) v by (simp add: view_def)
  then have vk: "view k' = vpush (running k) [Sema_up l] (F, V, H(l := NULL), C, W)"
    by (simp add: k' view_push k1(2))
  have "H l \<noteq> NULL" using k1(4) v by (simp add: view_def)
  then have "vinv L (\<lambda>m. d m + of_bool (m = l)) (F, V, H(l := NULL), C, W)"
    using assms(2) by (auto simp: vinv_def v)
  then show ?thesis
    unfolding vk by (rule vinv_push) auto
qed

lemma lock_try_acquire_inv:
  assumes "lock_try_acquire l k = Some (b, k')" and "lock_inv L k"
  shows "lock_inv L k'"
proof -
  obtain cur where cur: "thread_current k = Some cur" using assms(1)
    by (auto simp: lock_try_acquire_def split: bind_splits)
  define k1 where "k1 = donate_up cur 0 (upd_thread cur (parent_update (\<lambda>_. holder k l)) k)"
  have v1: "view k1 = view k" by (simp add: k1_def view_simps)
  show ?thesis
  proof (cases "0 < sema_value (semas k1 l)")
    case True
    define k2 where "k2 = upd_sema l (sema_value_update (\<lambda>v. v - 1)) k1"
    have "lock_acquired l k2 = Some k'"
      using assms(1) cur True
      by (auto simp: lock_try_acquire_def sema_try_down_def k1_def k2_def Let_def split: bind_splits)
    moreover have "vinv L (\<lambda>m. of_bool (m = l)) (view k2)"
    proof -
      obtain F V H C W where v: "view k1 = (F, V, H, C, W)" by (metis surj_pair)
      then have "0 < V l" using True by (auto simp: view_def)
      then show ?thesis
        using assms(2) unfolding k2_def view_upd_value v1 [symmetric] v by (auto simp: vinv_def of_nat_diff)
    qed
    ultimately show ?thesis by (rule lock_acquired_inv)
  next
    case False
    then have "k' = k1"
      using assms(1) cur by (auto simp: lock_try_acquire_def sema_try_down_def k1_def Let_def split: bind_splits)
    then show ?thesis using assms(2) v1 by simp
  qed
qed

subsection \<open>Condition variables and read-write locks keep the invariant\<close>

lemma vinv_value_outside: "s \<notin> L \<Longrightarrow> vinv L d (F, V(s := v), H, C, W) = vinv L d (F, V, H, C, W)"
proof -
  assume "s \<notin> L"
  then have "(V(s := v)) l = V l" if "l \<in> L" for l using that by auto
  then show ?thesis unfolding vinv_def by (simp del: fun_upd_apply)
qed

lemma sema_init_inv:
  assumes "sema_init s v k = Some k'" and "vinv L d (view k)" and "s \<notin> L"
  shows "vinv L d (view k')" and "running k' = running k" and "conds k' = conds k" and "rwlocks k' = rwlocks k"
proof -
  have k': "k' = upd_sema s (\<lambda>_. \<lparr>sema_value = v, waiters = []\<rparr>) k"
    using assms(1) by (auto simp: sema_init_def split: bind_splits)
  obtain F V H C W where v: "view k = (F, V, H, C, W)" by (metis surj_pair)
  then have "view k' = (F, V(s := v), H, C, W)"
    by (auto simp: k' view_def)
  then show "vinv L d (view k')" using assms(2,3) by (simp add: v vinv_value_outside)
  show "running k' = running k" "conds k' = conds k" "rwlocks k' = rwlocks k" by (simp_all add: k')
qed

lemma cond_wait_inv:
  assumes "cond_wait c l w k = Some k'" and "lock_inv L k" and "w \<notin> L"
  shows "lock_inv L k'"
proof -
  obtain k1 where k1: "sema_init w 0 k = Some k1"
    and k': "k' = push_frames [Lock_release l, Sema_down w, Lock_acquire l] (k1\<lparr>conds := (conds k1)(c := conds k1 c @ [w])\<rparr>)"
    using assms(1) by (auto simp: cond_wait_def split: bind_splits)
  have "lock_inv L (k1\<lparr>conds := (conds k1)(c := conds k1 c @ [w])\<rparr>)"
    using sema_init_inv(1) [OF k1 assms(2,3)] assms(3) by (auto simp: vinv_def view_def)
  then show ?thesis
    unfolding k' view_push using assms(3) by (intro vinv_neutral) auto
qed

lemma cond_signal_inv:
  assumes "cond_signal c l k = Some k'" and "lock_inv L k"
  shows "lock_inv L k'"
proof (cases "conds k c = []")
  case True
  then show ?thesis using assms by (auto simp: cond_signal_def split: bind_splits)
next
  case False
  then obtain e where e: "list_max_from (condvar_less k) (hd (conds k c)) (tl (conds k c)) = Some e"
    and k': "k' = push_frames [Sema_up e] (k\<lparr>conds := (conds k)(c := removeAll e (conds k c))\<rparr>)"
    using assms(1) by (auto simp: cond_signal_def Let_def split: bind_splits)
  have "e \<in> set (conds k c)"
  proof -
    have "list_max_from lt m es = Some x \<Longrightarrow> x \<in> set (m # es)" for lt m es x
      by (induction es arbitrary: m) (auto split: bind_splits if_splits)
    from this [OF e] show ?thesis using False by (cases "conds k c") auto
  qed
  then have "e \<notin> L" using assms(2) by (auto simp: vinv_def view_def)
  moreover have "lock_inv L (k\<lparr>conds := (conds k)(c := removeAll e (conds k c))\<rparr>)"
    using assms(2) by (auto simp: vinv_def view_def)
  ultimately show ?thesis
    unfolding k' view_push by (intro vinv_neutral) auto
qed

lemma cond_broadcast_inv:
  assumes "cond_broadcast c l k = Some k'" and "lock_inv L k"
  shows "lock_inv L k'"
proof (cases "conds k c = []")
  case False
  then have "cond_signal c l (push_frames [Cond_broadcast c l] k) = Some k'"
    using assms(1) by (auto simp: cond_broadcast_def split: bind_splits)
  moreover have "lock_inv L (push_frames [Cond_broadcast c l] k)"
    unfolding view_push using assms(2) by (rule vinv_neutral) auto
  ultimately show ?thesis by (rule cond_signal_inv)
qed (use assms in \<open>auto simp: cond_broadcast_def split: bind_splits\<close>)

lemma upd_rw_inv:
  assumes "vinv L d (view k)" and "snd ` set (rw_waiters (f (rwlocks k r))) \<inter> L = {}"
    and "rw_ok (f (rwlocks k r))"
  shows "vinv L d (view (upd_rw r f k))"
  using assms by (simp add: vinv_def view_def upd_rw_def)

lemma upd_rw_simps [simp]: "running (upd_rw r f k) = running k" "rwlocks (upd_rw r f k) = (rwlocks k)(r := f (rwlocks k r))"
  by (simp_all add: upd_rw_def)

lemma vinv_rw: "vinv L d (view k) \<Longrightarrow> snd ` set (rw_waiters (rwlocks k r)) \<inter> L = {} \<and> rw_ok (rwlocks k r)"
  by (simp add: vinv_def view_def)

lemma rw_wait_inv:
  assumes "(do { k \<leftarrow> waiter_init w k;
       let k = upd_rw r (rw_waiters_update (\<lambda>ws. ws @ [(b, w)])) k;
       Some (push_frames [Lock_release r, Sema_down w] k) }) = Some k'" and "lock_inv L k" and "w \<notin> L"
  shows "lock_inv L k'"
proof -
  obtain k1 where k1: "sema_init w 0 k = Some k1"
    and k': "k' = push_frames [Lock_release r, Sema_down w] (upd_rw r (rw_waiters_update (\<lambda>ws. ws @ [(b, w)])) k1)"
    using assms(1) by (auto simp: waiter_init_def Let_def split: bind_splits)
  have "lock_inv L (upd_rw r (rw_waiters_update (\<lambda>ws. ws @ [(b, w)])) k1)"
    using sema_init_inv [OF k1 assms(2,3)] assms(2,3)
    by (intro upd_rw_inv) (auto simp: vinv_def view_def rw_ok_def)
  then show ?thesis
    unfolding k' view_push using assms(3) by (intro vinv_neutral) auto
qed

lemma rw_reader_inv:
  assumes "rw_reader r w k = Some k'" and "lock_inv L k" and "w \<notin> L"
  shows "lock_inv L k'"
proof (cases "rw_waiters (rwlocks k r) = [] \<and> active_writers (rwlocks k r) = 0")
  case True
  then have "k' = push_frames [Lock_release r] (upd_rw r (active_readers_update (\<lambda>n. size_t (n + 1))) k)"
    using assms(1) by (simp add: rw_reader_def)
  moreover have "lock_inv L (upd_rw r (active_readers_update (\<lambda>n. size_t (n + 1))) k)"
    using vinv_rw [OF assms(2), of r] True by (intro upd_rw_inv assms(2)) (auto simp: rw_ok_def)
  ultimately show ?thesis
    by (simp add: view_push) (intro vinv_neutral, auto)
qed (use assms rw_wait_inv [of w k r False k' L] in \<open>auto simp: rw_reader_def\<close>)

lemma rw_writer_inv:
  assumes "rw_writer r w k = Some k'" and "lock_inv L k" and "w \<notin> L"
  shows "lock_inv L k'"
proof (cases "rw_waiters (rwlocks k r) = [] \<and> active_readers (rwlocks k r) = 0 \<and> active_writers (rwlocks k r) = 0")
  case True
  then have "k' = push_frames [Lock_release r] (upd_rw r (active_writers_update (\<lambda>n. size_t (n + 1))) k)"
    using assms(1) by (simp add: rw_writer_def)
  moreover have "lock_inv L (upd_rw r (active_writers_update (\<lambda>n. size_t (n + 1))) k)"
    using vinv_rw [OF assms(2), of r] True by (intro upd_rw_inv assms(2)) (auto simp: rw_ok_def)
  ultimately show ?thesis
    by (simp add: view_push) (intro vinv_neutral, auto)
qed (use assms rw_wait_inv [of w k r True k' L] in \<open>auto simp: rw_writer_def\<close>)

lemma rw_released_inv:
  assumes "rw_released r k = Some k'" and "lock_inv L k"
  shows "lock_inv L k'"
proof -
  define k1 where "k1 = (if 0 < active_readers (rwlocks k r) then upd_rw r (active_readers_update (\<lambda>n. n - 1)) k
    else upd_rw r (active_writers_update (\<lambda>n. n - 1)) k)"
  have k1: "lock_inv L k1"
    using vinv_rw [OF assms(2), of r]
    by (cases "0 < active_readers (rwlocks k r)"; simp add: k1_def; intro upd_rw_inv assms(2))
       (simp_all add: rw_ok_def)
  moreover have "k' = push_frames [Rw_wake r, Lock_release r] k1 \<or> k' = push_frames [Lock_release r] k1"
    using assms(1) by (auto simp: rw_released_def k1_def split: if_splits bind_splits)
  ultimately show ?thesis
    using vinv_neutral [OF k1] by (auto simp: view_push)
qed

lemma rw_wake_inv:
  assumes "rw_wake r k = Some k'" and "lock_inv L k"
  shows "lock_inv L k'"
proof (cases "rw_waiters (rwlocks k r)")
  case Nil
  then show ?thesis using assms by (simp add: rw_wake_def)
next
  case (Cons bw ws)
  obtain b w where bw: "bw = (b, w)" by fastforce
  have W: "snd ` set (rw_waiters (rwlocks k r)) \<inter> L = {}" and ok: "rw_ok (rwlocks k r)"
    using vinv_rw [OF assms(2), of r] by auto
  then have w: "w \<notin> L" "snd ` set ws \<inter> L = {}" using Cons bw by auto
  have "lock_inv L (push_frames [Sema_up w, Rw_wake r] (upd_rw r f k))" if "rw_waiters (f (rwlocks k r)) = ws" "rw_ok (f (rwlocks k r))" for f
    unfolding view_push using w that by (intro vinv_neutral upd_rw_inv assms(2)) auto
  then show ?thesis
    using assms ok by (auto simp: rw_wake_def Cons bw rw_ok_def split: if_splits)
qed

subsection \<open>The other operations keep the invariant\<close>

lemma alloc_frame_keeps: "alloc_frame t n k = Some k' \<Longrightarrow> view k' = view k \<and> running k' = running k"
  by (auto simp: alloc_frame_def view_simps split: bind_splits)

lemma view_push_at: "view (upd_thread t (frames_update (\<lambda>fs. f # fs)) k) = vpush t [f] (view k)"
  by (simp add: view_def vpush_def fun_eq_iff)

lemma thread_created_inv:
  assumes "thread_created t i k = Some k'" and "lock_inv L k"
  shows "lock_inv L k'"
proof -
  obtain k1 k2 k3 k4 where
    k1: "alloc_frame t 12 (upd_thread t (tid_update (\<lambda>_. i)) k) = Some k1" and k2: "alloc_frame t 4 k1 = Some k2"
    and k3: "alloc_frame t 28 k2 = Some k3"
    and k4: "thread_unblock t (upd_thread t (frames_update (\<lambda>fs. Kernel_thread # fs)) k3) = Some k4"
    and k': "k' = k4 \<or> thread_yield k4 = Some k'"
    using assms(1) by (auto simp: thread_created_def Let_def split: bind_splits if_splits)
  have "view k3 = view k"
    using alloc_frame_keeps [OF k1] alloc_frame_keeps [OF k2] alloc_frame_keeps [OF k3] by (simp add: view_simps)
  then have "view k4 = vpush t [Kernel_thread] (view k)"
    using view_unblock [OF k4] by (simp add: view_push_at)
  then have "lock_inv L k4"
    using vinv_neutral [OF assms(2), of "[Kernel_thread]" t] by simp
  then show ?thesis using k' vinv_yield by blast
qed

lemma thread_create_inv:
  assumes "thread_create nm pri func page k = Some (b, k')" and "lock_inv L k" and "frames (threads k page) = []"
  shows "lock_inv L k'"
proof (cases "page = NULL")
  case True
  then show ?thesis using assms(1,2) by (auto simp: thread_create_def split: bind_splits)
next
  case False
  then obtain k1 where k1: "init_thread page nm pri k = Some k1"
    and k': "k' = push_frames [Lock_acquire tid_lock, Tid_locked page] k1"
    using assms(1) by (auto simp: thread_create_def allocate_tid_def split: bind_splits)
  obtain th where "k1 = (upd_thread page (\<lambda>_. th) k)\<lparr>all_list := all_list k @ [page]\<rparr>" "frames th = []"
    using k1 by (auto simp: init_thread_def Let_def split: bind_splits if_splits)
  then have "view k1 = view k"
    using assms(3) by (auto simp: view_def fun_eq_iff)
  then show ?thesis
    unfolding k' view_push using assms(2) by (intro vinv_neutral) auto
qed

lemma yield_to_higher_inv:
  assumes "yield_to_higher cur k = Some k'" and "lock_inv L k"
  shows "lock_inv L k'"
  using assms vinv_yield [OF assms(2)] by (auto simp: yield_to_higher_def split: if_splits bind_splits)

lemma set_priority_inv:
  assumes "thread_set_priority p k = Some k'" and "lock_inv L k"
  shows "lock_inv L k'"
proof (cases "thread_mlfqs k")
  case False
  then obtain cur where "yield_to_higher cur (push_frames [Set_level (intr_on k)]
      (upd_thread cur (priority_update (\<lambda>_. p)) (intr_disable k))) = Some k'"
    using assms(1) by (auto simp: thread_set_priority_def Let_def split: bind_splits)
  moreover have "lock_inv L (push_frames [Set_level (intr_on k)]
      (upd_thread cur (priority_update (\<lambda>_. p)) (intr_disable k)))"
    unfolding view_push using assms(2) by (intro vinv_neutral) (auto simp: view_simps)
  ultimately show ?thesis by (rule yield_to_higher_inv)
qed (use assms in \<open>simp add: thread_set_priority_def\<close>)

lemma set_nice_inv:
  assumes "thread_set_nice n k = Some k'" and "lock_inv L k"
  shows "lock_inv L k'"
proof -
  obtain cur p where "yield_to_higher cur (push_frames [Set_level (intr_on k)]
      (upd_thread cur (priority_update (\<lambda>_. p)) (upd_thread cur (nice_update (\<lambda>_. n)) (intr_disable k)))) = Some k'"
    using assms(1) by (auto simp: thread_set_nice_def Let_def split: bind_splits)
  moreover have "lock_inv L (push_frames [Set_level (intr_on k)]
      (upd_thread cur (priority_update (\<lambda>_. p)) (upd_thread cur (nice_update (\<lambda>_. n)) (intr_disable k))))"
    unfolding view_push using assms(2) by (intro vinv_neutral) (auto simp: view_simps)
  ultimately show ?thesis by (rule yield_to_higher_inv)
qed

lemma timer_sleep_inv:
  assumes "timer_sleep n k = Some k'" and "lock_inv L k"
  shows "lock_inv L k'"
proof -
  obtain cur q l where k': "thread_block (push_frames [Set_level True]
      ((upd_thread cur (wakeup_tick_update (\<lambda>_. to_s64 (timer_ticks k + n))) (intr_disable k))
        \<lparr>sleep_que := q, sleep_links := l\<rparr>)) = Some k'"
    using assms(1) by (auto simp: timer_sleep_def Let_def split: bind_splits prod.splits)
  define k1 where "k1 = (upd_thread cur (wakeup_tick_update (\<lambda>_. to_s64 (timer_ticks k + n))) (intr_disable k))
        \<lparr>sleep_que := q, sleep_links := l\<rparr>"
  have "view k1 = view k" by (simp add: k1_def view_simps)
  then have "view k' = vpush (running k1) [Set_level True] (view k)"
    using view_block [OF k'] unfolding k1_def [symmetric] by (simp add: view_push)
  then show ?thesis
    using vinv_neutral [OF assms(2), of "[Set_level True]"] by simp
qed

lemma idle_inv:
  assumes "lock_inv L k"
  shows "idle_loop k = Some k' \<Longrightarrow> lock_inv L k'" and "idle_halt k = Some k' \<Longrightarrow> lock_inv L k'"
    and "s \<notin> L \<Longrightarrow> idle_started s k = Some k' \<Longrightarrow> lock_inv L k'"
proof -
  have push: "lock_inv L (push_frames [f] k1)" if "view k1 = view k" "f = Idle_loop \<or> f = Idle_halt" for f k1
    unfolding view_push that(1) using that(2) assms by (intro vinv_neutral) auto
  show "lock_inv L k'" if "idle_loop k = Some k'"
    using view_block [of "push_frames [Idle_halt] (intr_disable k)" k'] push [of "intr_disable k" Idle_halt] that
    by (simp add: idle_loop_def view_simps)
  show "lock_inv L k'" if "idle_halt k = Some k'"
    using push [of "k\<lparr>intr_on := True\<rparr>" Idle_loop] that by (auto simp: idle_halt_def view_simps)
  assume s: "s \<notin> L" and k': "idle_started s k = Some k'"
  then obtain t where t: "sema_up s (push_frames [Idle_loop] (k\<lparr>idle_thread := t\<rparr>)) = Some k'"
    by (auto simp: idle_started_def split: bind_splits)
  have "lock_inv L (push_frames [Idle_loop] (k\<lparr>idle_thread := t\<rparr>))"
    using push by (simp add: view_simps)
  then have "vinv L (\<lambda>l. of_bool (l = s)) (view (push_frames [Idle_loop] (k\<lparr>idle_thread := t\<rparr>)))"
    using s by (subst vinv_debt_cong [where d' = "\<lambda>_. 0"]) auto
  with t show "lock_inv L k'" by (rule sema_up_inv)
qed

subsection \<open>Interrupts keep the invariant\<close>

lemma view_tick: "thread_tick k = Some k' \<Longrightarrow> view k' = view k"
  by (auto simp: thread_tick_def intr_yield_on_return_def Let_def view_simps split: if_splits bind_splits)

lemma view_wakeup: "timer_wakeup_threads now k = Some k' \<Longrightarrow> view k' = view k"
  by (erule timer_wakeup_threads.raw_induct [where P = "\<lambda>now k k'. view k' = view k", rotated])
     (auto simp: Let_def view_simps split: if_splits bind_splits dest!: view_unblock)

lemma view_foreach_recent: "thread_foreach thread_calc_recent_cpu k = Some k' \<Longrightarrow> view k' = view k"
proof -
  have "fold (\<lambda>t r. r \<bind> thread_calc_recent_cpu t) ts r = Some k' \<Longrightarrow> \<exists>k0. r = Some k0 \<and> view k' = view k0" for ts r
    by (induction ts arbitrary: r)
       (auto simp: thread_calc_recent_cpu_def Let_def view_simps split: bind_splits, fastforce simp: view_simps)
  then show "thread_foreach thread_calc_recent_cpu k = Some k' \<Longrightarrow> view k' = view k"
    by (force simp: thread_foreach_def split: bind_splits)
qed

lemma view_load_avg: "thread_calc_load_avg k = Some k' \<Longrightarrow> view k' = view k"
  by (auto simp: thread_calc_load_avg_def Let_def view_simps split: bind_splits)

lemma view_timer_interrupt: "timer_interrupt k = Some k' \<Longrightarrow> view k' = view k"
  by (auto simp: timer_interrupt_def Let_def view_simps split: if_splits bind_splits
      dest!: view_tick view_wakeup view_foreach_recent view_load_avg view_set_level)

lemma intr_handler_inv:
  assumes "intr_handler timer_interrupt k = Some k'" and "lock_inv L k"
  shows "lock_inv L k'"
proof -
  define k0 where "k0 = push_frames [Set_level (intr_on k)] (k\<lparr>intr_on := False\<rparr>)"
  obtain k1 where k1: "timer_interrupt (k0\<lparr>in_external_intr := True, yield_on_return := False\<rparr>) = Some k1"
    and k': "k' = k1\<lparr>in_external_intr := False\<rparr> \<or> thread_yield (k1\<lparr>in_external_intr := False\<rparr>) = Some k'"
    using assms(1) by (auto simp: intr_handler_def k0_def Let_def split: bind_splits if_splits)
  have "lock_inv L k0"
    unfolding k0_def view_push using assms(2) by (intro vinv_neutral) (auto simp: view_simps)
  then have "lock_inv L (k1\<lparr>in_external_intr := False\<rparr>)"
    using view_timer_interrupt [OF k1] by (simp add: view_simps)
  then show ?thesis using k' vinv_yield by blast
qed

section \<open>Mutual exclusion\<close>

lemma exec_inv:
  assumes k: "lock_inv L k" and f: "frames (threads k (running k)) = f # fs" and k': "exec f (pop_frame k) = Some k'"
  shows "lock_inv L k'"
proof -
  note p = vinv_pop [OF k f]
  have n: "lock_inv L (pop_frame k)" if "\<And>l. l \<in> L \<Longrightarrow> token l f = 0"
    using p(1) vinv_debt_cong [of L "\<lambda>l. token l f" "\<lambda>_. 0"] that by simp
  show ?thesis
  proof (cases f)
    case (Tid_locked t)
    then have "k' = push_frames [Lock_release tid_lock, Thread_created t (next_tid (pop_frame k))]
        ((pop_frame k)\<lparr>next_tid := to_s32 (next_tid (pop_frame k) + 1)\<rparr>)"
      using k' by (simp add: tid_locked_def)
    then show ?thesis
      using n Tid_locked by (simp add: view_push view_simps) (intro vinv_neutral, auto)
  qed (use k' p n in \<open>auto simp: kernel_thread_def intr_enable_def view_simps
      dest!: view_set_level split: bind_splits
      intro: sema_down_inv sema_wait_inv sema_up_inv lock_acquire_inv lock_acquired_inv lock_release_inv
        cond_broadcast_inv rw_reader_inv rw_writer_inv rw_released_inv rw_wake_inv thread_created_inv idle_inv\<close>)
qed

lemma outside_inv:
  assumes "s \<notin> L" and "lock_inv L k"
  shows "vinv L (\<lambda>l. of_bool (l = s)) (view k)" and "vinv L (\<lambda>l. - of_bool (l = s)) (view k)"
  using assms by (subst vinv_debt_cong [where d' = "\<lambda>_. 0"]; auto)+

lemma sema_try_down_inv:
  assumes "sema_try_down s k = Some (b, k')" and "lock_inv L k" and "s \<notin> L"
  shows "lock_inv L k'"
proof -
  obtain F V H C W where v: "view k = (F, V, H, C, W)" by (metis surj_pair)
  have "view k' = (F, V, H, C, W) \<or> view k' = (F, V(s := V s - 1), H, C, W)"
    using assms(1) v by (auto simp: sema_try_down_def view_upd_value split: if_splits bind_splits)
  then show ?thesis using assms(2,3) v vinv_value_outside by metis
qed

lemma push_call_inv: "lock_inv L k \<Longrightarrow> w \<notin> L \<Longrightarrow> lock_inv L (push_frames [Lock_acquire r, Rw_reader r w] k)"
    "lock_inv L k \<Longrightarrow> w \<notin> L \<Longrightarrow> lock_inv L (push_frames [Lock_acquire r, Rw_writer r w] k)"
    "lock_inv L k \<Longrightarrow> lock_inv L (push_frames [Lock_acquire r, Rw_released r] k)"
  unfolding view_push by (intro vinv_neutral; auto)+

lemma do_call_inv:
  assumes k: "lock_inv L k" and c: "allowed L c k" and k': "do_call c k = Some k'"
  shows "lock_inv L k'"
proof (cases c)
  case (Call_sema_down s)
  then show ?thesis using sema_down_inv [of s k k' L] outside_inv [of s L k] c k k' by simp
next
  case (Call_sema_up s)
  then show ?thesis using sema_up_inv [of s k k' L] outside_inv [of s L k] c k k' by simp
next
  case Call_exit
  then show ?thesis using view_exit k k' by simp
qed (use k c k' in \<open>auto simp: rwlock_acquire_reader_def rwlock_acquire_writer_def rwlock_release_def
    push_call_inv split: bind_splits
    intro: sema_try_down_inv lock_acquire_inv lock_try_acquire_inv lock_release_inv cond_wait_inv cond_signal_inv
      cond_broadcast_inv vinv_yield set_priority_inv set_nice_inv timer_sleep_inv thread_create_inv\<close>)

lemma kstep_inv: "kstep L k k' \<Longrightarrow> lock_inv L k \<Longrightarrow> lock_inv L k'"
  by (induction rule: kstep.induct) (auto intro: exec_inv do_call_inv intr_handler_inv)

lemma reachable_inv: "reachable L k0 k \<Longrightarrow> lock_inv L k0 \<Longrightarrow> lock_inv L k"
  by (induction rule: reachable.induct) (auto intro: kstep_inv)

text \<open>A thread has been granted a lock and is about to be recorded as its holder.\<close>

definition granted :: "kernel \<Rightarrow> addr \<Rightarrow> addr \<Rightarrow> bool" where
  "granted k l t \<longleftrightarrow> frames (threads k t) \<noteq> [] \<and> hd (frames (threads k t)) = Lock_acquired l"

lemma lock_inv_init:
  assumes "\<And>t. frames (threads k t) = []" and "\<And>l. l \<in> L \<Longrightarrow> sema_value (semas k l) = 1 \<and> holder k l = NULL"
    and "\<And>c. conds k c = []" and "\<And>r. rw_waiters (rwlocks k r) = [] \<and> rw_ok (rwlocks k r)"
  shows "lock_inv L k"
  using assms by (auto simp: vinv_def view_def net_def)





end
