(* ===== verification/Donation.thy ===== *)
theory Donation
  imports Synch
begin

text \<open>
  Priority donation: what \<open>lock_acquire\<close> passes up the chain of lock holders, what \<open>lock_release\<close>
  leaves of it, and where the code falls short of it.
\<close>

section \<open>Donating\<close>

text \<open>The \<open>n\<close>-th thread up the chain: the holder of the lock the one before waits for.\<close>

definition ancestor :: "kernel \<Rightarrow> nat \<Rightarrow> addr \<Rightarrow> addr" where
  "ancestor k n t = ((\<lambda>t. parent (threads k t)) ^^ n) t"

lemma ancestor_0 [simp]: "ancestor k 0 t = t"
  by (simp add: ancestor_def)

lemma ancestor_Suc: "ancestor k (Suc n) t = ancestor k n (parent (threads k t))"
  by (simp add: ancestor_def funpow_Suc_right del: funpow.simps)

lemma ancestor_cong: "(\<And>t. parent (threads k' t) = parent (threads k t)) \<Longrightarrow> ancestor k' n t = ancestor k n t"
  by (simp add: ancestor_def)

text \<open>Donating changes nothing but the donated priorities, and lowers none of them.\<close>

lemma donate_up_frame:
  "priority (threads (donate_up t d k) u) = priority (threads k u) \<and>
   parent (threads (donate_up t d k) u) = parent (threads k u) \<and>
   extra_priority (threads k u) \<le> extra_priority (threads (donate_up t d k) u)"
proof (induction t d k rule: donate_up.induct)
  case (1 t d k)
  show ?case
  proof (cases "MAX_DEPTH < d \<or> t = NULL \<or> parent (threads k t) = NULL")
    case True
    then show ?thesis by (subst (1 2 3) donate_up.simps) simp
  next
    case False
    define p where "p = parent (threads k t)"
    define k1 where "k1 = upd_thread p (extra_priority_update
      (\<lambda>e. max e (max (extra_priority (threads k t)) (priority (threads k t))))) k"
    have "donate_up t d k = donate_up p (d + 1) k1"
      using False by (subst donate_up.simps) (simp add: p_def k1_def Let_def)
    moreover have "priority (threads k1 u) = priority (threads k u) \<and> parent (threads k1 u) = parent (threads k u) \<and>
        extra_priority (threads k u) \<le> extra_priority (threads k1 u)"
      by (simp add: k1_def)
    ultimately show ?thesis
      using "1.IH" [OF False p_def refl] by (simp add: k1_def)
  qed
qed

lemma donate_up_mono: "eff_priority k u \<le> eff_priority (donate_up t d k) u"
  using donate_up_frame [of t d k u] unfolding eff_priority_def by (intro max.mono) auto

lemma donate_up_chain:
  assumes "\<And>i. i < n \<Longrightarrow> ancestor k i t \<noteq> NULL \<and> ancestor k (Suc i) t \<noteq> NULL" and "d + n \<le> MAX_DEPTH + 1"
  shows "eff_priority k t \<le> eff_priority (donate_up t d k) (ancestor k n t)"
  using assms
proof (induction n arbitrary: t d k)
  case 0
  then show ?case using donate_up_mono by simp
next
  case (Suc n)
  define p where "p = parent (threads k t)"
  define k1 where "k1 = upd_thread p (extra_priority_update
    (\<lambda>e. max e (max (extra_priority (threads k t)) (priority (threads k t))))) k"
  have "t \<noteq> NULL" "p \<noteq> NULL"
    using Suc.prems(1) [of 0] by (simp_all add: p_def ancestor_Suc)
  then have d: "donate_up t d k = donate_up p (d + 1) k1"
    using Suc.prems(2) by (subst donate_up.simps) (simp add: p_def k1_def Let_def)
  have anc: "ancestor k1 i u = ancestor k i u" for i u
    by (rule ancestor_cong) (simp add: k1_def)
  have par: "parent (threads k1 u) = parent (threads k u)" for u
    by (simp add: k1_def)
  have "eff_priority k1 p \<le> eff_priority (donate_up p (d + 1) k1) (ancestor k1 n p)"
    using Suc.prems(1) [of "Suc i" for i] Suc.prems(2)
    by (intro Suc.IH) (simp_all add: anc par ancestor_Suc p_def)
  moreover have "eff_priority k t \<le> eff_priority k1 p"
    by (auto simp: eff_priority_def k1_def max_def)
  ultimately show ?case
    unfolding d by (simp add: anc ancestor_Suc p_def)
qed

text \<open>
  C26: priority donation reaches nine holders up.  When a thread calls \<open>lock_acquire\<close>, every thread
  on the chain from the holder of that lock on, up to the ninth, is afterwards scheduled with at
  least the caller's effective priority, and no thread's effective priority has gone down.
\<close>

theorem lock_acquire_donates:
  assumes "thread_current k = Some cur" and "holder k l \<noteq> cur" and "l \<noteq> NULL" and "\<not> intr_context k"
    and "\<forall>i < n. ancestor (upd_thread cur (parent_update (\<lambda>_. holder k l)) k) (Suc i) cur \<noteq> NULL" and "n \<le> 9"
  shows "\<exists>k'. lock_acquire l k = Some k' \<and>
    eff_priority k cur \<le> eff_priority k' (ancestor (upd_thread cur (parent_update (\<lambda>_. holder k l)) k) n cur) \<and>
    (\<forall>u. eff_priority k u \<le> eff_priority k' u)"
proof -
  define k1 where "k1 = upd_thread cur (parent_update (\<lambda>_. holder k l)) k"
  have eff: "eff_priority k1 = eff_priority k"
    by (intro ext) (simp add: k1_def eff_priority_def)
  have cur: "cur \<noteq> NULL" using assms(1)
    by (auto simp: thread_current_def running_thread_def is_thread_def Let_def split: bind_splits)
  have "ancestor k1 i cur \<noteq> NULL" if "i < n" for i
    using that assms(5) cur unfolding k1_def [symmetric] by (cases i) auto
  then have "eff_priority k1 cur \<le> eff_priority (donate_up cur 0 k1) (ancestor k1 n cur)"
    using assms(5,6) unfolding k1_def [symmetric] by (intro donate_up_chain) (auto simp: MAX_DEPTH_def)
  moreover have "lock_acquire l k = Some (push_frames [Sema_down l, Lock_acquired l] (donate_up cur 0 k1))"
    using assms(1-4) by (simp add: lock_acquire_def lock_held_by_current_thread_def k1_def)
  ultimately show ?thesis
    using donate_up_mono [of k1 _ cur 0] by (auto simp: eff k1_def [symmetric])
qed

text \<open>Thread 1 of a sample system with low priority holds a lock that thread 3 wants.\<close>

theorem lock_acquire_donates_witness:
  "\<exists>k'. lock_acquire 100 ((sample_kernel (50, 10, 10))\<lparr>holder := (\<lambda>_. 3)\<rparr>) = Some k' \<and> 50 \<le> eff_priority k' 3"
proof -
  let ?k = "(sample_kernel (50, 10, 10))\<lparr>holder := (\<lambda>_. 3)\<rparr>"
  have inv: "sched_inv ?k"
    using sample_kernel_inv [of "(50, 10, 10)"] by (subst sched_inv_cong [of ?k "sample_kernel (50, 10, 10)"]) simp_all
  have cur: "thread_current ?k = Some 1"
    using sched_inv_current [OF inv] by (simp add: sample_kernel_simps)
  have e: "eff_priority ?k 1 = 50"
    using sample_eff_priority [of 50 10 10 1] by (simp add: eff_priority_def)
  have anc: "ancestor (upd_thread 1 (parent_update (\<lambda>_. 3)) ?k) 1 1 = 3"
    by (simp add: ancestor_def)
  have "\<exists>k'. lock_acquire 100 ?k = Some k' \<and>
    eff_priority ?k 1 \<le> eff_priority k' (ancestor (upd_thread 1 (parent_update (\<lambda>_. holder ?k 100)) ?k) 1 1) \<and>
    (\<forall>u. eff_priority ?k u \<le> eff_priority k' u)"
    using anc cur by (intro lock_acquire_donates) (auto simp: sample_kernel_def intr_context_def)
  then show ?thesis using anc e by auto
qed

section \<open>Releasing\<close>

lemma donated_by_correct:
  assumes "\<forall>l \<in> set ls. distinct (waiters (semas k l)) \<and> comparable k (set (waiters (semas k l))) \<and>
      named k (set (waiters (semas k l)))"
  shows "\<exists>e'. donated_by k ls e = Some e' \<and> e \<le> e' \<and>
    (\<forall>l \<in> set ls. \<forall>t \<in> set (waiters (semas k l)). eff_priority k t \<le> e') \<and>
    (e' = e \<or> (\<exists>l \<in> set ls. \<exists>t \<in> set (waiters (semas k l)). e' = eff_priority k t))"
  using assms
proof (induction ls arbitrary: e)
  case (Cons l ls)
  show ?case
  proof (cases "waiters (semas k l) = []")
    case True
    then show ?thesis using Cons.IH [of e] Cons.prems by auto
  next
    case False
    obtain t where t: "thread_list_max k (waiters (semas k l)) = Some t" "first_max (prio_less k) (waiters (semas k l)) t"
      using thread_list_max_first [of k "waiters (semas k l)"] Cons.prems False by auto
    obtain e' where e': "donated_by k ls (max e (eff_priority k t)) = Some e'" "max e (eff_priority k t) \<le> e'"
      "\<forall>l \<in> set ls. \<forall>t \<in> set (waiters (semas k l)). eff_priority k t \<le> e'"
      "e' = max e (eff_priority k t) \<or> (\<exists>l \<in> set ls. \<exists>t \<in> set (waiters (semas k l)). e' = eff_priority k t)"
      using Cons.IH [of "max e (eff_priority k t)"] Cons.prems by auto
    have "max (extra_priority (threads k t)) (priority (threads k t)) = eff_priority k t"
      by (simp add: eff_priority_def max.commute)
    then have "donated_by k (l # ls) e = Some e'" using False t(1) e'(1) by simp
    moreover have "\<forall>u \<in> set (waiters (semas k l)). eff_priority k u \<le> e'"
      using first_max_ge [OF t(2)] e'(2) by force
    moreover have "e' = e \<or> (\<exists>l \<in> set (l # ls). \<exists>t \<in> set (waiters (semas k l)). e' = eff_priority k t)"
      using e'(4) first_max_in [OF t(2)] by (auto simp: max_def split: if_splits)
    ultimately show ?thesis using e'(2,3) by auto
  qed
qed auto

lemma fold_parent_threads:
  "tid (threads (fold (\<lambda>t. upd_thread t (parent_update (\<lambda>_. NULL))) ws k) u) = tid (threads k u)"
  "magic (threads (fold (\<lambda>t. upd_thread t (parent_update (\<lambda>_. NULL))) ws k) u) = magic (threads k u)"
  "priority (threads (fold (\<lambda>t. upd_thread t (parent_update (\<lambda>_. NULL))) ws k) u) = priority (threads k u)"
  "extra_priority (threads (fold (\<lambda>t. upd_thread t (parent_update (\<lambda>_. NULL))) ws k) u) = extra_priority (threads k u)"
  "locks (threads (fold (\<lambda>t. upd_thread t (parent_update (\<lambda>_. NULL))) ws k) u) = locks (threads k u)"
  "semas (fold (\<lambda>t. upd_thread t (parent_update (\<lambda>_. NULL))) ws k) = semas k"
  "holder (fold (\<lambda>t. upd_thread t (parent_update (\<lambda>_. NULL))) ws k) = holder k"
  "running (fold (\<lambda>t. upd_thread t (parent_update (\<lambda>_. NULL))) ws k) = running k"
  by (induction ws arbitrary: k; simp)+



text \<open>
  A condition variable with two waiters, the first of which has released the lock but not yet gone
  to sleep on its semaphore, cannot be signalled: comparing the waiters panics.
\<close>

lemma cond_signal_early_waiter:
  assumes "conds k c = a # b # ws" and "waiters (semas k a) = []"
  shows "cond_signal c l k = None"
  using assms by (simp add: cond_signal_def condvar_less_def thread_list_max_def split: bind_splits)

text \<open>
  A failed \<open>lock_try_acquire\<close> leaves the lock's holder recorded as the caller's parent, although the
  caller does not wait for the lock, so that its priority keeps being donated.
\<close>

lemma lock_try_acquire_stays_parent:
  assumes "lock_try_acquire l k = Some (False, k')"
  shows "parent (threads k' (running k)) = holder k l"
proof -
  obtain cur where cur: "thread_current k = Some cur"
    and k': "k' = donate_up cur 0 (upd_thread cur (parent_update (\<lambda>_. holder k l)) k)"
    using assms by (auto simp: lock_try_acquire_def sema_try_down_def Let_def split: bind_splits if_splits)
  have "cur = running k" using cur by (auto simp: thread_current_def running_thread_def Let_def split: bind_splits)
  then show ?thesis using donate_up_frame [of cur 0 _ cur] by (simp add: k')
qed

end
