(* ===== verification/Vaddr.thy ===== *)
theory Vaddr
  imports Pintos_Prelude
begin

text \<open>
  Virtual addresses and page table entries: \<open>src/src/threads/vaddr.h\<close> and
  \<open>src/src/threads/pte.h\<close>.  An address or an entry is the natural number below \<open>2 ^ 32\<close> its
  32 bits stand for.
\<close>

unbundle bit_operations_syntax

section \<open>Pages and address spaces\<close>

definition BITMASK :: "nat \<Rightarrow> nat \<Rightarrow> nat" where
  "BITMASK shift cnt = size_t (push_bit shift (size_t (push_bit cnt 1) - 1))"

definition PGSHIFT :: nat where
  "PGSHIFT = 0"

definition PGBITS :: nat where
  "PGBITS = 12"

definition PGSIZE :: nat where
  "PGSIZE = push_bit PGBITS 1"

definition PGMASK :: nat where
  "PGMASK = BITMASK PGSHIFT PGBITS"

text \<open>The complement of a 32-bit value.\<close>

definition complement :: "nat \<Rightarrow> nat" where
  "complement n = 2 ^ 32 - 1 - n"

definition pg_ofs :: "nat \<Rightarrow> nat" where
  "pg_ofs va = va AND PGMASK"

definition pg_no :: "nat \<Rightarrow> nat" where
  "pg_no va = drop_bit PGBITS va"

definition pg_round_up :: "nat \<Rightarrow> nat" where
  "pg_round_up va = size_t (va + PGSIZE - 1) AND complement PGMASK"

definition pg_round_down :: "nat \<Rightarrow> nat" where
  "pg_round_down va = va AND complement PGMASK"

definition PHYS_BASE :: nat where
  "PHYS_BASE = 0xc0000000"

definition is_user_vaddr :: "nat \<Rightarrow> bool" where
  "is_user_vaddr vaddr \<longleftrightarrow> vaddr < PHYS_BASE"

definition is_kernel_vaddr :: "nat \<Rightarrow> bool" where
  "is_kernel_vaddr vaddr \<longleftrightarrow> vaddr \<ge> PHYS_BASE"

definition ptov :: "nat \<Rightarrow> nat option" where
  "ptov paddr = do {
     ASSERT (paddr < PHYS_BASE);
     Some (size_t (paddr + PHYS_BASE))
   }"

definition vtop :: "nat \<Rightarrow> nat option" where
  "vtop vaddr = do {
     ASSERT (is_kernel_vaddr vaddr);
     Some (vaddr - PHYS_BASE)
   }"

section \<open>Page directory and page table entries\<close>

definition PTSHIFT :: nat where
  "PTSHIFT = PGBITS"

definition PTBITS :: nat where
  "PTBITS = 10"

definition PTMASK :: nat where
  "PTMASK = BITMASK PTSHIFT PTBITS"

definition PDSHIFT :: nat where
  "PDSHIFT = PTSHIFT + PTBITS"

definition pt_no :: "nat \<Rightarrow> nat" where
  "pt_no va = drop_bit PTSHIFT (va AND PTMASK)"

definition pd_no :: "nat \<Rightarrow> nat" where
  "pd_no va = drop_bit PDSHIFT va"

definition PTE_ADDR :: nat where
  "PTE_ADDR = 0xfffff000"

definition PTE_P :: nat where
  "PTE_P = 0x1"

definition PTE_W :: nat where
  "PTE_W = 0x2"

definition PTE_U :: nat where
  "PTE_U = 0x4"

definition PTE_A :: nat where
  "PTE_A = 0x20"

definition PTE_D :: nat where
  "PTE_D = 0x40"

definition pde_create :: "nat \<Rightarrow> nat option" where
  "pde_create pt = do {
     ASSERT (pg_ofs pt = 0);
     p \<leftarrow> vtop pt;
     Some (p OR PTE_U OR PTE_P OR PTE_W)
   }"

definition pde_get_pt :: "nat \<Rightarrow> nat option" where
  "pde_get_pt pde = do {
     ASSERT (pde AND PTE_P \<noteq> 0);
     ptov (pde AND PTE_ADDR)
   }"

definition pte_create_kernel :: "nat \<Rightarrow> bool \<Rightarrow> nat option" where
  "pte_create_kernel page writable = do {
     ASSERT (pg_ofs page = 0);
     p \<leftarrow> vtop page;
     Some (p OR PTE_P OR (if writable then PTE_W else 0))
   }"

definition pte_create_user :: "nat \<Rightarrow> bool \<Rightarrow> nat option" where
  "pte_create_user page writable = do {
     pte \<leftarrow> pte_create_kernel page writable;
     Some (pte OR PTE_U)
   }"

definition pte_get_page :: "nat \<Rightarrow> nat option" where
  "pte_get_page pte = ptov (pte AND PTE_ADDR)"

section \<open>Arithmetic of pages\<close>

named_theorems page_defs \<open>the constants of the page layout\<close>

lemmas [page_defs] = PGBITS_def PGSHIFT_def PTSHIFT_def PTBITS_def PDSHIFT_def PHYS_BASE_def

lemma PGSIZE_eq [simp]: "PGSIZE = 4096"
  by (simp add: PGSIZE_def PGBITS_def push_bit_eq_mult)

lemma PGMASK_eq: "PGMASK = mask 12"
  by (simp add: PGMASK_def BITMASK_def PGSHIFT_def PGBITS_def push_bit_eq_mult mask_eq_exp_minus_1)

lemma pg_ofs_mod: "pg_ofs va = va mod 4096"
  using take_bit_eq_mask [of 12 va] by (simp add: pg_ofs_def PGMASK_eq take_bit_eq_mod)

lemma pg_no_div: "pg_no va = va div 4096"
  by (simp add: pg_no_def PGBITS_def drop_bit_eq_div)

lemma pd_no_div: "pd_no va = va div 2 ^ 22"
  by (simp add: pd_no_def page_defs drop_bit_eq_div)

lemma high_bits:
  fixes n :: nat
  assumes "n < 2 ^ 32"
  shows "n AND 0xfffff000 = n - n mod 4096"
proof -
  have m: "(0xfffff000 :: nat) = push_bit 12 (mask 20)"
    by (simp add: mask_eq_exp_minus_1 push_bit_eq_mult)
  have "n AND push_bit 12 (mask 20) = push_bit 12 (drop_bit 12 n)"
  proof (rule bit_eqI)
    fix j
    have "bit n j \<Longrightarrow> j < 32"
      using assms by (metis bit_take_bit_iff take_bit_nat_eq_self_iff)
    then show "bit (n AND push_bit 12 (mask 20)) j \<longleftrightarrow> bit (push_bit 12 (drop_bit 12 n)) j"
      by (auto simp: bit_simps)
  qed
  then show ?thesis
    by (simp add: m push_bit_eq_mult drop_bit_eq_div minus_mod_eq_div_mult)
qed

lemma PGMASK_complement: "complement PGMASK = 0xfffff000"
  by (simp add: complement_def PGMASK_eq mask_eq_exp_minus_1)

lemma pg_round_down_eq: "va < 2 ^ 32 \<Longrightarrow> pg_round_down va = va - va mod 4096"
  by (simp add: pg_round_down_def PGMASK_complement high_bits)

lemma pg_round_up_eq:
  assumes "va \<le> 0xfffff000"
  shows "pg_round_up va = (va + 4095) div 4096 * 4096"
proof -
  have "size_t (va + 4095) = va + 4095"
    using assms by simp
  then show ?thesis
    using assms by (simp add: pg_round_up_def PGMASK_complement high_bits minus_mod_eq_div_mult)
qed

lemma pt_no_div:
  assumes "va < 2 ^ 32"
  shows "pt_no va = va div 4096 mod 1024"
proof -
  have m: "PTMASK = push_bit 12 (mask 10)"
    by (simp add: PTMASK_def BITMASK_def page_defs push_bit_eq_mult mask_eq_exp_minus_1)
  have "drop_bit 12 (va AND push_bit 12 (mask 10)) = take_bit 10 (drop_bit 12 va)"
    by (rule bit_eqI) (auto simp: bit_simps)
  then show ?thesis
    by (simp add: pt_no_def m page_defs drop_bit_eq_div take_bit_eq_mod)
qed

lemma vaddr_parts: "va < 2 ^ 32 \<Longrightarrow> va = (pd_no va * 1024 + pt_no va) * 4096 + pg_ofs va"
proof -
  assume va: "va < 2 ^ 32"
  have "pd_no va = va div 4096 div 1024"
    by (simp add: pd_no_div div_mult2_eq [symmetric])
  then have "pd_no va * 1024 + pt_no va = va div 4096"
    using va by (simp add: pt_no_div)
  then show ?thesis
    by (simp add: pg_ofs_mod)
qed

text \<open>An entry made of a page-aligned address and flags gives both back.\<close>

lemma aligned_bits:
  fixes p :: nat
  assumes "p mod 4096 = 0" and "bit p j"
  shows "12 \<le> j"
proof -
  have "p = push_bit 12 (p div 4096)"
    using assms(1) by (simp add: push_bit_eq_mult mult.commute dvd_div_mult_self mod_0_imp_dvd)
  then have "bit (push_bit 12 (p div 4096)) j"
    using assms(2) by simp
  then show ?thesis
    by (simp add: bit_push_bit_iff_nat)
qed

lemma flag_bits:
  fixes f :: nat
  assumes "f < 4096" and "bit f j"
  shows "j < 12"
proof -
  have "take_bit 12 f = f"
    using assms(1) by (simp add: take_bit_nat_eq_self_iff)
  then have "bit (take_bit 12 f) j"
    using assms(2) by simp
  then show ?thesis
    by (simp add: bit_take_bit_iff)
qed

lemma entry_parts:
  fixes p f g :: nat
  assumes "p mod 4096 = 0" and "p < 2 ^ 32" and "f < 4096"
  shows "(p OR f) AND PTE_ADDR = p"
    and "g < 4096 \<Longrightarrow> (p OR f) AND g = f AND g"
proof -
  have low: "f AND PTE_ADDR = 0"
    using assms(3) by (simp add: PTE_ADDR_def high_bits)
  have "p AND PTE_ADDR = p"
    using assms(1,2) by (simp add: PTE_ADDR_def high_bits)
  moreover have "(p OR f) AND PTE_ADDR = (p AND PTE_ADDR) OR (f AND PTE_ADDR)"
    by (rule bit_eqI) (auto simp: bit_simps)
  ultimately show "(p OR f) AND PTE_ADDR = p"
    using low by simp
  show "(p OR f) AND g = f AND g" if g: "g < 4096"
  proof (rule bit_eqI)
    fix j
    show "bit ((p OR f) AND g) j \<longleftrightarrow> bit (f AND g) j"
      using aligned_bits [OF assms(1), of j] flag_bits [OF g, of j] by (auto simp: bit_simps)
  qed
qed

lemma or_less_4096: "a < 4096 \<Longrightarrow> b < 4096 \<Longrightarrow> a OR b < (4096 :: nat)"
  using take_bit_nat_less_exp [of 12 "a OR b"] by (simp add: take_bit_nat_eq_self_iff [of 12, simplified, symmetric])

end
