(* ===== verification/Palloc.thy ===== *)
theory Palloc
  imports Bitmap Cstring Vaddr
begin

text \<open>
  The page allocator of \<open>src/src/threads/palloc.c\<close>.  Two pools hand out groups of consecutive pages,
  one for the kernel and one for user pages.  The memory of the machine is the byte memory of
  \<open>Cstring\<close>; the bitmap of a pool, which the code places in front of the pool's pages, is kept as a
  value of its own.  A call runs without contention for the pool's lock, whose state is the flag
  \<open>pool_lock\<close>.
\<close>

section \<open>Words in memory\<close>

text \<open>Loads and stores of a 32-bit word, least significant byte first.\<close>

definition load32 :: "mem \<Rightarrow> addr \<Rightarrow> nat" where
  "load32 m a = unat (m a) + 2 ^ 8 * unat (m (a + 1)) + 2 ^ 16 * unat (m (a + 2)) + 2 ^ 24 * unat (m (a + 3))"

definition store32 :: "mem \<Rightarrow> addr \<Rightarrow> nat \<Rightarrow> mem" where
  "store32 m a n = m(a := word_of_nat n, a + 1 := word_of_nat (n div 2 ^ 8),
     a + 2 := word_of_nat (n div 2 ^ 16), a + 3 := word_of_nat (n div 2 ^ 24))"

lemma store32_other: "a < p \<or> p + 4 \<le> a \<Longrightarrow> store32 m p n a = m a"
  by (auto simp: store32_def)

lemma load32_cong: "(\<And>i. i < 4 \<Longrightarrow> m (a + i) = m' (a + i)) \<Longrightarrow> load32 m a = load32 m' a"
proof -
  assume *: "\<And>i. i < 4 \<Longrightarrow> m (a + i) = m' (a + i)"
  show ?thesis
    using * [of 0] * [of 1] * [of 2] * [of 3] by (simp add: load32_def)
qed

lemma load32_store32_other: "a + 4 \<le> p \<or> p + 4 \<le> a \<Longrightarrow> load32 (store32 m p n) a = load32 m a"
  by (rule load32_cong) (rule store32_other, auto)

lemma load32_store32 [simp]:
  assumes "n < 2 ^ 32"
  shows "load32 (store32 m a n) a = n"
proof -
  have b: "unat (word_of_nat k :: u8) = k mod 2 ^ 8" for k
    by (simp add: unat_of_nat)
  have "n div 16777216 < 256"
    using assms by (simp add: less_mult_imp_div_less)
  then have d: "n div 16777216 mod 256 = n div 16777216" by simp
  have "n div 65536 mod 256 + 256 * (n div 16777216) = n div 65536"
    using mod_mult_div_eq [of "n div 65536" 256] by (simp add: div_mult2_eq [symmetric])
  moreover have "n div 256 mod 256 + 256 * (n div 65536) = n div 256"
    using mod_mult_div_eq [of "n div 256" 256] by (simp add: div_mult2_eq [symmetric])
  moreover have "n mod 256 + 256 * (n div 256) = n"
    by (rule mod_mult_div_eq)
  moreover have "load32 (store32 m a n) a =
      n mod 256 + 256 * (n div 256 mod 256) + 65536 * (n div 65536 mod 256) + 16777216 * (n div 16777216)"
    by (simp add: load32_def store32_def b d)
  ultimately show ?thesis
    by linarith
qed

lemma load32_less: "load32 m a < 2 ^ 32"
proof -
  have "unat (m (a + i)) < 256" for i
    using unsigned_less [of "m (a + i)", where 'a = nat] by simp
  from this [of 0] this [of 1] this [of 2] this [of 3] show ?thesis
    by (simp add: load32_def)
qed

section \<open>Pools\<close>

record pool =
  pool_lock :: bool
  used_map :: bitmap
  pool_base :: addr

record palloc =
  kernel_pool :: pool
  user_pool :: pool
  memory :: mem

definition PAL_ASSERT :: nat where
  "PAL_ASSERT = 1"

definition PAL_ZERO :: nat where
  "PAL_ZERO = 2"

definition PAL_USER :: nat where
  "PAL_USER = 4"

definition DIV_ROUND_UP :: "nat \<Rightarrow> nat \<Rightarrow> nat" where
  "DIV_ROUND_UP x step = size_t (x + step - 1) div step"

text \<open>The bitmap's elements start out as the words that memory holds behind its 8-byte header.\<close>

definition init_pool :: "mem \<Rightarrow> addr \<Rightarrow> nat \<Rightarrow> pool option" where
  "init_pool m base page_cnt = do {
     let bm_pages = DIV_ROUND_UP (bitmap_buf_size page_cnt) PGSIZE;
     ASSERT (\<not> bm_pages > page_cnt);
     let page_cnt = page_cnt - bm_pages;
     b \<leftarrow> bitmap_create_in_buf page_cnt
       (map (\<lambda>i. word_of_nat (load32 m (base + 8 + 4 * i))) [0..<elem_cnt page_cnt]) (bm_pages * PGSIZE);
     Some \<lparr>pool_lock = False, used_map = b, pool_base = size_t (base + bm_pages * PGSIZE)\<rparr>
   }"

definition palloc_init :: "nat \<Rightarrow> mem \<Rightarrow> nat \<Rightarrow> palloc option" where
  "palloc_init init_ram_pages m user_page_limit = do {
     free_start \<leftarrow> ptov (1024 * 1024);
     free_end \<leftarrow> ptov (size_t (init_ram_pages * PGSIZE));
     let free_pages = nat (to_u32 (to_s32 (int free_end - int free_start) sdiv int PGSIZE));
     let user_pages = free_pages div 2;
     let user_pages = (if user_pages > user_page_limit then user_page_limit else user_pages);
     let kernel_pages = free_pages - user_pages;
     kp \<leftarrow> init_pool m free_start kernel_pages;
     up \<leftarrow> init_pool m (size_t (free_start + kernel_pages * PGSIZE)) user_pages;
     Some \<lparr>kernel_pool = kp, user_pool = up, memory = m\<rparr>
   }"

definition page_from_pool :: "pool \<Rightarrow> addr \<Rightarrow> bool" where
  "page_from_pool pool page =
     (let page_no = pg_no page;
          start_page = pg_no (pool_base pool);
          end_page = size_t (start_page + bitmap_size (used_map pool))
      in page_no \<ge> start_page \<and> page_no < end_page)"

text \<open>The pool a pointer variable \<open>pool\<close> of the code points to: the user pool when the flag is set.\<close>

definition get_pool :: "bool \<Rightarrow> palloc \<Rightarrow> pool" where
  "get_pool user s = (if user then user_pool s else kernel_pool s)"

definition set_pool :: "bool \<Rightarrow> pool \<Rightarrow> palloc \<Rightarrow> palloc" where
  "set_pool user p s = (if user then s\<lparr>user_pool := p\<rparr> else s\<lparr>kernel_pool := p\<rparr>)"

definition palloc_get_multiple :: "nat \<Rightarrow> nat \<Rightarrow> palloc \<Rightarrow> (addr \<times> palloc) option" where
  "palloc_get_multiple flags page_cnt s = do {
     let user = (flags AND PAL_USER \<noteq> 0);
     let pool = get_pool user s;
     if page_cnt = 0 then Some (NULL, s)
     else do {
       ASSERT (\<not> pool_lock pool);
       let pool = pool\<lparr>pool_lock := True\<rparr>;
       (page_idx, b) \<leftarrow> bitmap_scan_and_flip (used_map pool) 0 page_cnt False;
       let pool = pool\<lparr>used_map := b, pool_lock := False\<rparr>;
       let s = set_pool user pool s;
       let pages = (if page_idx \<noteq> BITMAP_ERROR then size_t (pool_base pool + PGSIZE * page_idx) else NULL);
       if pages \<noteq> NULL then
         if flags AND PAL_ZERO \<noteq> 0 then do {
           (_, m) \<leftarrow> memset (memory s) pages 0 (size_t (PGSIZE * page_cnt));
           Some (pages, s\<lparr>memory := m\<rparr>)
         }
         else Some (pages, s)
       else do {
         ASSERT (flags AND PAL_ASSERT = 0);
         Some (pages, s)
       }
     }
   }"

definition palloc_get_page :: "nat \<Rightarrow> palloc \<Rightarrow> (addr \<times> palloc) option" where
  "palloc_get_page flags s = palloc_get_multiple flags 1 s"

definition palloc_free_multiple :: "addr \<Rightarrow> nat \<Rightarrow> palloc \<Rightarrow> palloc option" where
  "palloc_free_multiple pages page_cnt s = do {
     ASSERT (pg_ofs pages = 0);
     if pages = NULL \<or> page_cnt = 0 then Some s
     else do {
       user \<leftarrow> (if page_from_pool (kernel_pool s) pages then Some False
                else if page_from_pool (user_pool s) pages then Some True
                else None);
       let pool = get_pool user s;
       let page_idx = pg_no pages - pg_no (pool_base pool);
       (_, m) \<leftarrow> memset (memory s) pages 0xcc (size_t (PGSIZE * page_cnt));
       let s = s\<lparr>memory := m\<rparr>;
       a \<leftarrow> bitmap_all (used_map pool) page_idx page_cnt;
       ASSERT a;
       b \<leftarrow> bitmap_set_multiple (used_map pool) page_idx page_cnt False;
       Some (set_pool user (pool\<lparr>used_map := b\<rparr>) s)
     }
   }"

definition palloc_free_page :: "addr \<Rightarrow> palloc \<Rightarrow> palloc option" where
  "palloc_free_page page s = palloc_free_multiple page 1 s"

section \<open>What the pools hold\<close>

definition pool_ok :: "pool \<Rightarrow> bool" where
  "pool_ok p \<longleftrightarrow> \<not> pool_lock p \<and> wf_bitmap (used_map p) \<and> pool_base p mod 4096 = 0 \<and>
     PHYS_BASE \<le> pool_base p \<and> pool_base p + 4096 * bit_cnt (used_map p) < 2 ^ 32"

definition palloc_inv :: "palloc \<Rightarrow> bool" where
  "palloc_inv s \<longleftrightarrow> pool_ok (kernel_pool s) \<and> pool_ok (user_pool s) \<and>
     pool_base (kernel_pool s) + 4096 * bit_cnt (used_map (kernel_pool s)) \<le> pool_base (user_pool s)"

definition pool_pages :: "pool \<Rightarrow> nat set" where
  "pool_pages p = slot_range (pg_no (pool_base p)) (bit_cnt (used_map p))"

definition pool_free :: "pool \<Rightarrow> nat set" where
  "pool_free p = {n. pg_no (pool_base p) \<le> n \<and> n - pg_no (pool_base p) \<in> free_bits (used_map p)}"

definition all_pages :: "palloc \<Rightarrow> nat set" where
  "all_pages s = pool_pages (kernel_pool s) \<union> pool_pages (user_pool s)"

definition free_pages :: "palloc \<Rightarrow> nat set" where
  "free_pages s = pool_free (kernel_pool s) \<union> pool_free (user_pool s)"

lemma get_set_pool [simp]:
  "get_pool u (set_pool u p s) = p" "get_pool (\<not> u) (set_pool u p s) = get_pool (\<not> u) s"
  "set_pool u (get_pool u s) s = s" "memory (set_pool u p s) = memory s"
  "get_pool u (s\<lparr>memory := m\<rparr>) = get_pool u s"
  by (simp_all add: get_pool_def set_pool_def)

lemma palloc_inv_pool: "palloc_inv s \<Longrightarrow> pool_ok (get_pool u s)"
  by (simp add: palloc_inv_def get_pool_def)

lemma palloc_inv_memory [simp]: "palloc_inv (s\<lparr>memory := m\<rparr>) = palloc_inv s"
  by (simp add: palloc_inv_def)

lemma pages_memory [simp]: "all_pages (s\<lparr>memory := m\<rparr>) = all_pages s" "free_pages (s\<lparr>memory := m\<rparr>) = free_pages s"
  by (simp_all add: all_pages_def free_pages_def)

lemma pool_free_subset: "pool_free p \<subseteq> pool_pages p"
  by (auto simp: pool_free_def pool_pages_def free_bits_def)

text \<open>A group of pages is the interval of its page numbers; its bits are those of the same interval in the bitmap.\<close>

lemma group_in_free:
  assumes "0 < cnt"
  shows "slot_range (pg_no (pool_base p) + i) cnt \<subseteq> pool_free p \<longleftrightarrow> slot_range i cnt \<subseteq> free_bits (used_map p)"
proof
  assume *: "slot_range (pg_no (pool_base p) + i) cnt \<subseteq> pool_free p"
  show "slot_range i cnt \<subseteq> free_bits (used_map p)"
  proof
    fix k assume "k \<in> slot_range i cnt"
    then have "pg_no (pool_base p) + k \<in> slot_range (pg_no (pool_base p) + i) cnt" by auto
    then have "pg_no (pool_base p) + k \<in> pool_free p" using * by blast
    then show "k \<in> free_bits (used_map p)" by (simp add: pool_free_def)
  qed
next
  assume *: "slot_range i cnt \<subseteq> free_bits (used_map p)"
  show "slot_range (pg_no (pool_base p) + i) cnt \<subseteq> pool_free p"
  proof
    fix n assume n: "n \<in> slot_range (pg_no (pool_base p) + i) cnt"
    then have "n - pg_no (pool_base p) \<in> slot_range i cnt" by auto
    then show "n \<in> pool_free p" using * n by (auto simp: pool_free_def)
  qed
qed

lemma pool_free_update:
  assumes "free_bits b = (if v then free_bits (used_map p) - slot_range i cnt else free_bits (used_map p) \<union> slot_range i cnt)"
  shows "pool_free (p\<lparr>used_map := b\<rparr>) =
    (if v then pool_free p - slot_range (pg_no (pool_base p) + i) cnt
     else pool_free p \<union> slot_range (pg_no (pool_base p) + i) cnt)"
  using assms by (auto simp: pool_free_def)

lemma base_pg_no: "pool_ok p \<Longrightarrow> pool_base p = 4096 * pg_no (pool_base p)"
  by (auto simp: pool_ok_def pg_no_div)

lemma pools_disjoint: "palloc_inv s \<Longrightarrow> pool_pages (get_pool u s) \<inter> pool_pages (get_pool (\<not> u) s) = {}"
  using base_pg_no [of "kernel_pool s"] base_pg_no [of "user_pool s"]
  by (cases u) (auto simp: palloc_inv_def pool_pages_def get_pool_def)

lemma pools_of:
  "all_pages s = pool_pages (get_pool u s) \<union> pool_pages (get_pool (\<not> u) s)"
  "free_pages s = pool_free (get_pool u s) \<union> pool_free (get_pool (\<not> u) s)"
  by (auto simp: all_pages_def free_pages_def get_pool_def)

text \<open>Replacing the bitmap of one pool by one of the same size.\<close>

lemma set_used_map:
  assumes "palloc_inv s" and "wf_bitmap b" and "bit_cnt b = bit_cnt (used_map (get_pool u s))"
  defines "s' \<equiv> set_pool u ((get_pool u s)\<lparr>used_map := b\<rparr>) s"
  shows "palloc_inv s'" and "all_pages s' = all_pages s"
    and "\<And>c. pool_pages (get_pool c s') = pool_pages (get_pool c s)"
    and "free_pages s' = pool_free ((get_pool u s)\<lparr>used_map := b\<rparr>) \<union> pool_free (get_pool (\<not> u) s)"
  using assms(1-3) unfolding s'_def
  by (auto simp: palloc_inv_def pool_ok_def set_pool_def get_pool_def all_pages_def free_pages_def pool_pages_def)

section \<open>Allocation and release\<close>

definition zero_range :: "addr \<Rightarrow> nat \<Rightarrow> mem \<Rightarrow> mem" where
  "zero_range p n m = (\<lambda>a. if p \<le> a \<and> a < p + n then 0 else m a)"

lemma palloc_get_cases:
  fixes u :: bool
  assumes inv: "palloc_inv s" and cnt: "0 < cnt" and user: "(flags AND PAL_USER \<noteq> 0) = u"
  defines "p \<equiv> get_pool u s"
  assumes al: "bitmap_alloc cnt (used_map p) = Some (r, b)"
  shows "palloc_get_multiple flags cnt s =
    (case r of
       None \<Rightarrow> if flags AND PAL_ASSERT = 0 then Some (NULL, s) else None
     | Some i \<Rightarrow> Some (4096 * (pg_no (pool_base p) + i),
         (set_pool u (p\<lparr>used_map := b\<rparr>) s)
           \<lparr>memory := if flags AND PAL_ZERO \<noteq> 0
             then zero_range (4096 * (pg_no (pool_base p) + i)) (4096 * cnt) (memory s) else memory s\<rparr>))"
proof -
  have p: "pool_ok p"
    using inv unfolding p_def by (rule palloc_inv_pool)
  then have wf: "wf_bitmap (used_map p)" and lock: "\<not> pool_lock p"
    by (simp_all add: pool_ok_def)
  have unlock: "p\<lparr>used_map := b', pool_lock := False\<rparr> = p\<lparr>used_map := b'\<rparr>" for b'
    using lock by (cases p) simp
  obtain idx where sf: "bitmap_scan_and_flip (used_map p) 0 cnt False = Some (idx, b)"
      and r: "r = (if idx = BITMAP_ERROR then None else Some idx)"
    using al by (auto simp: bitmap_alloc_def split: bind_splits)
  show ?thesis
  proof (cases r)
    case None
    then have idx: "idx = BITMAP_ERROR" using r by (simp split: if_splits)
    then have "b = used_map p"
      using bitmap_scan_and_flip_correct [OF wf, of 0 cnt False] sf by simp
    moreover have "set_pool u (p\<lparr>used_map := used_map p\<rparr>) s = s"
      by (simp add: p_def)
    ultimately show ?thesis
      using None idx sf lock cnt user
      by (simp add: palloc_get_multiple_def Let_def p_def [symmetric] unlock ASSERT_def)
  next
    case (Some i)
    then have idx: "idx = i" "idx \<noteq> BITMAP_ERROR" using r by (simp_all split: if_splits)
    have "slot_range i cnt \<subseteq> {..<bit_cnt (used_map p)}"
      using bm.alloc_Some [OF wf cnt] al Some by blast
    moreover have "i + cnt - 1 \<in> slot_range i cnt"
      using cnt by simp
    ultimately have "i + cnt - 1 < bit_cnt (used_map p)"
      by blast
    then have bnd: "pool_base p + 4096 * i + 4096 * cnt < 2 ^ 32" "pool_base p \<noteq> 0"
      using p by (auto simp: pool_ok_def PHYS_BASE_def)
    have base: "4096 * pg_no (pool_base p) = pool_base p"
      using base_pg_no [OF p] by simp
    have "memset_loop m a 0 n = zero_range a n m" for m a n
      by (rule ext) (simp add: memset_loop_correct zero_range_def)
    then show ?thesis
      using Some idx sf lock cnt bnd user
      by (simp add: palloc_get_multiple_def Let_def p_def [symmetric] unlock memset_def base)
  qed
qed

text \<open>The page allocator as an allocator of page numbers: the region of a request is its pool.\<close>

definition page_flags :: "bool \<times> bool \<Rightarrow> nat" where
  "page_flags c = (if fst c then PAL_USER else 0) OR (if snd c then PAL_ZERO else 0)"

definition alloc_pages :: "bool \<times> bool \<Rightarrow> nat \<Rightarrow> palloc \<Rightarrow> (nat option \<times> palloc) option" where
  "alloc_pages c cnt s = do {
     (p, s) \<leftarrow> palloc_get_multiple (page_flags c) cnt s;
     Some (if p = NULL then None else Some (pg_no p), s)
   }"

definition release_pages :: "nat \<Rightarrow> nat \<Rightarrow> palloc \<Rightarrow> palloc option" where
  "release_pages n cnt s = palloc_free_multiple (4096 * n) cnt s"

lemma page_flags_simps [simp]:
  "page_flags c AND PAL_USER \<noteq> 0 \<longleftrightarrow> fst c" "page_flags c AND PAL_ZERO \<noteq> 0 \<longleftrightarrow> snd c"
  "page_flags c AND PAL_ASSERT = 0"
  by (simp_all add: page_flags_def PAL_USER_def PAL_ZERO_def PAL_ASSERT_def)

lemma alloc_pages_cases:
  fixes c :: "bool \<times> bool"
  assumes inv: "palloc_inv s" and cnt: "0 < cnt"
  defines "p \<equiv> get_pool (fst c) s"
  shows "(alloc_pages c cnt s = Some (None, s) \<and> \<not> (\<exists>n. slot_range n cnt \<subseteq> pool_free p)) \<or>
    (\<exists>i b m. alloc_pages c cnt s =
        Some (Some (pg_no (pool_base p) + i), (set_pool (fst c) (p\<lparr>used_map := b\<rparr>) s)\<lparr>memory := m\<rparr>) \<and>
      wf_bitmap b \<and> bit_cnt b = bit_cnt (used_map p) \<and> slot_range i cnt \<subseteq> free_bits (used_map p) \<and>
      free_bits b = free_bits (used_map p) - slot_range i cnt)"
proof -
  have p: "pool_ok p"
    using inv unfolding p_def by (rule palloc_inv_pool)
  then have wf: "wf_bitmap (used_map p)" and nz: "pg_no (pool_base p) \<noteq> 0"
    using base_pg_no [OF p] by (auto simp: pool_ok_def PHYS_BASE_def)
  obtain r b where al: "bitmap_alloc cnt (used_map p) = Some (r, b)"
    using bm.alloc_total [OF wf cnt] by blast
  note get = palloc_get_cases [OF inv cnt page_flags_simps(1) [of c], folded p_def, OF al]
  show ?thesis
  proof (cases r)
    case None
    have no: "\<not> (\<exists>i. slot_range i cnt \<subseteq> free_bits (used_map p))"
      using bm.alloc_None [OF wf cnt] al None by (auto simp: free_bits_def)
    have "\<not> slot_range n cnt \<subseteq> pool_free p" for n
    proof
      assume *: "slot_range n cnt \<subseteq> pool_free p"
      moreover have "n \<in> slot_range n cnt" using cnt by simp
      ultimately have "n \<in> pool_free p" by blast
      then have "pg_no (pool_base p) + (n - pg_no (pool_base p)) = n" by (simp add: pool_free_def)
      then have "slot_range (pg_no (pool_base p) + (n - pg_no (pool_base p))) cnt \<subseteq> pool_free p"
        using * by simp
      then show False
        using group_in_free [OF cnt] no by blast
    qed
    then show ?thesis
      using get None by (simp add: alloc_pages_def)
  next
    case (Some i)
    have "wf_bitmap b" "bit_cnt b = bit_cnt (used_map p)"
      using bm.alloc_inv [OF wf cnt] al by auto
    moreover have "slot_range i cnt \<subseteq> free_bits (used_map p)" "free_bits b = free_bits (used_map p) - slot_range i cnt"
      using bm.alloc_Some [OF wf cnt] al Some by blast+
    ultimately show ?thesis
      using get Some nz by (auto simp: alloc_pages_def pg_no_div)
  qed
qed

lemma page_from_pool_iff:
  assumes "pool_ok p"
  shows "page_from_pool p (4096 * n) \<longleftrightarrow> n \<in> pool_pages p"
proof -
  have "pg_no (pool_base p) + bit_cnt (used_map p) < 2 ^ 32"
    using assms base_pg_no [OF assms] by (auto simp: pool_ok_def)
  then show ?thesis
    by (auto simp: page_from_pool_def pool_pages_def bitmap_size_def pg_no_div Let_def)
qed

lemma release_pages_cases:
  fixes u :: bool
  assumes inv: "palloc_inv s" and cnt: "0 < cnt"
  defines "p \<equiv> get_pool u s"
  assumes grp: "slot_range n cnt \<subseteq> pool_pages p - pool_free p"
  shows "\<exists>b m. release_pages n cnt s = Some ((set_pool u (p\<lparr>used_map := b\<rparr>) s)\<lparr>memory := m\<rparr>) \<and>
    wf_bitmap b \<and> bit_cnt b = bit_cnt (used_map p) \<and>
    free_bits b = free_bits (used_map p) \<union> slot_range (n - pg_no (pool_base p)) cnt \<and>
    m = (\<lambda>a. if 4096 * n \<le> a \<and> a < 4096 * (n + cnt) then 0xcc else memory s a)"
proof -
  let ?B = "pg_no (pool_base p)" and ?i = "n - pg_no (pool_base p)"
  have p: "pool_ok p"
    using inv unfolding p_def by (rule palloc_inv_pool)
  have "n \<in> slot_range n cnt" "n + cnt - 1 \<in> slot_range n cnt"
    using cnt by auto
  then have n: "n \<in> pool_pages p" "n + cnt - 1 \<in> pool_pages p"
    using grp by blast+
  have wf: "wf_bitmap (used_map p)" and nz: "?B \<noteq> 0" and B: "?B \<le> n"
    using p n base_pg_no [OF p] by (auto simp: pool_ok_def PHYS_BASE_def pool_pages_def)
  have le: "?i + cnt \<le> bit_cnt (used_map p)"
    using n(2) B cnt by (auto simp: pool_pages_def)
  have bnd: "4096 * (n + cnt) < 2 ^ 32"
    using le B p base_pg_no [OF p] by (auto simp: pool_ok_def)
  have pool: "(if page_from_pool (kernel_pool s) (4096 * n) then Some False
      else if page_from_pool (user_pool s) (4096 * n) then Some True else None) = Some u"
    using inv n(1) pools_disjoint [OF inv, of True]
    by (cases u) (auto simp: palloc_inv_def page_from_pool_iff p_def get_pool_def)
  have used: "slot_range ?i cnt \<subseteq> {..<bit_cnt (used_map p)} - free_bits (used_map p)"
  proof
    fix k assume "k \<in> slot_range ?i cnt"
    then have "?B + k \<in> slot_range n cnt" using B by auto
    then have "?B + k \<in> pool_pages p - pool_free p" using grp by blast
    then show "k \<in> {..<bit_cnt (used_map p)} - free_bits (used_map p)"
      by (auto simp: pool_pages_def pool_free_def)
  qed
  then have "\<forall>k<cnt. bits_of (used_map p) ! (?i + k)"
    using le by (auto simp: free_bits_def subset_iff)
  then have all: "bitmap_all (used_map p) ?i cnt = Some True"
    using bitmap_contains_correct [OF wf le, of False] le
    by (auto simp: bitmap_all_def in_set_conv_nth)
  obtain b where b: "bitmap_set_multiple (used_map p) ?i cnt False = Some b" "wf_bitmap b"
      "{..<bit_cnt b} = {..<bit_cnt (used_map p)}" "free_bits b = free_bits (used_map p) \<union> slot_range ?i cnt"
    using bm.release [OF wf cnt] used by blast
  have "pg_ofs (4096 * n) = 0" "pg_no (4096 * n) = n"
    by (simp_all add: pg_ofs_mod pg_no_div)
  moreover have "memset_loop m (4096 * n) v (4096 * cnt) =
      (\<lambda>a. if 4096 * n \<le> a \<and> a < 4096 * (n + cnt) then v else m a)" for m v
    by (rule ext) (simp add: memset_loop_correct)
  ultimately have "release_pages n cnt s = Some ((set_pool u (p\<lparr>used_map := b\<rparr>) s)
      \<lparr>memory := (\<lambda>a. if 4096 * n \<le> a \<and> a < 4096 * (n + cnt) then 0xcc else memory s a)\<rparr>)"
    using pool all b(1) cnt nz B bnd
    by (simp add: release_pages_def palloc_free_multiple_def memset_def p_def [symmetric] set_pool_def)
  then show ?thesis
    using b by auto
qed

interpretation pages: slot_allocator palloc_inv all_pages free_pages "\<lambda>c s. pool_pages (get_pool (fst c) s)"
  alloc_pages release_pages
proof
  fix s :: palloc
  assume inv: "palloc_inv s"
  show "free_pages s \<subseteq> all_pages s"
    using pool_free_subset by (auto simp: free_pages_def all_pages_def)
  fix cnt :: nat
  assume cnt: "0 < cnt"
  fix c :: "bool \<times> bool"
  let ?p = "get_pool (fst c) s"
  note cases = alloc_pages_cases [OF inv cnt, of c]
  show "\<exists>r s'. alloc_pages c cnt s = Some (r, s')"
    using cases by blast
  fix r s'
  show "palloc_inv s' \<and> all_pages s' = all_pages s \<and>
      (\<forall>c'. pool_pages (get_pool (fst c') s') = pool_pages (get_pool (fst c') s))"
    if al: "alloc_pages c cnt s = Some (r, s')"
    using cases
  proof
    assume "alloc_pages c cnt s = Some (None, s) \<and> \<not> (\<exists>n. slot_range n cnt \<subseteq> pool_free ?p)"
    then show ?thesis using al inv by simp
  next
    assume "\<exists>i b m. alloc_pages c cnt s =
        Some (Some (pg_no (pool_base ?p) + i), (set_pool (fst c) (?p\<lparr>used_map := b\<rparr>) s)\<lparr>memory := m\<rparr>) \<and>
      wf_bitmap b \<and> bit_cnt b = bit_cnt (used_map ?p) \<and> slot_range i cnt \<subseteq> free_bits (used_map ?p) \<and>
      free_bits b = free_bits (used_map ?p) - slot_range i cnt"
    then obtain b m where "wf_bitmap b" "bit_cnt b = bit_cnt (used_map ?p)"
        "s' = (set_pool (fst c) (?p\<lparr>used_map := b\<rparr>) s)\<lparr>memory := m\<rparr>"
      using al by auto
    then show ?thesis using set_used_map(1-3) [OF inv] by simp
  qed
  fix i
  have free: "pool_free ?p \<subseteq> free_pages s" "pool_free ?p \<subseteq> pool_pages ?p"
    using pools_of(2) [of s "fst c"] pool_free_subset by auto
  show "slot_range i cnt \<subseteq> free_pages s \<inter> pool_pages ?p \<and> free_pages s' = free_pages s - slot_range i cnt"
    if al: "alloc_pages c cnt s = Some (Some i, s')"
  proof -
    obtain k b m where k: "i = pg_no (pool_base ?p) + k" "s' = (set_pool (fst c) (?p\<lparr>used_map := b\<rparr>) s)\<lparr>memory := m\<rparr>"
      and b: "wf_bitmap b" "bit_cnt b = bit_cnt (used_map ?p)" "slot_range k cnt \<subseteq> free_bits (used_map ?p)"
        "free_bits b = free_bits (used_map ?p) - slot_range k cnt"
      using cases al by auto
    have grp: "slot_range i cnt \<subseteq> pool_free ?p"
      using group_in_free [OF cnt] b(3) k(1) by simp
    have "free_pages s' = (pool_free ?p - slot_range i cnt) \<union> pool_free (get_pool (\<not> fst c) s)"
      using set_used_map(4) [OF inv b(1,2)] pool_free_update [of b True ?p k cnt] b(4) k by simp
    moreover have "slot_range i cnt \<inter> pool_free (get_pool (\<not> fst c) s) = {}"
      using grp pools_disjoint [OF inv, of "fst c"] pool_free_subset by blast
    ultimately show ?thesis
      using grp free pools_of(2) [of s "fst c"] by blast
  qed
  show "free_pages s' = free_pages s \<and> \<not> (\<exists>i. slot_range i cnt \<subseteq> free_pages s \<inter> pool_pages ?p)"
    if "alloc_pages c cnt s = Some (None, s')"
  proof -
    have "s' = s" "\<not> (\<exists>n. slot_range n cnt \<subseteq> pool_free ?p)"
      using cases that by auto
    moreover have "free_pages s \<inter> pool_pages ?p \<subseteq> pool_free ?p"
      using pools_disjoint [OF inv, of "fst c"] pool_free_subset pools_of(2) [of s "fst c"] by blast
    ultimately show ?thesis by blast
  qed
  show "\<exists>s'. release_pages i cnt s = Some s' \<and> palloc_inv s' \<and> all_pages s' = all_pages s \<and>
      (\<forall>c'. pool_pages (get_pool (fst c') s') = pool_pages (get_pool (fst c') s)) \<and>
      free_pages s' = free_pages s \<union> slot_range i cnt"
    if grp: "slot_range i cnt \<subseteq> (all_pages s - free_pages s) \<inter> pool_pages ?p"
  proof -
    have "slot_range i cnt \<subseteq> pool_pages ?p - pool_free ?p"
      using grp free by blast
    then obtain b m where b: "release_pages i cnt s = Some ((set_pool (fst c) (?p\<lparr>used_map := b\<rparr>) s)\<lparr>memory := m\<rparr>)"
        "wf_bitmap b" "bit_cnt b = bit_cnt (used_map ?p)"
        "free_bits b = free_bits (used_map ?p) \<union> slot_range (i - pg_no (pool_base ?p)) cnt"
      using release_pages_cases [OF inv cnt] by blast
    have "i \<in> slot_range i cnt" using cnt by simp
    then have "i \<in> pool_pages ?p" using grp by blast
    then have "pg_no (pool_base ?p) + (i - pg_no (pool_base ?p)) = i"
      by (simp add: pool_pages_def)
    then have "pool_free (?p\<lparr>used_map := b\<rparr>) = pool_free ?p \<union> slot_range i cnt"
      using pool_free_update [of b False ?p "i - pg_no (pool_base ?p)" cnt] b(4) by simp
    then show ?thesis
      using set_used_map [OF inv b(2,3)] b(1) pools_of(2) [of s "fst c"] by auto
  qed
qed

section \<open>The pools at boot\<close>

lemma bitmap_buf_pages:
  assumes "n \<le> 2 ^ 20"
  defines "d \<equiv> DIV_ROUND_UP (bitmap_buf_size n) PGSIZE"
  shows "bitmap_buf_size n = 8 + 4 * ((n + 31) div 32)" and "bitmap_buf_size n \<le> d * 4096"
proof -
  have e: "elem_cnt n = (n + 31) div 32"
    using assms(1) by (simp add: elem_cnt_def ELEM_BITS_def size_t_id)
  have "(n + 31) div 32 \<le> (2 ^ 20 + 31) div 32"
    using assms(1) by (intro div_le_mono) simp
  then have le: "4 * ((n + 31) div 32) \<le> 2 ^ 18" by simp
  then show b: "bitmap_buf_size n = 8 + 4 * ((n + 31) div 32)"
    by (simp add: bitmap_buf_size_def byte_cnt_def e size_t_id)
  have "d = (bitmap_buf_size n + 4095) div 4096"
    using b le by (simp add: d_def DIV_ROUND_UP_def size_t_id)
  then show "bitmap_buf_size n \<le> d * 4096"
    by linarith
qed

lemma all_free: "free_bits (used_map p) = {..<bit_cnt (used_map p)} \<Longrightarrow> pool_free p = pool_pages p"
proof (rule set_eqI)
  fix k
  assume "free_bits (used_map p) = {..<bit_cnt (used_map p)}"
  then show "k \<in> pool_free p \<longleftrightarrow> k \<in> pool_pages p"
    unfolding pool_free_def pool_pages_def mem_Collect_eq atLeastLessThan_iff by (simp only: lessThan_iff) arith
qed

lemma init_pool_ok:
  assumes "n \<le> 2 ^ 20" and "0 < n" and "base mod 4096 = 0" and "PHYS_BASE \<le> base" and "base + 4096 * n < 2 ^ 32"
  shows "\<exists>p. init_pool m base n = Some p \<and> pool_ok p \<and> base \<le> pool_base p \<and>
    pool_base p + 4096 * bit_cnt (used_map p) = base + 4096 * n \<and> pool_free p = pool_pages p"
proof -
  define d where "d = DIV_ROUND_UP (bitmap_buf_size n) PGSIZE"
  note buf = bitmap_buf_pages [OF assms(1), folded d_def]
  have d: "d = (bitmap_buf_size n + 4095) div 4096"
    using buf(1) assms(1) by (simp add: d_def DIV_ROUND_UP_def size_t_id)
  have dn: "d \<le> n"
    using assms(2) d buf(1) by linarith
  define b where "b = \<lparr>bit_cnt = n - d, bits = map (\<lambda>i. word_of_nat (load32 m (base + 8 + 4 * i)) :: u32) [0..<elem_cnt (n - d)]\<rparr>"
  have wf: "wf_bitmap b"
    using assms(1) by (simp add: wf_bitmap_def b_def ELEM_BITS_def)
  obtain b' where b': "bitmap_set_all b False = Some b'" "wf_bitmap b'" "bit_cnt b' = n - d"
      "bits_of b' = replicate (n - d) False"
    using bitmap_set_all_correct [OF wf, of False] by (auto simp: b_def)
  have "bitmap_buf_size (n - d) \<le> bitmap_buf_size n"
    using buf(1) bitmap_buf_pages(1) [of "n - d"] assms(1) by (simp add: div_le_mono)
  then have ip: "init_pool m base n = Some \<lparr>pool_lock = False, used_map = b', pool_base = base + d * 4096\<rparr>"
    using dn buf(2) b'(1) assms(5) unfolding init_pool_def d_def [symmetric]
    by (simp add: bitmap_create_in_buf_def b_def size_t_id)
  have n: "4096 * n = d * 4096 + 4096 * (n - d)"
    using dn by simp
  have "free_bits b' = {..<n - d}"
    unfolding free_bits_def b'(3,4) by auto
  then have "pool_free \<lparr>pool_lock = False, used_map = b', pool_base = base + d * 4096\<rparr> =
      pool_pages \<lparr>pool_lock = False, used_map = b', pool_base = base + d * 4096\<rparr>"
    by (intro all_free) (simp add: b'(3))
  moreover have "pool_ok \<lparr>pool_lock = False, used_map = b', pool_base = base + d * 4096\<rparr>"
    using assms(3-5) n b'(2,3) by (simp add: pool_ok_def mod_mult_self1)
  ultimately show ?thesis
    using ip n b'(3) by simp
qed

text \<open>With more than 1 MB and less than 1 GB of memory the allocator starts with every page free.\<close>

lemma palloc_init_ok:
  assumes "257 < ram" and "ram < 2 ^ 18" and "0 < limit"
  shows "\<exists>s. palloc_init ram m limit = Some s \<and> palloc_inv s \<and> free_pages s = all_pages s \<and> memory s = m \<and>
    all_pages s \<subseteq> {PHYS_BASE div 4096 + 256..<PHYS_BASE div 4096 + ram}"
proof -
  define f where "f = ram - 256"
  define u where "u = (if f div 2 > limit then limit else f div 2)"
  have fu: "0 < u" "u \<le> f div 2" "2 \<le> f" "f \<le> 2 ^ 18" "ram = f + 256"
    using assms by (auto simp: f_def u_def)
  then have "u < f" by linarith
  have "to_s32 (int (PHYS_BASE + 4096 * ram) - int (PHYS_BASE + 2 ^ 20)) = int (4096 * f)"
    using fu assms(2) by (subst to_s32_id) (auto simp: PHYS_BASE_def)
  then have pages: "nat (to_u32 (to_s32 (int (PHYS_BASE + 4096 * ram) - int (PHYS_BASE + 2 ^ 20)) sdiv 4096)) = f"
    using fu by (simp add: signed_divide_int_def sgn_if)
  let ?fs = "PHYS_BASE + 2 ^ 20"
  have k: "f - u \<le> 2 ^ 20" "0 < f - u" "?fs mod 4096 = 0" "PHYS_BASE \<le> ?fs" "?fs + 4096 * (f - u) < 2 ^ 32"
    using fu \<open>u < f\<close> assms(2) by (simp_all add: PHYS_BASE_def)
  obtain kp where kp: "init_pool m ?fs (f - u) = Some kp" "pool_ok kp" "?fs \<le> pool_base kp"
      "pool_base kp + 4096 * bit_cnt (used_map kp) = ?fs + 4096 * (f - u)" "pool_free kp = pool_pages kp"
    using init_pool_ok [OF k] by blast
  have al: "(?fs + 4096 * (f - u)) mod 4096 = 0"
    using k(3) by (metis mod_add_self2 mod_mult_self2)
  have u: "u \<le> 2 ^ 20" "PHYS_BASE \<le> ?fs + 4096 * (f - u)" "?fs + 4096 * (f - u) + 4096 * u < 2 ^ 32"
    using fu \<open>u < f\<close> assms(2) by (simp_all add: PHYS_BASE_def)
  obtain up where up: "init_pool m (?fs + 4096 * (f - u)) u = Some up" "pool_ok up"
      "?fs + 4096 * (f - u) \<le> pool_base up"
      "pool_base up + 4096 * bit_cnt (used_map up) = ?fs + 4096 * (f - u) + 4096 * u" "pool_free up = pool_pages up"
    using init_pool_ok [OF u(1) fu(1) al u(2,3)] by blast
  let ?s = "\<lparr>kernel_pool = kp, user_pool = up, memory = m\<rparr>"
  have "ptov (1024 * 1024) = Some ?fs" "ptov (size_t (ram * PGSIZE)) = Some (PHYS_BASE + 4096 * ram)"
    "size_t (?fs + (f - u) * PGSIZE) = ?fs + 4096 * (f - u)"
    using assms(2) k(5) by (simp_all add: ptov_def PHYS_BASE_def mult.commute)
  moreover have "nat (to_u32 (to_s32 (int (PHYS_BASE + 4096 * ram) - int ?fs) sdiv int PGSIZE)) = f"
    using pages by simp
  ultimately have "palloc_init ram m limit = Some ?s"
    using kp(1) up(1) unfolding palloc_init_def Let_def
    by (simp only: bind.bind_lunit u_def [symmetric])
  moreover have "palloc_inv ?s" "free_pages ?s = all_pages ?s"
    using kp up by (simp_all add: palloc_inv_def free_pages_def all_pages_def)
  moreover have "all_pages ?s \<subseteq> {PHYS_BASE div 4096 + 256..<PHYS_BASE div 4096 + ram}"
  proof -
    define h where "h = f - u"
    have "ram = h + u + 256" "?fs = 4096 * 786688"
      using fu(5) \<open>u < f\<close> by (simp_all add: h_def PHYS_BASE_def)
    then have "786432 + 256 \<le> pg_no (pool_base kp)" "786432 + 256 \<le> pg_no (pool_base up)"
      "pg_no (pool_base kp) + bit_cnt (used_map kp) \<le> 786432 + ram"
      "pg_no (pool_base up) + bit_cnt (used_map up) \<le> 786432 + ram"
      using kp(3,4) up(3,4) base_pg_no [OF kp(2)] base_pg_no [OF up(2)] unfolding h_def [symmetric] by linarith+
    then show ?thesis
      by (auto simp: all_pages_def pool_pages_def PHYS_BASE_def)
  qed
  ultimately show ?thesis by simp
qed

section \<open>Properties\<close>

lemma palloc_get_ok:
  assumes inv: "palloc_inv s" and cnt: "0 < cnt" and no_assert: "flags AND PAL_ASSERT = 0"
  shows "\<exists>p s'. palloc_get_multiple flags cnt s = Some (p, s') \<and> palloc_inv s' \<and> all_pages s' = all_pages s \<and>
    (if p = NULL then s' = s \<and> \<not> (\<exists>n. slot_range n cnt \<subseteq> pool_free (get_pool (flags AND PAL_USER \<noteq> 0) s))
     else p mod 4096 = 0 \<and> slot_range (p div 4096) cnt \<subseteq> pool_free (get_pool (flags AND PAL_USER \<noteq> 0) s) \<and>
       free_pages s' = free_pages s - slot_range (p div 4096) cnt \<and>
       (\<forall>a. memory s' a = (if flags AND PAL_ZERO \<noteq> 0 \<and> p \<le> a \<and> a < p + 4096 * cnt then 0 else memory s a)))"
proof -
  define c where "c = (flags AND PAL_USER \<noteq> 0, flags AND PAL_ZERO \<noteq> 0)"
  define q where "q = get_pool (fst c) s"
  have q: "pool_ok q"
    using inv unfolding q_def by (rule palloc_inv_pool)
  then have wf: "wf_bitmap (used_map q)"
    by (simp add: pool_ok_def)
  have u: "(flags AND PAL_USER \<noteq> 0) = fst c"
    by (simp add: c_def)
  obtain r b where al: "bitmap_alloc cnt (used_map q) = Some (r, b)"
    using bm.alloc_total [OF wf cnt] by blast
  have z: "(page_flags c AND PAL_ZERO \<noteq> 0) = (flags AND PAL_ZERO \<noteq> 0)"
    by (simp only: page_flags_simps c_def snd_conv)
  have get: "palloc_get_multiple flags cnt s = palloc_get_multiple (page_flags c) cnt s"
    using palloc_get_cases [OF inv cnt u, folded q_def, OF al]
      palloc_get_cases [OF inv cnt page_flags_simps(1) [of c], folded q_def, OF al]
    by (simp only: z no_assert page_flags_simps(3))
  obtain r s' where a: "alloc_pages c cnt s = Some (r, s')"
    using pages.alloc_total [OF inv cnt] by blast
  obtain p where p: "palloc_get_multiple flags cnt s = Some (p, s')" "r = (if p = NULL then None else Some (pg_no p))"
    using a get by (auto simp: alloc_pages_def split: bind_splits)
  have mem: "memory s' a = (if flags AND PAL_ZERO \<noteq> 0 \<and> p \<le> a \<and> a < p + 4096 * cnt then 0 else memory s a)"
    and align: "p mod 4096 = 0" if "p \<noteq> NULL" for a
    using palloc_get_cases [OF inv cnt u, folded q_def, OF al] p(1) that
    by (auto simp: zero_range_def split: option.splits if_splits)
  show ?thesis
  proof (cases "p = NULL")
    case True
    then show ?thesis
      using alloc_pages_cases [OF inv cnt, of c] a p inv unfolding u by auto
  next
    case False
    then have r: "alloc_pages c cnt s = Some (Some (p div 4096), s')"
      using a p(2) by (simp add: pg_no_div)
    have free: "slot_range (p div 4096) cnt \<subseteq> free_pages s \<inter> pool_pages q \<and> free_pages s' = free_pages s - slot_range (p div 4096) cnt"
      using pages.alloc_Some [OF inv cnt r] by (simp add: q_def)
    moreover have "free_pages s \<inter> pool_pages q \<subseteq> pool_free q"
      using pools_disjoint [OF inv, of "fst c"] pool_free_subset pools_of(2) [of s "fst c"] unfolding q_def by blast
    ultimately have "slot_range (p div 4096) cnt \<subseteq> pool_free (get_pool (flags AND PAL_USER \<noteq> 0) s)"
      unfolding u q_def by blast
    then show ?thesis
      using p(1) pages.alloc_inv [OF inv cnt r] free mem [OF False] align [OF False] False by simp
  qed
qed

text \<open>
  C29: \<open>palloc_get_multiple\<close> never panics without \<open>PAL_ASSERT\<close>.  It returns a null pointer, changing
  nothing, only when the pool has no run of free pages of that length; otherwise it returns the
  page-aligned address of a run of pages of the right pool that were free, takes exactly them, clears
  them when \<open>PAL_ZERO\<close> is given, and touches no other byte of memory.
\<close>

theorem palloc_get_correct:
  assumes inv: "palloc_inv s" and cnt: "0 < cnt" and no_assert: "flags AND PAL_ASSERT = 0"
  shows "\<exists>p s'. palloc_get_multiple flags cnt s = Some (p, s') \<and> palloc_inv s' \<and>
    (if p = NULL then s' = s \<and> \<not> (\<exists>n. slot_range n cnt \<subseteq> pool_free (get_pool (flags AND PAL_USER \<noteq> 0) s))
     else p mod 4096 = 0 \<and> slot_range (p div 4096) cnt \<subseteq> pool_free (get_pool (flags AND PAL_USER \<noteq> 0) s) \<and>
       free_pages s' = free_pages s - slot_range (p div 4096) cnt \<and>
       (\<forall>a. memory s' a = (if flags AND PAL_ZERO \<noteq> 0 \<and> p \<le> a \<and> a < p + 4096 * cnt then 0 else memory s a)))"
  using palloc_get_ok [OF assms] by blast

theorem palloc_get_correct_witness:
  "\<exists>s p s'. palloc_init 1024 (\<lambda>_. 7) 100 = Some s \<and> palloc_get_multiple PAL_ZERO 2 s = Some (p, s') \<and>
     (p \<noteq> NULL \<longrightarrow> memory s' p = 0 \<and> memory s' (p + 8192) = 7)"
proof -
  obtain s where s: "palloc_init 1024 (\<lambda>_. 7) 100 = Some s" "palloc_inv s" "memory s = (\<lambda>_. 7)"
    using palloc_init_ok [of 1024 100 "\<lambda>_. 7"] by auto
  have "(0 :: nat) < 2" "PAL_ZERO AND PAL_ASSERT = 0"
    by (simp_all add: PAL_ZERO_def PAL_ASSERT_def)
  from palloc_get_correct [OF s(2) this] s(1,3) show ?thesis
    by (fastforce simp: PAL_ZERO_def split: if_splits)
qed

text \<open>
  C28: for every amount of memory between 1 MB and 1 GB and every sequence of requests and releases on
  the two pools, the allocator never panics, the groups of pages that are live never overlap, they lie
  in the memory behind the first megabyte, and a page is in use exactly when it is in a live group.
\<close>

theorem palloc_groups_disjoint:
  assumes "257 < ram" and "ram < 2 ^ 18" and "0 < limit"
  shows "\<exists>s. palloc_init ram m limit = Some s \<and>
    (\<forall>ops. \<exists>s' live. slot_run alloc_pages release_pages ops (s, []) = Some (s', live) \<and>
       groups_disjoint live \<and>
       all_pages s - free_pages s' = (\<Union>g\<in>set live. case_prod slot_range g) \<and>
       all_pages s \<subseteq> {PHYS_BASE div 4096 + 256..<PHYS_BASE div 4096 + ram})"
proof -
  obtain s where s: "palloc_init ram m limit = Some s" "palloc_inv s" "free_pages s = all_pages s"
      "all_pages s \<subseteq> {PHYS_BASE div 4096 + 256..<PHYS_BASE div 4096 + ram}"
    using palloc_init_ok [OF assms] by blast
  have "pages.accounted (s, [])"
    using s by (simp add: pages.accounted_def pages.owned_def groups_disjoint_def)
  then have run: "\<exists>s' live. slot_run alloc_pages release_pages ops (s, []) = Some (s', live) \<and>
      pages.accounted (s', live) \<and> all_pages s' = all_pages s" for ops
    using pages.run_accounted [of "(s, [])" ops] by auto
  show ?thesis
  proof (rule exI [of _ s], intro conjI allI)
    show "palloc_init ram m limit = Some s" by (rule s)
    fix ops
    obtain s' live where r: "slot_run alloc_pages release_pages ops (s, []) = Some (s', live)"
        and acc: "pages.accounted (s', live)" "all_pages s' = all_pages s"
      using run by blast
    have "groups_disjoint live" "pages.owned live \<inter> free_pages s' = {}" "pages.owned live \<union> free_pages s' = all_pages s"
      using acc by (simp_all add: pages.accounted_def)
    then show "\<exists>s' live. slot_run alloc_pages release_pages ops (s, []) = Some (s', live) \<and>
       groups_disjoint live \<and> all_pages s - free_pages s' = (\<Union>g\<in>set live. case_prod slot_range g) \<and>
       all_pages s \<subseteq> {PHYS_BASE div 4096 + 256..<PHYS_BASE div 4096 + ram}"
      using r s(4) unfolding pages.owned_def by blast
  qed
qed

theorem palloc_groups_disjoint_witness:
  "\<exists>s s' live. palloc_init 1024 (\<lambda>_. 0) 100 = Some s \<and>
     slot_run alloc_pages release_pages [Alloc (False, True) 3, Alloc (True, False) 2, Alloc (False, False) 1] (s, []) =
       Some (s', live) \<and> groups_disjoint live"
proof -
  obtain s where s: "palloc_init 1024 (\<lambda>_. 0) 100 = Some s"
    and run: "\<forall>ops. \<exists>s' live. slot_run alloc_pages release_pages ops (s, []) = Some (s', live) \<and> groups_disjoint live"
    using palloc_groups_disjoint [of 1024 100 "\<lambda>_. 0"] by simp meson
  show ?thesis
    using s run by blast
qed

end
