(* ===== verification/Malloc.thy ===== *)
theory Malloc
  imports Palloc
begin

text \<open>
  The block allocator of \<open>src/src/threads/malloc.c\<close>, on top of the page allocator.  Arena headers are
  three words in memory; the pointer to descriptor \<open>i\<close> is stored as the number \<open>i + 1\<close>, so that a null
  pointer is 0.  The free list of a descriptor is the list of the addresses of its blocks, and
  \<open>desc_lock\<close> is the state of its lock, for which there is no contention.
\<close>

section \<open>Descriptors and arenas\<close>

record desc =
  block_size :: nat
  blocks_per_arena :: nat
  free_list :: "addr list"
  desc_lock :: bool

record kmalloc =
  pal :: palloc
  descs :: "desc list"

definition ARENA_MAGIC :: nat where
  "ARENA_MAGIC = 0x9a548eed"

text \<open>\<open>sizeof (struct arena)\<close>, and the fields of the arena at an address.\<close>

definition sizeof_arena :: nat where
  "sizeof_arena = 12"

definition arena_magic :: "addr \<Rightarrow> kmalloc \<Rightarrow> nat" where
  "arena_magic a s = load32 (memory (pal s)) a"

definition arena_desc :: "addr \<Rightarrow> kmalloc \<Rightarrow> nat" where
  "arena_desc a s = load32 (memory (pal s)) (a + 4)"

definition arena_free_cnt :: "addr \<Rightarrow> kmalloc \<Rightarrow> nat" where
  "arena_free_cnt a s = load32 (memory (pal s)) (a + 8)"

definition poke :: "addr \<Rightarrow> nat \<Rightarrow> kmalloc \<Rightarrow> kmalloc" where
  "poke a v s = s\<lparr>pal := (pal s)\<lparr>memory := store32 (memory (pal s)) a v\<rparr>\<rparr>"

definition upd_desc :: "nat \<Rightarrow> (desc \<Rightarrow> desc) \<Rightarrow> kmalloc \<Rightarrow> kmalloc" where
  "upd_desc i f s = s\<lparr>descs := (descs s)[i := f (descs s ! i)]\<rparr>"

partial_function (option) malloc_init_loop :: "nat \<Rightarrow> kmalloc \<Rightarrow> kmalloc option" where
  "malloc_init_loop bs s =
     (if bs < PGSIZE div 2 then do {
        ASSERT (length (descs s) + 1 \<le> 10);
        let d = \<lparr>block_size = bs, blocks_per_arena = (PGSIZE - sizeof_arena) div bs, free_list = [], desc_lock = False\<rparr>;
        malloc_init_loop (size_t (bs * 2)) (s\<lparr>descs := descs s @ [d]\<rparr>)
      }
      else Some s)"

definition malloc_init :: "palloc \<Rightarrow> kmalloc option" where
  "malloc_init p = malloc_init_loop 16 \<lparr>pal = p, descs = []\<rparr>"

text \<open>\<open>a->desc\<close>, which must point to a descriptor.\<close>

definition desc_at :: "addr \<Rightarrow> kmalloc \<Rightarrow> desc option" where
  "desc_at a s = do {
     let d = arena_desc a s;
     ASSERT (d \<noteq> NULL \<and> d \<le> length (descs s));
     Some (descs s ! (d - 1))
   }"

definition block_to_arena :: "addr \<Rightarrow> kmalloc \<Rightarrow> addr option" where
  "block_to_arena b s = do {
     let a = pg_round_down b;
     ASSERT (a \<noteq> NULL);
     ASSERT (arena_magic a s = ARENA_MAGIC);
     ok \<leftarrow> (if arena_desc a s = NULL then Some True
            else do {
              d \<leftarrow> desc_at a s;
              ASSERT (block_size d \<noteq> 0);
              Some (size_t (pg_ofs b + 2 ^ 32 - sizeof_arena) mod block_size d = 0)
            });
     ASSERT ok;
     ASSERT (arena_desc a s \<noteq> NULL \<or> pg_ofs b = sizeof_arena);
     Some a
   }"

definition arena_to_block :: "addr \<Rightarrow> nat \<Rightarrow> kmalloc \<Rightarrow> addr option" where
  "arena_to_block a idx s = do {
     ASSERT (a \<noteq> NULL);
     ASSERT (arena_magic a s = ARENA_MAGIC);
     d \<leftarrow> desc_at a s;
     ASSERT (idx < blocks_per_arena d);
     Some (size_t (a + sizeof_arena + idx * block_size d))
   }"

section \<open>Allocation\<close>

text \<open>The search for the smallest descriptor that satisfies a request.\<close>

primrec find_desc :: "desc list \<Rightarrow> nat \<Rightarrow> nat" where
  "find_desc [] sz = 0"
| "find_desc (d # ds) sz = (if block_size d \<ge> sz then 0 else Suc (find_desc ds sz))"

text \<open>The loop that puts the blocks of a new arena on the free list; the last argument counts the rounds.\<close>

primrec add_blocks :: "nat \<Rightarrow> addr \<Rightarrow> nat \<Rightarrow> nat \<Rightarrow> kmalloc \<Rightarrow> kmalloc option" where
  "add_blocks d a i 0 s = Some s"
| "add_blocks d a i (Suc n) s = do {
     b \<leftarrow> arena_to_block a i s;
     add_blocks d a (i + 1) n (upd_desc d (free_list_update (\<lambda>bs. bs @ [b])) s)
   }"

text \<open>A request that is too big for any descriptor gets pages of its own.\<close>

definition malloc_big :: "nat \<Rightarrow> kmalloc \<Rightarrow> (addr \<times> kmalloc) option" where
  "malloc_big sz s = do {
     let page_cnt = DIV_ROUND_UP (size_t (sz + sizeof_arena)) PGSIZE;
     (a, p) \<leftarrow> palloc_get_multiple 0 page_cnt (pal s);
     let s = s\<lparr>pal := p\<rparr>;
     if a = NULL then Some (NULL, s)
     else do {
       let s = poke a ARENA_MAGIC s;
       let s = poke (a + 4) NULL s;
       let s = poke (a + 8) page_cnt s;
       Some (a + sizeof_arena, s)
     }
   }"

text \<open>If the free list is empty, a new arena is made; the result says whether there was a page for it.\<close>

definition malloc_arena :: "nat \<Rightarrow> kmalloc \<Rightarrow> (bool \<times> kmalloc) option" where
  "malloc_arena d s =
     (if free_list (descs s ! d) = [] then do {
        (a, p) \<leftarrow> palloc_get_page 0 (pal s);
        let s = s\<lparr>pal := p\<rparr>;
        if a = NULL then Some (False, s)
        else do {
          let s = poke a ARENA_MAGIC s;
          let s = poke (a + 4) (d + 1) s;
          let s = poke (a + 8) (blocks_per_arena (descs s ! d)) s;
          s \<leftarrow> add_blocks d a 0 (blocks_per_arena (descs s ! d)) s;
          Some (True, s)
        }
      }
      else Some (True, s))"

text \<open>The first block of the free list is taken.\<close>

definition malloc_pop :: "nat \<Rightarrow> kmalloc \<Rightarrow> (addr \<times> kmalloc) option" where
  "malloc_pop d s = do {
     ASSERT (free_list (descs s ! d) \<noteq> []);
     let b = hd (free_list (descs s ! d));
     let s = upd_desc d (free_list_update tl) s;
     a \<leftarrow> block_to_arena b s;
     let s = poke (a + 8) (size_t (arena_free_cnt a s + (2 ^ 32 - 1))) s;
     Some (b, s)
   }"

definition malloc :: "nat \<Rightarrow> kmalloc \<Rightarrow> (addr \<times> kmalloc) option" where
  "malloc sz s =
     (if sz = 0 then Some (NULL, s)
      else let d = find_desc (descs s) sz in
      if d = length (descs s) then malloc_big sz s
      else do {
        ASSERT (\<not> desc_lock (descs s ! d));
        let s = upd_desc d (desc_lock_update (\<lambda>_. True)) s;
        (ok, s) \<leftarrow> malloc_arena d s;
        (b, s) \<leftarrow> (if ok then malloc_pop d s else Some (NULL, s));
        Some (b, upd_desc d (desc_lock_update (\<lambda>_. False)) s)
      })"

definition calloc :: "nat \<Rightarrow> nat \<Rightarrow> kmalloc \<Rightarrow> (addr \<times> kmalloc) option" where
  "calloc a b s =
     (let sz = size_t (a * b) in
      if sz < a \<or> sz < b then Some (NULL, s)
      else do {
        (p, s) \<leftarrow> malloc sz s;
        if p \<noteq> NULL then do {
          (_, m) \<leftarrow> memset (memory (pal s)) p 0 sz;
          Some (p, s\<lparr>pal := (pal s)\<lparr>memory := m\<rparr>\<rparr>)
        }
        else Some (p, s)
      })"

section \<open>Release\<close>

text \<open>The loop that takes the blocks of an unused arena off the free list.\<close>

primrec remove_blocks :: "nat \<Rightarrow> addr \<Rightarrow> nat \<Rightarrow> nat \<Rightarrow> kmalloc \<Rightarrow> kmalloc option" where
  "remove_blocks d a i 0 s = Some s"
| "remove_blocks d a i (Suc n) s = do {
     b \<leftarrow> arena_to_block a i s;
     ASSERT (b \<in> set (free_list (descs s ! d)));
     remove_blocks d a (i + 1) n (upd_desc d (free_list_update (removeAll b)) s)
   }"

text \<open>If an arena is entirely unused, its page is freed.\<close>

definition free_arena :: "nat \<Rightarrow> addr \<Rightarrow> kmalloc \<Rightarrow> kmalloc option" where
  "free_arena d a s =
     (if arena_free_cnt a s \<ge> blocks_per_arena (descs s ! d) then do {
        ASSERT (arena_free_cnt a s = blocks_per_arena (descs s ! d));
        s \<leftarrow> remove_blocks d a 0 (blocks_per_arena (descs s ! d)) s;
        q \<leftarrow> palloc_free_page a (pal s);
        Some (s\<lparr>pal := q\<rparr>)
      }
      else Some s)"

definition free :: "addr \<Rightarrow> kmalloc \<Rightarrow> kmalloc option" where
  "free p s =
     (if p \<noteq> NULL then do {
        a \<leftarrow> block_to_arena p s;
        let d = arena_desc a s;
        if d \<noteq> NULL then do {
          let d = d - 1;
          (_, m) \<leftarrow> memset (memory (pal s)) p 0xcc (block_size (descs s ! d));
          let s = s\<lparr>pal := (pal s)\<lparr>memory := m\<rparr>\<rparr>;
          ASSERT (\<not> desc_lock (descs s ! d));
          let s = upd_desc d (desc_lock_update (\<lambda>_. True)) s;
          let s = upd_desc d (free_list_update (\<lambda>bs. p # bs)) s;
          let s = poke (a + 8) (size_t (arena_free_cnt a s + 1)) s;
          s \<leftarrow> free_arena d a s;
          Some (upd_desc d (desc_lock_update (\<lambda>_. False)) s)
        }
        else do {
          q \<leftarrow> palloc_free_multiple a (arena_free_cnt a s) (pal s);
          Some (s\<lparr>pal := q\<rparr>)
        }
      }
      else Some s)"

definition block_size_of :: "addr \<Rightarrow> kmalloc \<Rightarrow> nat option" where
  "block_size_of b s = do {
     a \<leftarrow> block_to_arena b s;
     if arena_desc a s \<noteq> NULL then do {
       d \<leftarrow> desc_at a s;
       Some (block_size d)
     }
     else Some (size_t (PGSIZE * arena_free_cnt a s + 2 ^ 32 - pg_ofs b))
   }"

definition realloc :: "addr \<Rightarrow> nat \<Rightarrow> kmalloc \<Rightarrow> (addr \<times> kmalloc) option" where
  "realloc old_block new_size s =
     (if new_size = 0 then do {
        s \<leftarrow> free old_block s;
        Some (NULL, s)
      }
      else do {
        (new_block, s) \<leftarrow> malloc new_size s;
        if old_block \<noteq> NULL \<and> new_block \<noteq> NULL then do {
          old_size \<leftarrow> block_size_of old_block s;
          let min_size = (if new_size < old_size then new_size else old_size);
          (_, m) \<leftarrow> memcpy (memory (pal s)) new_block old_block min_size;
          s \<leftarrow> free old_block (s\<lparr>pal := (pal s)\<lparr>memory := m\<rparr>\<rparr>);
          Some (new_block, s)
        }
        else Some (new_block, s)
      })"

end
