(* ===== verification/Malloc_Heap.thy ===== *)
theory Malloc_Heap
  imports Malloc
begin

text \<open>
  The shape of a well-formed heap of \<open>Malloc\<close>: where the blocks of an arena lie, the invariant that
  ties arena headers, free lists and pages together, the blocks clients hold, and what the elementary
  steps of the allocator (a new arena, taking and putting back a block, giving up an arena) do to it.
\<close>

section \<open>Layout of arenas\<close>

definition bsize :: "nat \<Rightarrow> nat" where
  "bsize i = 16 * 2 ^ i"

definition bcount :: "nat \<Rightarrow> nat" where
  "bcount i = 4084 div bsize i"

text \<open>Block \<open>k\<close> of the arena in page \<open>n\<close> that belongs to descriptor \<open>i\<close>.\<close>

definition blk :: "nat \<Rightarrow> nat \<Rightarrow> nat \<Rightarrow> addr" where
  "blk n i k = 4096 * n + (12 + k * bsize i)"

lemma bsize_pos [simp]: "0 < bsize i"
  by (simp add: bsize_def)

lemma bcount_le: "bcount i \<le> 4084"
  unfolding bcount_def by (rule div_le_dividend)

lemma bcount_pos: "i < 7 \<Longrightarrow> 0 < bcount i"
proof -
  assume "i < 7"
  then have "(2 :: nat) ^ i \<le> 2 ^ 6" by (intro power_increasing) auto
  then have "bsize i \<le> 4084" by (simp add: bsize_def)
  then show ?thesis by (simp add: bcount_def div_greater_zero_iff)
qed

lemma block_fits:
  assumes "k < bcount i"
  shows "12 + k * bsize i + bsize i \<le> 4096"
proof -
  have "Suc k * bsize i \<le> bcount i * bsize i"
    using assms by (intro mult_right_mono) auto
  also have "\<dots> \<le> 4084"
    by (simp add: bcount_def)
  finally show ?thesis by simp
qed

lemma page_split: "j < 4096 \<Longrightarrow> (4096 * n + j) div 4096 = n" "j < 4096 \<Longrightarrow> (4096 * n + j) mod 4096 = (j :: nat)"
  by simp_all

lemma blk_page:
  assumes "k < bcount i"
  shows "blk n i k div 4096 = n" and "blk n i k mod 4096 = 12 + k * bsize i"
proof -
  have "12 + k * bsize i < 4096"
    using block_fits [OF assms] bsize_pos [of i] by linarith
  then show "blk n i k div 4096 = n" "blk n i k mod 4096 = 12 + k * bsize i"
    unfolding blk_def by (rule page_split)+
qed

lemma blk_inject:
  assumes "k < bcount i" and "k' < bcount i" and "blk n i k = blk n' i k'"
  shows "n = n' \<and> k = k'"
proof -
  have "n = n'" "12 + k * bsize i = 12 + k' * bsize i"
    using blk_page [OF assms(1), of n] blk_page [OF assms(2), of n'] assms(3) by auto
  then show ?thesis
    using bsize_pos [of i] by simp
qed

lemma blk_disjoint:
  assumes "k \<noteq> k'"
  shows "{blk n i k..<blk n i k + bsize i} \<inter> {blk n i k'..<blk n i k' + bsize i} = {}"
proof -
  have "k * bsize i + bsize i \<le> k' * bsize i \<or> k' * bsize i + bsize i \<le> k * bsize i"
  proof (cases "k < k'")
    case True
    then have "Suc k * bsize i \<le> k' * bsize i" by (intro mult_right_mono) auto
    then show ?thesis by simp
  next
    case False
    then have "Suc k' * bsize i \<le> k * bsize i" using assms by (intro mult_right_mono) auto
    then show ?thesis by simp
  qed
  then show ?thesis
    by (auto simp: blk_def)
qed

definition header :: "mem \<Rightarrow> nat \<Rightarrow> nat \<times> nat \<times> nat" where
  "header m n = (load32 m (4096 * n), load32 m (4096 * n + 4), load32 m (4096 * n + 8))"

lemma header_cong:
  assumes "\<And>a. 4096 * n \<le> a \<Longrightarrow> a < 4096 * n + 12 \<Longrightarrow> m a = m' a"
  shows "header m n = header m' n"
proof -
  have "load32 m (4096 * n + j) = load32 m' (4096 * n + j)" if "j \<le> 8" for j
    using that by (intro load32_cong assms) auto
  from this [of 0] this [of 4] this [of 8] show ?thesis
    by (simp add: header_def)
qed

lemma header_stores:
  "v < 2 ^ 32 \<Longrightarrow> header (store32 m (4096 * n + 8) v) n = (fst (header m n), fst (snd (header m n)), v)"
  "x < 2 ^ 32 \<Longrightarrow> y < 2 ^ 32 \<Longrightarrow> z < 2 ^ 32 \<Longrightarrow>
   header (store32 (store32 (store32 m (4096 * n) x) (4096 * n + 4) y) (4096 * n + 8) z) n = (x, y, z)"
  by (simp_all add: header_def load32_store32_other)

section \<open>The invariant\<close>

text \<open>
  \<open>A\<close> is the set of arenas, each given by its page and its descriptor, and \<open>B\<close> the set of big blocks,
  each given by its first page and its number of pages.  \<open>F i\<close> is the free list of descriptor \<open>i\<close>.
\<close>

definition used_pages :: "palloc \<Rightarrow> nat set" where
  "used_pages p = pool_pages (kernel_pool p) - pool_free (kernel_pool p)"

definition free_blocks :: "(nat \<Rightarrow> addr list) \<Rightarrow> nat \<Rightarrow> nat \<Rightarrow> nat set" where
  "free_blocks F n i = {k. k < bcount i \<and> blk n i k \<in> set (F i)}"

definition arenas_ok :: "mem \<Rightarrow> nat set \<Rightarrow> (nat \<Rightarrow> addr list) \<Rightarrow> (nat \<times> nat) set \<Rightarrow> bool" where
  "arenas_ok m U F A \<longleftrightarrow> (\<forall>(n, i)\<in>A. i < 7 \<and> n \<in> U \<and> header m n = (ARENA_MAGIC, i + 1, card (free_blocks F n i)))"

definition bigs_ok :: "mem \<Rightarrow> nat set \<Rightarrow> (nat \<times> nat) set \<Rightarrow> bool" where
  "bigs_ok m U B \<longleftrightarrow> (\<forall>(n, c)\<in>B. 0 < c \<and> slot_range n c \<subseteq> U \<and> header m n = (ARENA_MAGIC, 0, c))"

definition apart :: "(nat \<times> nat) set \<Rightarrow> (nat \<times> nat) set \<Rightarrow> bool" where
  "apart A B \<longleftrightarrow> (\<forall>(n, i)\<in>A. \<forall>(m, c)\<in>B. n \<notin> slot_range m c) \<and>
     (\<forall>(n, c)\<in>B. \<forall>(m, d)\<in>B. (n, c) = (m, d) \<or> slot_range n c \<inter> slot_range m d = {})"

definition lists_ok :: "(nat \<Rightarrow> addr list) \<Rightarrow> (nat \<times> nat) set \<Rightarrow> bool" where
  "lists_ok F A \<longleftrightarrow> (\<forall>i<7. distinct (F i) \<and> set (F i) \<subseteq> {blk n i k |n k. (n, i) \<in> A \<and> k < bcount i})"

definition heap_ok :: "palloc \<Rightarrow> (nat \<Rightarrow> addr list) \<Rightarrow> (nat \<times> nat) set \<Rightarrow> (nat \<times> nat) set \<Rightarrow> bool" where
  "heap_ok p F A B \<longleftrightarrow> palloc_inv p \<and> arenas_ok (memory p) (used_pages p) F A \<and>
     bigs_ok (memory p) (used_pages p) B \<and> apart A B \<and> lists_ok F A"

text \<open>The blocks clients hold, with the number of bytes they may use.\<close>

definition held :: "(nat \<Rightarrow> addr list) \<Rightarrow> (nat \<times> nat) set \<Rightarrow> (nat \<times> nat) set \<Rightarrow> (addr \<times> nat) set" where
  "held F A B = {(blk n i k, bsize i) |n i k. (n, i) \<in> A \<and> k < bcount i \<and> blk n i k \<notin> set (F i)} \<union>
     {(4096 * n + 12, 4096 * c - 12) |n c. (n, c) \<in> B}"

lemma held_iff:
  "(b, l) \<in> held F A B \<longleftrightarrow>
     (\<exists>n i k. (n, i) \<in> A \<and> k < bcount i \<and> b = blk n i k \<and> l = bsize i \<and> b \<notin> set (F i)) \<or>
     (\<exists>n c. (n, c) \<in> B \<and> b = 4096 * n + 12 \<and> l = 4096 * c - 12)"
  by (auto simp: held_def)

abbreviation block_bytes :: "addr \<times> nat \<Rightarrow> addr set" where
  "block_bytes b \<equiv> {fst b..<fst b + snd b}"

lemma used_pages_pos: "palloc_inv p \<Longrightarrow> n \<in> used_pages p \<Longrightarrow> 0 < n \<and> n < 2 ^ 20"
proof -
  assume inv: "palloc_inv p" and n: "n \<in> used_pages p"
  have k: "pool_ok (kernel_pool p)"
    using inv by (simp add: palloc_inv_def)
  have "pg_no (pool_base (kernel_pool p)) \<le> n" "n < pg_no (pool_base (kernel_pool p)) + bit_cnt (used_map (kernel_pool p))"
    using n by (auto simp: used_pages_def pool_pages_def)
  moreover have "3221225472 \<le> pool_base (kernel_pool p)"
    "pool_base (kernel_pool p) + 4096 * bit_cnt (used_map (kernel_pool p)) < 4096 * 1048576"
    using k by (simp_all add: pool_ok_def PHYS_BASE_def)
  ultimately have "0 < n" "n < 1048576"
    using base_pg_no [OF k] by linarith+
  then show ?thesis by simp
qed

text \<open>The page a held byte lies in belongs to the block's arena, and it is not in the header.\<close>

lemma held_page:
  assumes "(b, l) \<in> held F A B" and "a \<in> block_bytes (b, l)"
  obtains (small) n i k where "(n, i) \<in> A" "k < bcount i" "b = blk n i k" "l = bsize i" "blk n i k \<notin> set (F i)"
      "a div 4096 = n" "12 \<le> a mod 4096"
  | (big) n c where "(n, c) \<in> B" "b = 4096 * n + 12" "l = 4096 * c - 12" "a div 4096 \<in> slot_range n c"
      "4096 * n + 12 \<le> a"
proof -
  consider "(b, l) \<in> {(blk n i k, bsize i) |n i k. (n, i) \<in> A \<and> k < bcount i \<and> blk n i k \<notin> set (F i)}"
    | "(b, l) \<in> {(4096 * n + 12, 4096 * c - 12) |n c. (n, c) \<in> B}"
    using assms(1) unfolding held_def by blast
  then show thesis
  proof cases
    case 1
    then obtain n i k where k: "(n, i) \<in> A" "k < bcount i" "b = blk n i k" "l = bsize i" "blk n i k \<notin> set (F i)"
      by blast
    define j where "j = a - 4096 * n"
    have "12 \<le> j \<and> j < 4096 \<and> a = 4096 * n + j"
      using assms(2) k(3,4) block_fits [OF k(2)] by (auto simp: blk_def j_def)
    then have "a div 4096 = n" "12 \<le> a mod 4096"
      using page_split [of j n] by simp_all
    then show thesis using small k by blast
  next
    case 2
    then obtain n c where c: "(n, c) \<in> B" "b = 4096 * n + 12" "l = 4096 * c - 12" by blast
    have "4096 * n + 12 \<le> a" "a < 4096 * (n + c)"
      using assms(2) c(2,3) by auto
    moreover from this have "a div 4096 \<in> slot_range n c" by (auto simp: less_mult_imp_div_less mult.commute)
    ultimately show thesis using big c by blast
  qed
qed

text \<open>Distinct held blocks do not overlap.\<close>

lemma arenas_okD:
  "arenas_ok m U F A \<Longrightarrow> (n, i) \<in> A \<Longrightarrow> i < 7 \<and> n \<in> U \<and> header m n = (ARENA_MAGIC, i + 1, card (free_blocks F n i))"
  unfolding arenas_ok_def by (drule (1) bspec) simp

lemma bigs_okD:
  "bigs_ok m U B \<Longrightarrow> (n, c) \<in> B \<Longrightarrow> 0 < c \<and> slot_range n c \<subseteq> U \<and> header m n = (ARENA_MAGIC, 0, c)"
  unfolding bigs_ok_def by (drule (1) bspec) simp

lemma arena_unique: "arenas_ok m U F A \<Longrightarrow> (n, i) \<in> A \<Longrightarrow> (n, j) \<in> A \<Longrightarrow> i = j"
  using arenas_okD [of m U F A n i] arenas_okD [of m U F A n j] by simp

lemma apartD:
  assumes "apart A B"
  shows "(n, i) \<in> A \<Longrightarrow> (m, c) \<in> B \<Longrightarrow> n \<notin> slot_range m c"
    and "(n, c) \<in> B \<Longrightarrow> (m, d) \<in> B \<Longrightarrow> x \<in> slot_range n c \<Longrightarrow> x \<in> slot_range m d \<Longrightarrow> n = m \<and> c = d"
  using assms unfolding apart_def by blast+

lemma lists_okD:
  "lists_ok F A \<Longrightarrow> i < 7 \<Longrightarrow> distinct (F i) \<and> set (F i) \<subseteq> {blk n i k |n k. (n, i) \<in> A \<and> k < bcount i}"
  unfolding lists_ok_def by blast

lemma apartI:
  assumes "\<And>n i m c. (n, i) \<in> A \<Longrightarrow> (m, c) \<in> B \<Longrightarrow> n \<notin> slot_range m c"
    and "\<And>n c m d. (n, c) \<in> B \<Longrightarrow> (m, d) \<in> B \<Longrightarrow> (n, c) \<noteq> (m, d) \<Longrightarrow> slot_range n c \<inter> slot_range m d = {}"
  shows "apart A B"
  unfolding apart_def
proof (intro conjI ballI)
  fix x assume x: "x \<in> A"
  show "case x of (n, i) \<Rightarrow> \<forall>(m, c)\<in>B. n \<notin> slot_range m c"
    using assms(1) x by (cases x) blast
next
  fix x assume x: "x \<in> B"
  show "case x of (n, c) \<Rightarrow> \<forall>(m, d)\<in>B. (n, c) = (m, d) \<or> slot_range n c \<inter> slot_range m d = {}"
    using assms(2) x by (cases x) blast
qed

lemma held_disjoint:
  assumes ok: "heap_ok p F A B" and b: "(b, l) \<in> held F A B" "(b', l') \<in> held F A B" "b \<noteq> b'"
  shows "block_bytes (b, l) \<inter> block_bytes (b', l') = {}"
proof (rule ccontr)
  assume "block_bytes (b, l) \<inter> block_bytes (b', l') \<noteq> {}"
  then obtain a where a: "a \<in> block_bytes (b, l)" "a \<in> block_bytes (b', l')" by blast
  have ap: "apart A B" and ar: "arenas_ok (memory p) (used_pages p) F A"
    using ok by (simp_all add: heap_ok_def)
  show False
  proof (rule held_page [OF b(1) a(1)])
    fix n i k assume k: "(n, i) \<in> A" "k < bcount i" "b = blk n i k" "l = bsize i" "a div 4096 = n"
    show False
    proof (rule held_page [OF b(2) a(2)])
      fix n' j k' assume k': "(n', j) \<in> A" "k' < bcount j" "b' = blk n' j k'" "l' = bsize j" "a div 4096 = n'"
      then have "n' = n" "j = i"
        using k arena_unique [OF ar, of n i j] by simp_all
      then show False
        using a b(3) k(3,4) k'(3,4) blk_disjoint [of k k' n i] by (cases "k = k'") auto
    next
      fix m c assume "(m, c) \<in> B" "a div 4096 \<in> slot_range m c"
      then show False using apartD(1) [OF ap k(1)] k(5) by blast
    qed
  next
    fix m c assume m: "(m, c) \<in> B" "b = 4096 * m + 12" "a div 4096 \<in> slot_range m c"
    show False
    proof (rule held_page [OF b(2) a(2)])
      fix n' j k' assume "(n', j) \<in> A" "a div 4096 = n'"
      then show False using apartD(1) [OF ap _ m(1)] m(3) by blast
    next
      fix m' c' assume m': "(m', c') \<in> B" "b' = 4096 * m' + 12" "a div 4096 \<in> slot_range m' c'"
      then show False using apartD(2) [OF ap m(1) m'(1) m(3) m'(3)] b(3) m(2) by simp
    qed
  qed
qed

lemma held_pos:
  assumes ok: "heap_ok p F A B" and b: "(b, l) \<in> held F A B"
  shows "0 < l \<and> 0 < b"
proof -
  have "0 < 4096 * c - 12" if "(n, c) \<in> B" for n c
    using that ok bigs_okD [of "memory p" "used_pages p" B n c] by (auto simp: heap_ok_def)
  moreover have "0 < blk n i k" for n i k by (simp add: blk_def)
  ultimately show ?thesis
    using b unfolding held_iff by auto
qed

lemma held_size_unique:
  assumes ok: "heap_ok p F A B" and b: "(b, l) \<in> held F A B" "(b, l') \<in> held F A B"
  shows "l = l'"
proof -
  have ap: "apart A B" and ar: "arenas_ok (memory p) (used_pages p) F A" and bg: "bigs_ok (memory p) (used_pages p) B"
    using ok by (simp_all add: heap_ok_def)
  have mem: "b \<in> block_bytes (b, l)" "b \<in> block_bytes (b, l')"
    using held_pos [OF ok b(1)] held_pos [OF ok b(2)] by simp_all
  show ?thesis
  proof (rule held_page [OF b(1) mem(1)])
    fix n i k assume k: "(n, i) \<in> A" "l = bsize i" "b div 4096 = n"
    show ?thesis
    proof (rule held_page [OF b(2) mem(2)])
      fix n' j assume "(n', j) \<in> A" "l' = bsize j" "b div 4096 = n'"
      then show ?thesis using k arena_unique [OF ar k(1), of j] by simp
    next
      fix m c assume "(m, c) \<in> B" "b div 4096 \<in> slot_range m c"
      then show ?thesis using apartD(1) [OF ap k(1)] k(3) by blast
    qed
  next
    fix n c assume c: "(n, c) \<in> B" "l = 4096 * c - 12" "b div 4096 \<in> slot_range n c"
    show ?thesis
    proof (rule held_page [OF b(2) mem(2)])
      fix n' j assume "(n', j) \<in> A" "b div 4096 = n'"
      then show ?thesis using apartD(1) [OF ap _ c(1)] c(3) by blast
    next
      fix m d assume m: "(m, d) \<in> B" "l' = 4096 * d - 12" "b div 4096 \<in> slot_range m d"
      then show ?thesis using apartD(2) [OF ap c(1) m(1) c(3) m(3)] c(2) by simp
    qed
  qed
qed

text \<open>Held bytes are never in an arena header, in a free block or in a page that is not in use.\<close>

lemma held_not_header:
  assumes ok: "heap_ok p F A B" and b: "(b, l) \<in> held F A B" "a \<in> block_bytes (b, l)"
    and n: "(n, i) \<in> A \<or> (n, c) \<in> B"
  shows "\<not> (4096 * n \<le> a \<and> a < 4096 * n + 12)"
proof
  assume h: "4096 * n \<le> a \<and> a < 4096 * n + 12"
  then have d: "a div 4096 = n" "a mod 4096 < 12"
    using page_split [of "a - 4096 * n" n] by auto
  have ap: "apart A B" and big: "bigs_ok (memory p) (used_pages p) B"
    using ok by (simp_all add: heap_ok_def)
  show False
  proof (rule held_page [OF b])
    show False if "12 \<le> a mod 4096" using that d(2) by simp
    fix m e assume m: "(m, e) \<in> B" "a div 4096 \<in> slot_range m e" "4096 * m + 12 \<le> a"
    show False
    proof (cases "(n, i) \<in> A")
      case True
      then show False using apartD(1) [OF ap _ m(1)] m(2) d(1) by blast
    next
      case False
      then have c: "(n, c) \<in> B" using n by blast
      then have "n \<in> slot_range n c" using bigs_okD [OF big c] by simp
      then have "n = m" using apartD(2) [OF ap c m(1)] m(2) d(1) by blast
      then show False using h m(3) by simp
    qed
  qed
qed

lemma held_page_used:
  assumes ok: "heap_ok p F A B" and b: "(b, l) \<in> held F A B" "a \<in> block_bytes (b, l)"
  shows "a div 4096 \<in> used_pages p"
proof (rule held_page [OF b])
  show ?thesis if "(n, i) \<in> A" "a div 4096 = n" for n i
    using that ok arenas_okD [of "memory p" "used_pages p" F A n i] by (simp add: heap_ok_def)
  show ?thesis if "(n, c) \<in> B" "a div 4096 \<in> slot_range n c" for n c
    using that ok bigs_okD [of "memory p" "used_pages p" B n c] by (auto simp: heap_ok_def)
qed

section \<open>Steps of the allocator on arenas and free lists\<close>

lemma arenas_ok_I:
  "(\<And>n i. (n, i) \<in> A \<Longrightarrow> i < 7 \<and> n \<in> U \<and> header m n = (ARENA_MAGIC, i + 1, card (free_blocks F n i))) \<Longrightarrow> arenas_ok m U F A"
  by (auto simp: arenas_ok_def)

lemma bigs_ok_I:
  "(\<And>n c. (n, c) \<in> B \<Longrightarrow> 0 < c \<and> slot_range n c \<subseteq> U \<and> header m n = (ARENA_MAGIC, 0, c)) \<Longrightarrow> bigs_ok m U B"
  by (auto simp: bigs_ok_def)

text \<open>A header is unaffected by changes to other pages.\<close>

lemma header_other_page:
  assumes "\<And>a. a div 4096 \<notin> Q \<Longrightarrow> m' a = m a" and "n \<notin> Q"
  shows "header m' n = header m n"
proof (rule header_cong)
  fix a assume "4096 * n \<le> a" "a < 4096 * n + 12"
  then have "a div 4096 = n" using page_split [of "a - 4096 * n" n] by simp
  then show "m' a = m a" using assms by simp
qed

lemma new_big:
  assumes ok: "heap_ok p F A B" and inv: "palloc_inv p'" and c: "0 < c"
    and used: "used_pages p' = used_pages p \<union> slot_range n c" and new: "slot_range n c \<inter> used_pages p = {}"
    and hdr: "header (memory p') n = (ARENA_MAGIC, 0, c)"
    and mem: "\<And>a. a div 4096 \<notin> slot_range n c \<Longrightarrow> memory p' a = memory p a"
  shows "heap_ok p' F A (insert (n, c) B)"
    and "held F A (insert (n, c) B) = insert (4096 * n + 12, 4096 * c - 12) (held F A B)"
proof -
  have o: "arenas_ok (memory p) (used_pages p) F A" "bigs_ok (memory p) (used_pages p) B" "apart A B" "lists_ok F A"
    using ok by (simp_all add: heap_ok_def)
  have a: "m \<in> used_pages p" "m \<notin> slot_range n c" "header (memory p') m = header (memory p) m" if "(m, i) \<in> A" for m i
  proof -
    show u: "m \<in> used_pages p" "m \<notin> slot_range n c" using arenas_okD [OF o(1) that] new by auto
    show "header (memory p') m = header (memory p) m" by (rule header_other_page [OF mem u(2)])
  qed
  have b: "slot_range m d \<subseteq> used_pages p" "slot_range m d \<inter> slot_range n c = {}" "header (memory p') m = header (memory p) m"
    if "(m, d) \<in> B" for m d
  proof -
    show u: "slot_range m d \<subseteq> used_pages p" "slot_range m d \<inter> slot_range n c = {}"
      using bigs_okD [OF o(2) that] new by blast+
    have "m \<in> slot_range m d" using bigs_okD [OF o(2) that] by simp
    then have nm: "m \<notin> slot_range n c" using u(2) by blast
    show "header (memory p') m = header (memory p) m" by (rule header_other_page [OF mem nm])
  qed
  have "arenas_ok (memory p') (used_pages p') F A"
    by (rule arenas_ok_I) (use a arenas_okD [OF o(1)] used in auto)
  moreover have "bigs_ok (memory p') (used_pages p') (insert (n, c) B)"
  proof (rule bigs_ok_I)
    fix m d assume "(m, d) \<in> insert (n, c) B"
    then consider "m = n" "d = c" | "(m, d) \<in> B" by blast
    then show "0 < d \<and> slot_range m d \<subseteq> used_pages p' \<and> header (memory p') m = (ARENA_MAGIC, 0, d)"
    proof cases
      case 1
      then show ?thesis using c used hdr by simp
    next
      case 2
      then show ?thesis using b [OF 2] bigs_okD [OF o(2) 2] used by (simp add: le_supI1)
    qed
  qed
  moreover have "apart A (insert (n, c) B)"
  proof (rule apartI)
    fix m i k d assume "(m, i) \<in> A" "(k, d) \<in> insert (n, c) B"
    then show "m \<notin> slot_range k d" using a(2) apartD(1) [OF o(3)] by blast
  next
    fix m d m' d' assume m: "(m, d) \<in> insert (n, c) B" "(m', d') \<in> insert (n, c) B" "(m, d) \<noteq> (m', d')"
    show "slot_range m d \<inter> slot_range m' d' = {}"
    proof (cases "(m, d) \<in> B \<and> (m', d') \<in> B")
      case True
      then show ?thesis using apartD(2) [OF o(3)] m(3) by blast
    next
      case False
      then show ?thesis using m b(2) by blast
    qed
  qed
  ultimately show "heap_ok p' F A (insert (n, c) B)"
    using inv o(4) by (simp add: heap_ok_def)
  show "held F A (insert (n, c) B) = insert (4096 * n + 12, 4096 * c - 12) (held F A B)"
    by (auto simp: held_def)
qed

lemma new_arena:
  assumes ok: "heap_ok p F A B" and inv: "palloc_inv p'" and i: "i < 7" and empty: "F i = []"
    and used: "used_pages p' = insert n (used_pages p)" and new: "n \<notin> used_pages p"
    and hdr: "header (memory p') n = (ARENA_MAGIC, i + 1, bcount i)"
    and mem: "\<And>a. a div 4096 \<noteq> n \<Longrightarrow> memory p' a = memory p a"
  defines "F' \<equiv> F(i := map (blk n i) [0..<bcount i])"
  shows "heap_ok p' F' (insert (n, i) A) B" and "held F' (insert (n, i) A) B = held F A B"
proof -
  have o: "arenas_ok (memory p) (used_pages p) F A" "bigs_ok (memory p) (used_pages p) B" "apart A B" "lists_ok F A"
    using ok by (simp_all add: heap_ok_def)
  have h: "header (memory p') m = header (memory p) m" if "m \<in> used_pages p" for m
    using that new mem by (intro header_other_page [of "{n}"]) auto
  have F'n: "free_blocks F' n i = {..<bcount i}"
    by (auto simp: free_blocks_def F'_def)
  have nA: "m \<noteq> n" if "(m, j) \<in> A" for m j
    using arenas_okD [OF o(1) that] new by auto
  have notin: "blk m i k \<notin> set (F' i)" if "(m, i) \<in> A" "k < bcount i" for m k
    using blk_inject [OF that(2)] nA [OF that(1)] by (auto simp: F'_def)
  have F'A: "free_blocks F' m j = free_blocks F m j" if "(m, j) \<in> A" for m j
  proof (cases "j = i")
    case True
    then show ?thesis using notin that empty by (auto simp: free_blocks_def)
  next
    case False
    then show ?thesis by (simp add: free_blocks_def F'_def)
  qed
  have "arenas_ok (memory p') (used_pages p') F' (insert (n, i) A)"
  proof (rule arenas_ok_I)
    fix m j assume "(m, j) \<in> insert (n, i) A"
    then consider "m = n" "j = i" | "(m, j) \<in> A" by blast
    then show "j < 7 \<and> m \<in> used_pages p' \<and> header (memory p') m = (ARENA_MAGIC, j + 1, card (free_blocks F' m j))"
    proof cases
      case 1
      then show ?thesis using i used hdr by (simp add: F'n)
    next
      case 2
      then show ?thesis using arenas_okD [OF o(1) 2] used h F'A by simp
    qed
  qed
  moreover have "bigs_ok (memory p') (used_pages p') B"
  proof (rule bigs_ok_I)
    fix m c assume "(m, c) \<in> B"
    note this [THEN bigs_okD [OF o(2)]]
    moreover from this have "m \<in> used_pages p" by auto
    ultimately show "0 < c \<and> slot_range m c \<subseteq> used_pages p' \<and> header (memory p') m = (ARENA_MAGIC, 0, c)"
      using used h by auto
  qed
  moreover have "n \<notin> slot_range m c" if "(m, c) \<in> B" for m c
    using bigs_okD [OF o(2) that] new by blast
  then have "apart (insert (n, i) A) B"
    using apartD [OF o(3)] by (intro apartI) blast+
  moreover have "inj_on (blk n i) {0..<bcount i}"
    by (rule inj_onI) (use blk_inject [of _ i _ n n] in auto)
  then have "lists_ok F' (insert (n, i) A)"
    using o(4) unfolding lists_ok_def F'_def by (auto simp: distinct_map) blast+
  ultimately show "heap_ok p' F' (insert (n, i) A) B"
    using inv by (simp add: heap_ok_def)
  have "blk m j k \<notin> set (F' j) \<longleftrightarrow> blk m j k \<notin> set (F j)" if "(m, j) \<in> A" "k < bcount j" for m j k
    using F'A [OF that(1)] that(2) by (auto simp: free_blocks_def)
  moreover have "blk n i k \<in> set (F' i)" if "k < bcount i" for k
    using that by (simp add: F'_def)
  ultimately show "held F' (insert (n, i) A) B = held F A B"
    unfolding held_def by blast
qed

lemma take_block:
  assumes ok: "heap_ok p F A B" and i: "i < 7" and F: "F i = b # bs"
  obtains n k where "(n, i) \<in> A" "k < bcount i" "b = blk n i k" "0 < card (free_blocks F n i)"
    "heap_ok (p\<lparr>memory := store32 (memory p) (4096 * n + 8) (card (free_blocks F n i) - 1)\<rparr>) (F(i := bs)) A B"
    "held (F(i := bs)) A B = insert (b, bsize i) (held F A B)" "(b, l) \<notin> held F A B"
proof -
  have o: "arenas_ok (memory p) (used_pages p) F A" "bigs_ok (memory p) (used_pages p) B" "apart A B" "lists_ok F A" "palloc_inv p"
    using ok by (simp_all add: heap_ok_def)
  have l: "distinct (b # bs)" "set (b # bs) \<subseteq> {blk n i k |n k. (n, i) \<in> A \<and> k < bcount i}"
    using lists_okD [OF o(4) i] F by simp_all
  then obtain n k where k: "(n, i) \<in> A" "k < bcount i" "b = blk n i k" by auto
  let ?c = "card (free_blocks F n i)" and ?F = "F(i := bs)"
  let ?m = "store32 (memory p) (4096 * n + 8) (?c - 1)"
  have kf: "k \<in> free_blocks F n i" using k F by (simp add: free_blocks_def)
  have fin: "finite (free_blocks F m j)" for m j by (simp add: free_blocks_def)
  have pos: "0 < ?c" using kf fin by (auto simp: card_gt_0_iff)
  have cle: "?c \<le> bcount i"
    using card_mono [of "{..<bcount i}" "free_blocks F n i"] by (auto simp: free_blocks_def)
  have bc: "bcount i < 2 ^ 32"
    using bcount_le [of i] by simp
  have same: "free_blocks ?F m j = (if m = n \<and> j = i then free_blocks F n i - {k} else free_blocks F m j)"
    for m j
  proof (cases "j = i")
    case True
    have "blk m i k' = b \<longleftrightarrow> m = n \<and> k' = k" if "k' < bcount i" for k'
      using blk_inject [OF that k(2), of m n] k(3) by blast
    moreover have "x \<in> set (F i) \<longleftrightarrow> x = b \<or> x \<in> set bs" "b \<notin> set bs" for x
      using F l(1) by simp_all
    ultimately show ?thesis
      using True by (simp add: free_blocks_def set_eq_iff) metis
  next
    case False
    then show ?thesis by (simp add: free_blocks_def)
  qed
  have hdr: "header ?m m = (if m = n then (ARENA_MAGIC, i + 1, ?c - 1) else header (memory p) m)" for m
  proof (cases "m = n")
    case True
    then show ?thesis
      using header_stores(1) [of "?c - 1" "memory p" n] arenas_okD [OF o(1) k(1)] cle bc by simp
  next
    case False
    then have "header ?m m = header (memory p) m"
      by (intro header_cong store32_other) auto
    then show ?thesis using False by simp
  qed
  have "arenas_ok ?m (used_pages p) ?F A"
  proof (rule arenas_ok_I)
    fix m j assume m: "(m, j) \<in> A"
    then have "m = n \<Longrightarrow> j = i" using arena_unique [OF o(1)] k(1) by blast
    then show "j < 7 \<and> m \<in> used_pages p \<and> header ?m m = (ARENA_MAGIC, j + 1, card (free_blocks ?F m j))"
      using arenas_okD [OF o(1) m] same [of m j] hdr [of m] kf fin by (cases "m = n") auto
  qed
  moreover have "bigs_ok ?m (used_pages p) B"
  proof (rule bigs_ok_I)
    fix m c assume m: "(m, c) \<in> B"
    have "m \<in> slot_range m c" using bigs_okD [OF o(2) m] by simp
    then have "m \<noteq> n" using apartD(1) [OF o(3) k(1) m] by blast
    then show "0 < c \<and> slot_range m c \<subseteq> used_pages p \<and> header ?m m = (ARENA_MAGIC, 0, c)"
      using bigs_okD [OF o(2) m] hdr [of m] by simp
  qed
  moreover have "lists_ok ?F A"
    unfolding lists_ok_def
  proof (intro allI impI)
    fix j :: nat assume "j < 7"
    then show "distinct (?F j) \<and> set (?F j) \<subseteq> {blk n j k |n k. (n, j) \<in> A \<and> k < bcount j}"
      using lists_okD [OF o(4), of j] l by (cases "j = i") auto
  qed
  ultimately have "heap_ok (p\<lparr>memory := ?m\<rparr>) ?F A B"
    using o(3,5) by (simp add: heap_ok_def used_pages_def)
  moreover have "held ?F A B = insert (b, bsize i) (held F A B)"
  proof -
    have "x \<notin> set (?F j) \<longleftrightarrow> x \<notin> set (F j) \<or> (x, bsize j) = (b, bsize i)" for x j
      using F l(1) by (cases "j = i") (auto simp: bsize_def)
    then show ?thesis
      using k unfolding held_def by simp blast
  qed
  moreover have "(b, l) \<notin> held F A B"
  proof
    assume "(b, l) \<in> held F A B"
    then consider (s) m j k' where "(m, j) \<in> A" "k' < bcount j" "b = blk m j k'" "blk m j k' \<notin> set (F j)"
      | (g) m c where "(m, c) \<in> B" "b = 4096 * m + 12" unfolding held_def by blast
    then show False
    proof cases
      case s
      then have "m = n" using blk_page(1) [of k i n] blk_page(1) [of k' j m] k(2,3) by simp
      then have "j = i" using arena_unique [OF o(1)] s(1) k(1) by blast
      then show False using s(3,4) F by simp
    next
      case g
      then have "m = n" using blk_page(1) [of k i n] k(2,3) page_split(1) [of 12 m] by simp
      then show False using bigs_okD [OF o(2) g(1)] apartD(1) [OF o(3) k(1) g(1)] by simp
    qed
  qed
  ultimately show thesis using that k pos by blast
qed

lemma put_block:
  assumes ok: "heap_ok p F A B" and k: "(n, i) \<in> A" "k < bcount i" "blk n i k \<notin> set (F i)"
    and mem: "\<And>a. a \<notin> block_bytes (blk n i k, bsize i) \<Longrightarrow> m a = memory p a"
  defines "c \<equiv> card (free_blocks F n i)" and "F' \<equiv> F(i := blk n i k # F i)"
  shows "heap_ok (p\<lparr>memory := store32 m (4096 * n + 8) (c + 1)\<rparr>) F' A B"
    and "held F' A B = held F A B - {(blk n i k, bsize i)}" and "header m n = (ARENA_MAGIC, i + 1, c)"
    and "card (free_blocks F' n i) = c + 1" and "c + 1 \<le> bcount i"
proof -
  have o: "arenas_ok (memory p) (used_pages p) F A" "bigs_ok (memory p) (used_pages p) B" "apart A B" "lists_ok F A" "palloc_inv p"
    using ok by (simp_all add: heap_ok_def)
  let ?m = "store32 m (4096 * n + 8) (c + 1)"
  have i: "i < 7" using arenas_okD [OF o(1) k(1)] by blast
  have fin: "finite (free_blocks G x j)" for G x j by (simp add: free_blocks_def)
  have same: "free_blocks F' x j = (if x = n \<and> j = i then insert k (free_blocks F n i) else free_blocks F x j)"
    for x j
  proof (cases "j = i")
    case True
    have "blk x i k' = blk n i k \<longleftrightarrow> x = n \<and> k' = k" if "k' < bcount i" for k'
      using blk_inject [OF that k(2), of x n] by blast
    then show ?thesis
      using True k(2) by (simp add: free_blocks_def F'_def set_eq_iff) metis
  next
    case False
    then show ?thesis by (simp add: free_blocks_def F'_def)
  qed
  have kn: "k \<notin> free_blocks F n i" using k(3) by (simp add: free_blocks_def)
  show card: "card (free_blocks F' n i) = c + 1"
    using same [of n i] kn fin by (simp add: c_def)
  show cle: "c + 1 \<le> bcount i"
    using card card_mono [of "{..<bcount i}" "free_blocks F' n i"] by (auto simp: free_blocks_def)
  have block: "a div 4096 = n \<and> 12 \<le> a mod 4096" if "a \<in> block_bytes (blk n i k, bsize i)" for a
  proof -
    define j where "j = a - 4096 * n"
    have "12 \<le> j \<and> j < 4096 \<and> a = 4096 * n + j"
      using that block_fits [OF k(2)] by (auto simp: blk_def j_def)
    then show ?thesis using page_split [of j n] by simp
  qed
  have keep: "header m x = header (memory p) x" for x
  proof (rule header_cong, rule mem, rule notI)
    fix a assume a: "4096 * x \<le> a" "a < 4096 * x + 12" "a \<in> block_bytes (blk n i k, bsize i)"
    then have "a mod 4096 < 12" using page_split [of "a - 4096 * x" x] by simp
    then show False using block [OF a(3)] by simp
  qed
  then show "header m n = (ARENA_MAGIC, i + 1, c)"
    using arenas_okD [OF o(1) k(1)] by (simp add: c_def)
  have hdr: "header ?m x = (if x = n then (ARENA_MAGIC, i + 1, c + 1) else header (memory p) x)" for x
  proof (cases "x = n")
    case True
    then show ?thesis
      using header_stores(1) [of "c + 1" m n] keep [of n] arenas_okD [OF o(1) k(1)] cle bcount_le [of i] by simp
  next
    case False
    then have "header ?m x = header m x"
      by (intro header_cong store32_other) auto
    then show ?thesis using False keep by simp
  qed
  have "arenas_ok ?m (used_pages p) F' A"
  proof (rule arenas_ok_I)
    fix x j assume x: "(x, j) \<in> A"
    then have "x = n \<Longrightarrow> j = i" using arena_unique [OF o(1)] k(1) by blast
    then show "j < 7 \<and> x \<in> used_pages p \<and> header ?m x = (ARENA_MAGIC, j + 1, card (free_blocks F' x j))"
      using arenas_okD [OF o(1) x] same [of x j] hdr [of x] card by (cases "x = n") auto
  qed
  moreover have "bigs_ok ?m (used_pages p) B"
  proof (rule bigs_ok_I)
    fix x d assume x: "(x, d) \<in> B"
    have "x \<in> slot_range x d" using bigs_okD [OF o(2) x] by simp
    then have "x \<noteq> n" using apartD(1) [OF o(3) k(1) x] by blast
    then show "0 < d \<and> slot_range x d \<subseteq> used_pages p \<and> header ?m x = (ARENA_MAGIC, 0, d)"
      using bigs_okD [OF o(2) x] hdr [of x] by simp
  qed
  moreover have "lists_ok F' A"
    unfolding lists_ok_def
  proof (intro allI impI)
    fix j :: nat assume "j < 7"
    then show "distinct (F' j) \<and> set (F' j) \<subseteq> {blk n j k |n k. (n, j) \<in> A \<and> k < bcount j}"
      using lists_okD [OF o(4), of j] k by (cases "j = i") (auto simp: F'_def)
  qed
  ultimately show "heap_ok (p\<lparr>memory := ?m\<rparr>) F' A B"
    using o(3,5) by (simp add: heap_ok_def used_pages_def)
  show "held F' A B = held F A B - {(blk n i k, bsize i)}"
  proof -
    have 1: "x \<notin> set (F' j) \<longleftrightarrow> x \<notin> set (F j) \<and> \<not> (x = blk n i k \<and> bsize j = bsize i)" for x j
      by (auto simp: F'_def bsize_def)
    have 2: "4096 * x + 12 \<noteq> blk n i k" if x: "(x, d) \<in> B" for x d
    proof
      assume "4096 * x + 12 = blk n i k"
      then have "x = n" using blk_page(1) [OF k(2), of n] page_split(1) [of 12 x] by simp
      then show False using bigs_okD [OF o(2) x] apartD(1) [OF o(3) k(1) x] by simp
    qed
    have "(b, l) \<in> held F' A B \<longleftrightarrow> (b, l) \<in> held F A B - {(blk n i k, bsize i)}" for b l
      unfolding held_iff Diff_iff singleton_iff prod.inject 1 using 2 by metis
    then show ?thesis by auto
  qed
qed

lemma drop_big:
  assumes ok: "heap_ok p F A B" and c: "(n, c) \<in> B" and inv: "palloc_inv p'"
    and used: "used_pages p' = used_pages p - slot_range n c"
    and mem: "\<And>a. a div 4096 \<notin> slot_range n c \<Longrightarrow> memory p' a = memory p a"
  shows "heap_ok p' F A (B - {(n, c)})"
    and "held F A (B - {(n, c)}) = held F A B - {(4096 * n + 12, 4096 * c - 12)}"
proof -
  have o: "arenas_ok (memory p) (used_pages p) F A" "bigs_ok (memory p) (used_pages p) B" "apart A B" "lists_ok F A"
    using ok by (simp_all add: heap_ok_def)
  have n: "n \<in> slot_range n c" using bigs_okD [OF o(2) c] by simp
  have "arenas_ok (memory p') (used_pages p') F A"
  proof (rule arenas_ok_I)
    fix m i assume m: "(m, i) \<in> A"
    have nm: "m \<notin> slot_range n c" using apartD(1) [OF o(3) m c] .
    then show "i < 7 \<and> m \<in> used_pages p' \<and> header (memory p') m = (ARENA_MAGIC, i + 1, card (free_blocks F m i))"
      using arenas_okD [OF o(1) m] used header_other_page [OF mem nm] by simp
  qed
  moreover have "bigs_ok (memory p') (used_pages p') (B - {(n, c)})"
  proof (rule bigs_ok_I)
    fix m d assume m: "(m, d) \<in> B - {(n, c)}"
    then have disj: "slot_range m d \<inter> slot_range n c = {}" using apartD(2) [OF o(3) _ c] by blast
    have b: "0 < d \<and> slot_range m d \<subseteq> used_pages p \<and> header (memory p) m = (ARENA_MAGIC, 0, d)"
      using bigs_okD [OF o(2)] m by blast
    then have "m \<in> slot_range m d" by simp
    then have nm: "m \<notin> slot_range n c" using disj by blast
    have "slot_range m d \<subseteq> used_pages p'" unfolding used using b disj by blast
    then show "0 < d \<and> slot_range m d \<subseteq> used_pages p' \<and> header (memory p') m = (ARENA_MAGIC, 0, d)"
      using b header_other_page [OF mem nm] by simp
  qed
  moreover have "apart A (B - {(n, c)})"
    using apartD [OF o(3)] by (intro apartI) blast+
  ultimately show "heap_ok p' F A (B - {(n, c)})"
    using inv o(4) by (simp add: heap_ok_def)
  have 1: "blk m i k \<noteq> 4096 * n + 12" if "(m, i) \<in> A" "k < bcount i" for m i k
  proof
    assume "blk m i k = 4096 * n + 12"
    then have "m = n" using blk_page(1) [OF that(2), of m] page_split(1) [of 12 n] by simp
    then show False using n apartD(1) [OF o(3) that(1) c] by simp
  qed
  have 2: "m = n \<and> d = c" if "(m, d) \<in> B" "4096 * m + 12 = 4096 * n + 12" for m d
    using apartD(2) [OF o(3) that(1) c, of n] that n bigs_okD [OF o(2) that(1)] by simp
  have "(b, l) \<in> held F A (B - {(n, c)}) \<longleftrightarrow> (b, l) \<in> held F A B - {(4096 * n + 12, 4096 * c - 12)}" for b l
    unfolding held_iff Diff_iff singleton_iff prod.inject using 1 2 by metis
  then show "held F A (B - {(n, c)}) = held F A B - {(4096 * n + 12, 4096 * c - 12)}"
    by auto
qed

lemma drop_arena:
  assumes ok: "heap_ok p F A B" and n: "(n, i) \<in> A" and all: "free_blocks F n i = {..<bcount i}"
    and inv: "palloc_inv p'" and used: "used_pages p' = used_pages p - {n}"
    and mem: "\<And>a. a div 4096 \<noteq> n \<Longrightarrow> memory p' a = memory p a"
  defines "F' \<equiv> F(i := filter (\<lambda>b. b div 4096 \<noteq> n) (F i))"
  shows "heap_ok p' F' (A - {(n, i)}) B" and "held F' (A - {(n, i)}) B = held F A B"
proof -
  have o: "arenas_ok (memory p) (used_pages p) F A" "bigs_ok (memory p) (used_pages p) B" "apart A B" "lists_ok F A"
    using ok by (simp_all add: heap_ok_def)
  have h: "header (memory p') m = header (memory p) m" if "m \<noteq> n" for m
    using that mem by (intro header_other_page [of "{n}"]) auto
  have ne: "m \<noteq> n" if "(m, j) \<in> A - {(n, i)}" for m j
    using that arena_unique [OF o(1) n, of j] by blast
  have mem_iff: "blk m j k \<in> set (F' j) \<longleftrightarrow> blk m j k \<in> set (F j)" if "m \<noteq> n" "k < bcount j" for m j k
    using that blk_page(1) [OF that(2), of m] by (cases "j = i") (simp_all add: F'_def)
  have fb: "free_blocks F' m j = free_blocks F m j" if "m \<noteq> n" for m j
    using mem_iff [OF that] by (auto simp: free_blocks_def)
  have "arenas_ok (memory p') (used_pages p') F' (A - {(n, i)})"
  proof (rule arenas_ok_I)
    fix m j assume m: "(m, j) \<in> A - {(n, i)}"
    then have "(m, j) \<in> A" by blast
    then show "j < 7 \<and> m \<in> used_pages p' \<and> header (memory p') m = (ARENA_MAGIC, j + 1, card (free_blocks F' m j))"
      using arenas_okD [OF o(1), of m j] used h [OF ne [OF m]] fb [OF ne [OF m]] ne [OF m] by simp
  qed
  moreover have "bigs_ok (memory p') (used_pages p') B"
  proof (rule bigs_ok_I)
    fix m d assume m: "(m, d) \<in> B"
    then have nm: "n \<notin> slot_range m d" using apartD(1) [OF o(3) n] by blast
    have b: "0 < d \<and> slot_range m d \<subseteq> used_pages p \<and> header (memory p) m = (ARENA_MAGIC, 0, d)"
      using bigs_okD [OF o(2) m] .
    then have "m \<noteq> n" using nm by auto
    then show "0 < d \<and> slot_range m d \<subseteq> used_pages p' \<and> header (memory p') m = (ARENA_MAGIC, 0, d)"
      using b h nm used by auto
  qed
  moreover have "apart (A - {(n, i)}) B"
    using apartD [OF o(3)] by (intro apartI) blast+
  moreover have "lists_ok F' (A - {(n, i)})"
    unfolding lists_ok_def
  proof (intro allI impI conjI subsetI)
    fix j :: nat assume j: "j < 7"
    note l = lists_okD [OF o(4) j]
    then show "distinct (F' j)" by (cases "j = i") (simp_all add: F'_def)
    fix b assume b: "b \<in> set (F' j)"
    then have "b \<in> set (F j)" by (cases "j = i") (auto simp: F'_def)
    then obtain m k where k: "(m, j) \<in> A" "k < bcount j" "b = blk m j k" using l by blast
    have "(m, j) \<noteq> (n, i)" using b blk_page(1) [OF k(2), of m] k(3) by (auto simp: F'_def)
    then show "b \<in> {blk n' j k |n' k. (n', j) \<in> A - {(n, i)} \<and> k < bcount j}"
      using k by blast
  qed
  ultimately show "heap_ok p' F' (A - {(n, i)}) B"
    using inv by (simp add: heap_ok_def)
  have full: "blk n i k \<in> set (F i)" if "k < bcount i" for k
    using all that by (auto simp: free_blocks_def)
  have old: "blk m j k \<notin> set (F' j) \<longleftrightarrow> blk m j k \<notin> set (F j)" if "(m, j) \<in> A - {(n, i)}" "k < bcount j" for m j k
    using mem_iff [OF ne [OF that(1)] that(2)] by simp
  have "(b, l) \<in> held F' (A - {(n, i)}) B \<longleftrightarrow> (b, l) \<in> held F A B" for b l
    unfolding held_iff using full old by blast
  then show "held F' (A - {(n, i)}) B = held F A B"
    by auto
qed

end
