(* ===== verification/Malloc_Correct.thy ===== *)
theory Malloc_Correct
  imports Malloc_Heap
begin

text \<open>
  Correctness of \<open>malloc\<close> and \<open>free\<close>: each routine is a sequence of the elementary steps of
  \<open>Malloc_Heap\<close>, and no sequence of requests disturbs the blocks clients hold.
\<close>

section \<open>The routines on a well-formed heap\<close>

definition fl :: "kmalloc \<Rightarrow> nat \<Rightarrow> addr list" where
  "fl s i = free_list (descs s ! i)"

definition descs_ok :: "kmalloc \<Rightarrow> bool" where
  "descs_ok s \<longleftrightarrow> length (descs s) = 7 \<and>
     (\<forall>i<7. block_size (descs s ! i) = bsize i \<and> blocks_per_arena (descs s ! i) = bcount i)"

definition unlocked :: "kmalloc \<Rightarrow> bool" where
  "unlocked s \<longleftrightarrow> (\<forall>i<7. \<not> desc_lock (descs s ! i))"

definition malloc_inv :: "kmalloc \<Rightarrow> (nat \<times> nat) set \<Rightarrow> (nat \<times> nat) set \<Rightarrow> bool" where
  "malloc_inv s A B \<longleftrightarrow> descs_ok s \<and> unlocked s \<and> heap_ok (pal s) (fl s) A B"

lemma fl_pal [simp]: "fl (s\<lparr>pal := p\<rparr>) = fl s" "descs_ok (s\<lparr>pal := p\<rparr>) = descs_ok s" "unlocked (s\<lparr>pal := p\<rparr>) = unlocked s"
  by (simp_all add: fl_def fun_eq_iff descs_ok_def unlocked_def)

lemma upd_desc_simps [simp]:
  "pal (upd_desc i f s) = pal s" "length (descs (upd_desc i f s)) = length (descs s)"
  "arena_magic a (upd_desc i f s) = arena_magic a s" "arena_desc a (upd_desc i f s) = arena_desc a s"
  "arena_free_cnt a (upd_desc i f s) = arena_free_cnt a s"
  "i < length (descs s) \<Longrightarrow> descs (upd_desc i f s) ! j = (if j = i then f (descs s ! i) else descs s ! j)"
  by (simp_all add: upd_desc_def arena_magic_def arena_desc_def arena_free_cnt_def)

lemma poke_simps [simp]: "descs (poke a v s) = descs s" "pal (poke a v s) = (pal s)\<lparr>memory := store32 (memory (pal s)) a v\<rparr>"
  "fl (poke a v s) = fl s" "descs_ok (poke a v s) = descs_ok s" "unlocked (poke a v s) = unlocked s"
  by (simp_all add: poke_def)

lemma free_list_id [simp]: "free_list_update (\<lambda>bs. bs) d = d"
  by (cases d) simp

lemma upd_free_list_twice:
  "i < length (descs s) \<Longrightarrow> upd_desc i (free_list_update f) (upd_desc i (free_list_update g) s) =
     upd_desc i (free_list_update (\<lambda>bs. f (g bs))) s"
  by (cases "descs s ! i") (simp add: upd_desc_def)

lemma fl_upd: "i < length (descs s) \<Longrightarrow> fl (upd_desc i f s) = (fl s)(i := free_list (f (descs s ! i)))"
  by (auto simp: fl_def fun_eq_iff)

lemma descs_ok_upd:
  assumes "descs_ok s" "i < 7" "block_size (f (descs s ! i)) = block_size (descs s ! i)"
    "blocks_per_arena (f (descs s ! i)) = blocks_per_arena (descs s ! i)"
  shows "descs_ok (upd_desc i f s)"
  using assms by (auto simp: descs_ok_def)

lemma unlocked_upd:
  "length (descs s) = 7 \<Longrightarrow> i < 7 \<Longrightarrow> unlocked s \<Longrightarrow> \<not> desc_lock (f (descs s ! i)) \<Longrightarrow> unlocked (upd_desc i f s)"
  by (auto simp: unlocked_def)

lemma header_fields:
  "header (memory (pal s)) n = (x, y, z) \<longleftrightarrow>
     arena_magic (4096 * n) s = x \<and> arena_desc (4096 * n) s = y \<and> arena_free_cnt (4096 * n) s = z"
  by (auto simp: header_def arena_magic_def arena_desc_def arena_free_cnt_def)

lemma find_desc_cases:
  assumes "descs_ok s"
  shows "find_desc (descs s) sz \<le> 7" and "find_desc (descs s) sz < 7 \<Longrightarrow> sz \<le> bsize (find_desc (descs s) sz)"
    and "find_desc (descs s) sz = 7 \<Longrightarrow> 1024 < sz"
proof -
  have *: "find_desc ds sz \<le> length ds" "find_desc ds sz < length ds \<Longrightarrow> sz \<le> block_size (ds ! find_desc ds sz)"
    "find_desc ds sz = length ds \<Longrightarrow> \<forall>d\<in>set ds. block_size d < sz" for ds
    by (induction ds) (auto split: if_splits)
  show "find_desc (descs s) sz \<le> 7" "find_desc (descs s) sz < 7 \<Longrightarrow> sz \<le> bsize (find_desc (descs s) sz)"
    using *(1,2) [of "descs s"] assms by (auto simp: descs_ok_def)
  assume "find_desc (descs s) sz = 7"
  then have "\<forall>d\<in>set (descs s). block_size d < sz"
    using *(3) [of "descs s"] assms by (simp add: descs_ok_def)
  moreover have "descs s ! 6 \<in> set (descs s)"
    using assms by (simp add: descs_ok_def)
  ultimately have "block_size (descs s ! 6) < sz" by blast
  then show "1024 < sz"
    using assms by (simp add: descs_ok_def bsize_def)
qed

lemma arena_blocks:
  assumes s: "descs_ok s" "i < 7" "0 < n" "n < 2 ^ 20" and h: "header (memory (pal s)) n = (ARENA_MAGIC, i + 1, c)"
    and k: "k < bcount i"
  shows "arena_to_block (4096 * n) k s = Some (blk n i k)" and "block_to_arena (blk n i k) s = Some (4096 * n)"
proof -
  have f: "arena_magic (4096 * n) s = ARENA_MAGIC" "arena_desc (4096 * n) s = i + 1"
    using h by (simp_all add: header_fields)
  have d: "desc_at (4096 * n) s = Some (descs s ! i)" and sz: "block_size (descs s ! i) = bsize i" "blocks_per_arena (descs s ! i) = bcount i"
    using s(1,2) f(2) by (simp_all add: desc_at_def descs_ok_def)
  have "n \<le> 1048575" using s(4) by simp
  then have "blk n i k < 4294967296"
    using block_fits [OF k] bsize_pos [of i] unfolding blk_def by linarith
  then have lt: "blk n i k < 2 ^ 32" by simp
  then have "size_t (4096 * n + sizeof_arena + k * bsize i) = blk n i k"
    by (simp add: blk_def sizeof_arena_def)
  then show "arena_to_block (4096 * n) k s = Some (blk n i k)"
    using s(3) f d sz k by (simp add: arena_to_block_def)
  have "pg_round_down (blk n i k) = 4096 * n"
    using blk_page(1) [OF k, of n] lt by (simp only: pg_round_down_eq minus_mod_eq_div_mult mult.commute)
  moreover have "size_t (pg_ofs (blk n i k) + 2 ^ 32 - sizeof_arena) = k * bsize i"
  proof -
    have "pg_ofs (blk n i k) + 2 ^ 32 - sizeof_arena = k * bsize i + 2 ^ 32"
      using blk_page(2) [OF k, of n] by (simp add: pg_ofs_mod sizeof_arena_def)
    moreover have "k * bsize i < 2 ^ 32"
      using block_fits [OF k] by simp
    ultimately show ?thesis by (simp only: size_t_def mod_add_self2 mod_less)
  qed
  ultimately show "block_to_arena (blk n i k) s = Some (4096 * n)"
    using s(3) f d sz(1) bsize_pos [of i] by (simp add: block_to_arena_def)
qed

lemma add_blocks_ok:
  assumes "descs_ok s" "i < 7" "0 < n" "n < 2 ^ 20" "header (memory (pal s)) n = (ARENA_MAGIC, i + 1, c)"
    "k + r \<le> bcount i"
  shows "add_blocks i (4096 * n) k r s = Some (upd_desc i (free_list_update (\<lambda>bs. bs @ map (blk n i) [k..<k + r])) s)"
  using assms
proof (induction r arbitrary: k s)
  case 0
  then show ?case by (simp add: upd_desc_def)
next
  case (Suc r)
  let ?s = "upd_desc i (free_list_update (\<lambda>bs. bs @ [blk n i k])) s"
  have len: "i < length (descs s)" using Suc.prems(1,2) by (simp add: descs_ok_def)
  have "arena_to_block (4096 * n) k s = Some (blk n i k)"
    by (rule arena_blocks(1) [OF Suc.prems(1-5)]) (use Suc.prems(6) in simp)
  moreover have "add_blocks i (4096 * n) (k + 1) r ?s =
      Some (upd_desc i (free_list_update (\<lambda>bs. bs @ map (blk n i) [k + 1..<k + 1 + r])) ?s)"
    using Suc.prems by (intro Suc.IH descs_ok_upd) simp_all
  moreover have "[k..<k + Suc r] = k # [k + 1..<k + 1 + r]"
    by (simp add: upt_conv_Cons)
  ultimately show ?case
    using upd_free_list_twice [OF len] by (simp del: upt_Suc_append upt_Suc)
qed

lemma remove_blocks_ok:
  assumes "descs_ok s" "i < 7" "0 < n" "n < 2 ^ 20" "header (memory (pal s)) n = (ARENA_MAGIC, i + 1, c)"
    "k + r = bcount i" "\<forall>j. k \<le> j \<and> j < bcount i \<longrightarrow> blk n i j \<in> set (fl s i)"
  shows "remove_blocks i (4096 * n) k r s =
    Some (upd_desc i (free_list_update (filter (\<lambda>b. b \<notin> blk n i ` {k..<bcount i}))) s)"
  using assms
proof (induction r arbitrary: k s)
  case 0
  then show ?case by (simp add: upd_desc_def)
next
  case (Suc r)
  let ?s = "upd_desc i (free_list_update (removeAll (blk n i k))) s"
  have len: "i < length (descs s)" using Suc.prems(1,2) by (simp add: descs_ok_def)
  have k: "k < bcount i" using Suc.prems(6) by simp
  have "arena_to_block (4096 * n) k s = Some (blk n i k)"
    by (rule arena_blocks(1) [OF Suc.prems(1-5) k])
  moreover have "blk n i k \<in> set (free_list (descs s ! i))"
    using Suc.prems(7) k by (simp add: fl_def)
  moreover have "remove_blocks i (4096 * n) (k + 1) r ?s =
      Some (upd_desc i (free_list_update (filter (\<lambda>b. b \<notin> blk n i ` {k + 1..<bcount i}))) ?s)"
  proof (rule Suc.IH)
    have "blk n i j \<noteq> blk n i k" if "k + 1 \<le> j" "j < bcount i" for j
      using blk_inject [OF that(2) k, of n n] that(1) by auto
    then show "\<forall>j. k + 1 \<le> j \<and> j < bcount i \<longrightarrow> blk n i j \<in> set (fl ?s i)"
      using Suc.prems(7) len by (simp add: fl_upd) (simp add: fl_def)
  qed (use Suc.prems in \<open>simp_all add: descs_ok_upd\<close>)
  moreover have "filter (\<lambda>b. b \<notin> blk n i ` {k + 1..<bcount i}) (removeAll (blk n i k) bs) =
      filter (\<lambda>b. b \<notin> blk n i ` {k..<bcount i}) bs" for bs
  proof -
    have "{k..<bcount i} = insert k {k + 1..<bcount i}" using k by auto
    then show ?thesis
      by (simp add: removeAll_filter_not_eq) (rule filter_cong, auto)
  qed
  ultimately show ?case
    using upd_free_list_twice [OF len] by simp
qed

text \<open>What the page allocator does for kernel pages, in terms of the pages in use.\<close>

lemma used_pages_memory [simp]: "used_pages (p\<lparr>memory := m\<rparr>) = used_pages p"
  by (simp add: used_pages_def)

lemma kernel_pages_get:
  assumes inv: "palloc_inv p" and cnt: "0 < cnt"
  obtains "palloc_get_multiple 0 cnt p = Some (NULL, p)"
  | n q where "palloc_get_multiple 0 cnt p = Some (4096 * n, q)" "palloc_inv q" "memory q = memory p" "0 < n" "n < 2 ^ 20"
      "used_pages q = used_pages p \<union> slot_range n cnt" "slot_range n cnt \<inter> used_pages p = {}"
proof -
  let ?k = "get_pool False p"
  have wf: "wf_bitmap (used_map ?k)"
    using palloc_inv_pool [OF inv] by (simp add: pool_ok_def)
  obtain r b where al: "bitmap_alloc cnt (used_map ?k) = Some (r, b)"
    using bm.alloc_total [OF wf cnt] by blast
  note get = palloc_get_cases [OF inv cnt _ al, of 0, simplified]
  show thesis
  proof (cases r)
    case None
    then show thesis using get that(1) by simp
  next
    case (Some i)
    let ?n = "pg_no (pool_base ?k) + i" and ?q = "set_pool False (?k\<lparr>used_map := b\<rparr>) p"
    have b: "wf_bitmap b" "bit_cnt b = bit_cnt (used_map ?k)" "slot_range i cnt \<subseteq> free_bits (used_map ?k)"
        "free_bits b = free_bits (used_map ?k) - slot_range i cnt"
      using bm.alloc_inv [OF wf cnt] bm.alloc_Some [OF wf cnt] al Some by auto
    have free: "slot_range ?n cnt \<subseteq> pool_free ?k"
      using group_in_free [OF cnt] b(3) by blast
    have "pool_free (?k\<lparr>used_map := b\<rparr>) = pool_free ?k - slot_range ?n cnt"
      using pool_free_update [of b True ?k i cnt] b(4) by simp
    then have used: "used_pages ?q = used_pages p \<union> slot_range ?n cnt"
      using free pool_free_subset [of ?k] b(2) by (auto simp: used_pages_def set_pool_def get_pool_def pool_pages_def)
    have inv': "palloc_inv ?q" using set_used_map(1) [OF inv b(1,2)] .
    have "?n \<in> used_pages ?q" using used cnt by simp
    then have "0 < ?n" "?n < 2 ^ 20" using used_pages_pos [OF inv'] by blast+
    moreover have "slot_range ?n cnt \<inter> used_pages p = {}"
      using free by (auto simp: used_pages_def get_pool_def)
    ultimately show thesis
      using that(2) [of ?n "?q\<lparr>memory := memory p\<rparr>"] get Some inv' used by simp
  qed
qed

lemma kernel_pages_free:
  assumes inv: "palloc_inv p" and cnt: "0 < cnt" and grp: "slot_range n cnt \<subseteq> used_pages p"
  obtains q where "palloc_free_multiple (4096 * n) cnt p = Some q" "palloc_inv q"
    "used_pages q = used_pages p - slot_range n cnt" "\<And>a. a div 4096 \<notin> slot_range n cnt \<Longrightarrow> memory q a = memory p a"
proof -
  let ?k = "get_pool False p"
  have "slot_range n cnt \<subseteq> pool_pages ?k - pool_free ?k"
    using grp by (simp add: used_pages_def get_pool_def)
  then obtain b m where b: "release_pages n cnt p = Some ((set_pool False (?k\<lparr>used_map := b\<rparr>) p)\<lparr>memory := m\<rparr>)"
      "wf_bitmap b" "bit_cnt b = bit_cnt (used_map ?k)"
      "free_bits b = free_bits (used_map ?k) \<union> slot_range (n - pg_no (pool_base ?k)) cnt"
      "m = (\<lambda>a. if 4096 * n \<le> a \<and> a < 4096 * (n + cnt) then 0xcc else memory p a)"
    using release_pages_cases [OF inv cnt] by blast
  have "n \<in> slot_range n cnt" using cnt by simp
  then have "n \<in> used_pages p" using grp by blast
  then have "n \<in> pool_pages ?k" by (simp add: used_pages_def get_pool_def)
  then have "pg_no (pool_base ?k) + (n - pg_no (pool_base ?k)) = n" by (simp add: pool_pages_def)
  then have "pool_free (?k\<lparr>used_map := b\<rparr>) = pool_free ?k \<union> slot_range n cnt"
    using pool_free_update [of b False ?k "n - pg_no (pool_base ?k)" cnt] b(4) by simp
  then have "used_pages (set_pool False (?k\<lparr>used_map := b\<rparr>) p) = used_pages p - slot_range n cnt"
    using b(3) by (auto simp: used_pages_def set_pool_def get_pool_def pool_pages_def)
  moreover have "m a = memory p a" if "a div 4096 \<notin> slot_range n cnt" for a
    using that by (auto simp: b(5) less_mult_imp_div_less mult.commute)
  ultimately show thesis
    using that [of "(set_pool False (?k\<lparr>used_map := b\<rparr>) p)\<lparr>memory := m\<rparr>"] b(1) set_used_map(1) [OF inv b(2,3)]
    by (simp add: release_pages_def)
qed

text \<open>
  \<open>keeps H m m'\<close>: the bytes of the blocks in \<open>H\<close> are the same in both memories.
\<close>

definition keeps :: "(addr \<times> nat) set \<Rightarrow> mem \<Rightarrow> mem \<Rightarrow> bool" where
  "keeps H m m' \<longleftrightarrow> (\<forall>b\<in>H. \<forall>a\<in>block_bytes b. m' a = m a)"

lemma keepsI: "(\<And>b l a. (b, l) \<in> H \<Longrightarrow> a \<in> block_bytes (b, l) \<Longrightarrow> m' a = m a) \<Longrightarrow> keeps H m m'"
  unfolding keeps_def by (metis surj_pair)

lemma keeps_trans: "keeps H m m' \<Longrightarrow> keeps H m' m'' \<Longrightarrow> keeps H m m''"
  by (simp add: keeps_def)

lemma keeps_subset: "keeps H m m' \<Longrightarrow> H' \<subseteq> H \<Longrightarrow> keeps H' m m'"
  unfolding keeps_def by blast

lemma keeps_refl [simp]: "keeps H m m"
  by (simp add: keeps_def)

lemma keeps_unused_pages:
  assumes "heap_ok p F A B" and "\<And>a. a div 4096 \<notin> Q \<Longrightarrow> m a = memory p a" and "Q \<inter> used_pages p = {}"
  shows "keeps (held F A B) (memory p) m"
  using assms held_page_used [OF assms(1)] by (intro keepsI) blast

lemma keeps_header:
  assumes "heap_ok p F A B" and "(n, i) \<in> A"
  shows "keeps (held F A B) (memory p) (store32 (memory p) (4096 * n + 8) v)"
proof (rule keepsI)
  fix b l a assume b: "(b, l) \<in> held F A B" "a \<in> block_bytes (b, l)"
  then have "\<not> (4096 * n \<le> a \<and> a < 4096 * n + 12)"
    using held_not_header [OF assms(1) b] assms(2) by blast
  then show "store32 (memory p) (4096 * n + 8) v a = memory p a"
    by (intro store32_other) auto
qed

text \<open>Writing the three words of a header changes its page only.\<close>

lemma header_write:
  assumes "a div 4096 \<noteq> n"
  shows "store32 (store32 (store32 m (4096 * n) x) (4096 * n + 4) y) (4096 * n + 8) z a = m a"
proof -
  have "a < 4096 * n \<or> 4096 * n + 12 \<le> a"
    using assms page_split(1) [of "a - 4096 * n" n] by (cases "4096 * n \<le> a \<and> a < 4096 * n + 4096") auto
  then show ?thesis by (auto simp: store32_other)
qed

lemma malloc_big_ok:
  assumes inv: "malloc_inv s A B" and sz: "0 < sz" "sz + 4107 < 2 ^ 32"
  obtains "malloc_big sz s = Some (NULL, s)"
  | b l s' B' where "malloc_big sz s = Some (b, s')" "b \<noteq> NULL" "malloc_inv s' A B'" "sz \<le> l" "fl s' = fl s"
      "held (fl s) A B' = insert (b, l) (held (fl s) A B)" "\<And>l. (b, l) \<notin> held (fl s) A B"
      "keeps (held (fl s) A B) (memory (pal s)) (memory (pal s'))"
proof -
  have h: "heap_ok (pal s) (fl s) A B" and pinv: "palloc_inv (pal s)"
    using inv by (simp_all add: malloc_inv_def heap_ok_def)
  define c where "c = (sz + 4107) div 4096"
  have c: "DIV_ROUND_UP (size_t (sz + sizeof_arena)) PGSIZE = c" "0 < c" "sz \<le> 4096 * c - 12" "c < 2 ^ 32"
    using sz by (auto simp: DIV_ROUND_UP_def sizeof_arena_def c_def)
  show thesis
  proof (rule kernel_pages_get [OF pinv c(2)])
    assume "palloc_get_multiple 0 c (pal s) = Some (NULL, pal s)"
    then show thesis using that(1) c(1) by (simp add: malloc_big_def)
  next
    fix n q assume q: "palloc_get_multiple 0 c (pal s) = Some (4096 * n, q)" "palloc_inv q" "memory q = memory (pal s)"
        "0 < n" "used_pages q = used_pages (pal s) \<union> slot_range n c" "slot_range n c \<inter> used_pages (pal s) = {}"
    let ?m = "store32 (store32 (store32 (memory (pal s)) (4096 * n) ARENA_MAGIC) (4096 * n + 4) 0) (4096 * n + 8) c"
    let ?s = "s\<lparr>pal := q\<lparr>memory := ?m\<rparr>\<rparr>"
    have mb: "malloc_big sz s = Some (4096 * n + 12, ?s)"
      using q(1,3,4) c(1) by (simp add: malloc_big_def poke_def sizeof_arena_def)
    have hdr: "header ?m n = (ARENA_MAGIC, 0, c)"
      using header_stores(2) c(4) by (simp add: ARENA_MAGIC_def)
    have mem: "?m a = memory (pal s) a" if "a div 4096 \<notin> slot_range n c" for a
      using that c(2) by (intro header_write) auto
    note nb = new_big [OF h, of "q\<lparr>memory := ?m\<rparr>" c n, simplified, OF q(2) c(2) q(5) q(6) hdr mem]
    have "keeps (held (fl s) A B) (memory (pal s)) ?m"
      by (rule keeps_unused_pages [OF h mem q(6)])
    moreover have "(4096 * n + 12, l) \<notin> held (fl s) A B" for l
    proof
      assume l: "(4096 * n + 12, l) \<in> held (fl s) A B"
      then have "4096 * n + 12 \<in> block_bytes (4096 * n + 12, l)"
        using held_pos [OF h l] by simp
      then have "(4096 * n + 12) div 4096 \<in> used_pages (pal s)"
        by (rule held_page_used [OF h l])
      then have "n \<in> used_pages (pal s)" using page_split(1) [of 12 n] by simp
      moreover have "n \<in> slot_range n c" using c(2) by simp
      ultimately show False using q(6) by blast
    qed
    ultimately show thesis
      using that(2) [of "4096 * n + 12" ?s "insert (n, c) B" "4096 * c - 12"] mb nb c(3) inv
      by (simp add: malloc_inv_def)
  qed
qed

lemma malloc_arena_ok:
  assumes ok: "heap_ok (pal s) (fl s) A B" and d: "descs_ok s" and i: "i < 7"
  obtains "malloc_arena i s = Some (False, s)"
  | s' A' where "malloc_arena i s = Some (True, s')" "heap_ok (pal s') (fl s') A' B" "descs_ok s'" "fl s' i \<noteq> []"
      "held (fl s') A' B = held (fl s) A B" "keeps (held (fl s) A B) (memory (pal s)) (memory (pal s'))"
      "\<And>j. desc_lock (descs s' ! j) = desc_lock (descs s ! j)"
proof (cases "fl s i = []")
  case False
  then show thesis using that(2) [of s A] assms by (simp add: malloc_arena_def fl_def)
next
  case True
  have pinv: "palloc_inv (pal s)" using ok by (simp add: heap_ok_def)
  have len: "length (descs s) = 7" "blocks_per_arena (descs s ! i) = bcount i"
    using d i by (simp_all add: descs_ok_def)
  show thesis
  proof (rule kernel_pages_get [OF pinv, of 1])
    assume "palloc_get_multiple 0 1 (pal s) = Some (NULL, pal s)"
    then show thesis using that(1) True by (simp add: malloc_arena_def palloc_get_page_def fl_def)
  next
    fix n q assume q: "palloc_get_multiple 0 1 (pal s) = Some (4096 * n, q)" "palloc_inv q" "memory q = memory (pal s)"
        "0 < n" "n < 2 ^ 20" "used_pages q = used_pages (pal s) \<union> slot_range n 1" "slot_range n 1 \<inter> used_pages (pal s) = {}"
    let ?m = "store32 (store32 (store32 (memory (pal s)) (4096 * n) ARENA_MAGIC) (4096 * n + 4) (Suc i)) (4096 * n + 8) (bcount i)"
    let ?s1 = "s\<lparr>pal := q\<lparr>memory := ?m\<rparr>\<rparr>"
    let ?s = "upd_desc i (free_list_update (\<lambda>bs. bs @ map (blk n i) [0..<bcount i])) ?s1"
    have hdr: "header ?m n = (ARENA_MAGIC, Suc i, bcount i)"
      using header_stores(2) [of ARENA_MAGIC "Suc i" "bcount i"] bcount_le [of i] i by (simp add: ARENA_MAGIC_def)
    have mem: "?m a = memory (pal s) a" if "a div 4096 \<noteq> n" for a
      using that by (rule header_write)
    have used: "used_pages q = insert n (used_pages (pal s))" "n \<notin> used_pages (pal s)"
      using q(6,7) by auto
    have "add_blocks i (4096 * n) 0 (bcount i) ?s1 = Some ?s"
      using add_blocks_ok [of ?s1 i n "bcount i" 0 "bcount i"] d i q(4,5) hdr by simp
    then have ma: "malloc_arena i s = Some (True, ?s)"
      using q(1,3,4) True len(2) by (simp add: malloc_arena_def palloc_get_page_def fl_def poke_def)
    have fl: "fl ?s = (fl s)(i := map (blk n i) [0..<bcount i])"
      using True i len by (subst fl_upd) (simp_all add: fl_def)
    note na = new_arena [OF ok, of "q\<lparr>memory := ?m\<rparr>" i n, simplified, OF q(2) i True used hdr mem]
    have keeps: "keeps (held (fl s) A B) (memory (pal s)) ?m"
      using used(2) mem by (intro keeps_unused_pages [OF ok, of "{n}"]) auto
    show thesis
    proof (rule that(2) [OF ma])
      show "heap_ok (pal ?s) (fl ?s) (insert (n, i) A) B" "held (fl ?s) (insert (n, i) A) B = held (fl s) A B"
        using na unfolding fl by simp_all
      show "descs_ok ?s" using d i by (intro descs_ok_upd) simp_all
      show "fl ?s i \<noteq> []" using bcount_pos [OF i] by (simp add: fl)
      show "keeps (held (fl s) A B) (memory (pal s)) (memory (pal ?s))" using keeps by simp
      show "desc_lock (descs ?s ! j) = desc_lock (descs s ! j)" for j using i len by simp
    qed
  qed simp
qed

lemma malloc_pop_ok:
  assumes ok: "heap_ok (pal s) (fl s) A B" and d: "descs_ok s" and i: "i < 7" and ne: "fl s i \<noteq> []"
  obtains b s' where "malloc_pop i s = Some (b, s')" "heap_ok (pal s') (fl s') A B" "descs_ok s'"
      "held (fl s') A B = insert (b, bsize i) (held (fl s) A B)" "\<And>l. (b, l) \<notin> held (fl s) A B" "b \<noteq> NULL"
      "keeps (held (fl s) A B) (memory (pal s)) (memory (pal s'))"
      "\<And>j. desc_lock (descs s' ! j) = desc_lock (descs s ! j)"
proof -
  obtain b bs where F: "fl s i = b # bs" using ne by (cases "fl s i") auto
  have len: "length (descs s) = 7" using d by (simp add: descs_ok_def)
  obtain n k where k: "(n, i) \<in> A" "k < bcount i" "b = blk n i k" "0 < card (free_blocks (fl s) n i)"
    and h: "heap_ok ((pal s)\<lparr>memory := store32 (memory (pal s)) (4096 * n + 8) (card (free_blocks (fl s) n i) - 1)\<rparr>) ((fl s)(i := bs)) A B"
    and held: "held ((fl s)(i := bs)) A B = insert (b, bsize i) (held (fl s) A B)"
    and new: "\<And>l. (b, l) \<notin> held (fl s) A B"
    using take_block [of "pal s" "fl s" A B i b bs, OF ok i F] by metis
  let ?c = "card (free_blocks (fl s) n i)"
  have a: "n \<in> used_pages (pal s)" "header (memory (pal s)) n = (ARENA_MAGIC, i + 1, ?c)"
    using arenas_okD [of "memory (pal s)" "used_pages (pal s)" "fl s" A n i] k(1) ok by (simp_all add: heap_ok_def)
  have "palloc_inv (pal s)" using ok by (simp add: heap_ok_def)
  then have n: "0 < n" "n < 2 ^ 20" using used_pages_pos [OF _ a(1)] by blast+
  let ?s1 = "upd_desc i (free_list_update tl) s"
  have fl1: "fl ?s1 = (fl s)(i := bs)" using F i len by (subst fl_upd) (simp_all add: fl_def)
  have d1: "descs_ok ?s1" using d i by (intro descs_ok_upd) simp_all
  have ba: "block_to_arena b ?s1 = Some (4096 * n)"
    using arena_blocks(2) [OF d1 i n _ k(2), of ?c] a(2) k(3) by simp
  have "?c < 2 ^ 32"
    using a(2) load32_less [of "memory (pal s)" "4096 * n + 8"] by (auto simp: header_def)
  then have "size_t (arena_free_cnt (4096 * n) ?s1 + (2 ^ 32 - 1)) = ?c - 1"
    using a(2) size_t_dec [OF k(4)] by (simp add: header_fields)
  then have pop: "malloc_pop i s = Some (b, poke (4096 * n + 8) (?c - 1) ?s1)"
    using ba F by (simp add: malloc_pop_def fl_def)
  show thesis
  proof (rule that [OF pop])
    show "heap_ok (pal (poke (4096 * n + 8) (?c - 1) ?s1)) (fl (poke (4096 * n + 8) (?c - 1) ?s1)) A B"
      using h fl1 by simp
    show "keeps (held (fl s) A B) (memory (pal s)) (memory (pal (poke (4096 * n + 8) (?c - 1) ?s1)))"
      using keeps_header [OF ok k(1)] by simp
    show "b \<noteq> NULL" by (simp add: k(3) blk_def)
  qed (use d1 held new fl1 i len in simp_all)
qed

lemma malloc_inv_heap: "malloc_inv s A B \<Longrightarrow> heap_ok (pal s) (fl s) A B"
  by (simp add: malloc_inv_def)

lemma lock_unlock:
  assumes "length (descs s) = 7" "i < 7" "unlocked s"
  shows "upd_desc i (desc_lock_update (\<lambda>_. False)) (upd_desc i (desc_lock_update (\<lambda>_. True)) s) = s"
proof -
  have "\<not> desc_lock (descs s ! i)" using assms by (simp add: unlocked_def)
  then have "(descs s ! i)\<lparr>desc_lock := False\<rparr> = descs s ! i"
    by (cases "descs s ! i") simp
  then show ?thesis
    using assms(1,2) by (simp add: upd_desc_def)
qed

text \<open>
  A request of a reasonable size either fails and changes nothing, or returns a block of at least that
  size that was not held.
\<close>

lemma malloc_ok:
  assumes inv: "malloc_inv s A B" and sz: "sz + 4107 < 2 ^ 32"
  obtains "malloc sz s = Some (NULL, s)"
  | b l s' A' B' where "malloc sz s = Some (b, s')" "b \<noteq> NULL" "malloc_inv s' A' B'" "0 < sz" "sz \<le> l"
      "held (fl s') A' B' = insert (b, l) (held (fl s) A B)" "\<And>l. (b, l) \<notin> held (fl s) A B"
      "keeps (held (fl s) A B) (memory (pal s)) (memory (pal s'))"
proof (cases "sz = 0")
  case True
  then show thesis using that(1) by (simp add: malloc_def)
next
  case False
  define i where "i = find_desc (descs s) sz"
  have d: "descs_ok s" and un: "unlocked s" and ok: "heap_ok (pal s) (fl s) A B"
    using inv by (simp_all add: malloc_inv_def)
  then have len: "length (descs s) = 7" by (simp add: descs_ok_def)
  note fd = find_desc_cases [OF d, of sz, folded i_def]
  show thesis
  proof (cases "i = 7")
    case True
    then have m: "malloc sz s = malloc_big sz s" using False len by (simp add: malloc_def i_def)
    show thesis
    proof (rule malloc_big_ok [OF inv, of sz])
      show "0 < sz" "sz + 4107 < 2 ^ 32" using False sz by simp_all
      show thesis if "malloc_big sz s = Some (NULL, s)" using that m \<open>malloc sz s = Some (NULL, s) \<Longrightarrow> thesis\<close> by simp
      fix b l s' B'
      assume "malloc_big sz s = Some (b, s')" "b \<noteq> NULL" "malloc_inv s' A B'" "sz \<le> l" "fl s' = fl s"
        "held (fl s) A B' = insert (b, l) (held (fl s) A B)" "\<And>l. (b, l) \<notin> held (fl s) A B"
        "keeps (held (fl s) A B) (memory (pal s)) (memory (pal s'))"
      then show thesis using that(2) [of b s' A B' l] m False by simp
    qed
  next
    case small: False
    then have i: "i < 7" using fd(1) by simp
    let ?s1 = "upd_desc i (desc_lock_update (\<lambda>_. True)) s"
    let ?un = "upd_desc i (desc_lock_update (\<lambda>_. False))"
    have fl1: "fl ?s1 = fl s" using i len by (subst fl_upd) (simp_all add: fl_def fun_eq_iff)
    have d1: "descs_ok ?s1" using d i by (intro descs_ok_upd) simp_all
    have ok1: "heap_ok (pal ?s1) (fl ?s1) A B" using ok fl1 by simp
    have m: "malloc sz s = do {
        (ok, s) \<leftarrow> malloc_arena i ?s1;
        (b, s) \<leftarrow> (if ok then malloc_pop i s else Some (NULL, s));
        Some (b, ?un s)
      }"
      using False small un i len by (simp add: malloc_def i_def [symmetric] unlocked_def)
    show thesis
    proof (rule malloc_arena_ok [OF ok1 d1 i])
      assume "malloc_arena i ?s1 = Some (False, ?s1)"
      then show thesis using that(1) m lock_unlock [OF len i un] by simp
    next
      fix s2 A2
      assume s2: "malloc_arena i ?s1 = Some (True, s2)" "heap_ok (pal s2) (fl s2) A2 B" "descs_ok s2" "fl s2 i \<noteq> []"
        "held (fl s2) A2 B = held (fl ?s1) A B" "keeps (held (fl ?s1) A B) (memory (pal ?s1)) (memory (pal s2))"
        "\<And>j. desc_lock (descs s2 ! j) = desc_lock (descs ?s1 ! j)"
      obtain b s3 where s3: "malloc_pop i s2 = Some (b, s3)" "heap_ok (pal s3) (fl s3) A2 B" "descs_ok s3"
          "held (fl s3) A2 B = insert (b, bsize i) (held (fl s2) A2 B)" "\<And>l. (b, l) \<notin> held (fl s2) A2 B" "b \<noteq> NULL"
          "keeps (held (fl s2) A2 B) (memory (pal s2)) (memory (pal s3))"
          "\<And>j. desc_lock (descs s3 ! j) = desc_lock (descs s2 ! j)"
        using malloc_pop_ok [OF s2(2-3) i s2(4)] by blast
      have len3: "length (descs s3) = 7" using s3(3) by (simp add: descs_ok_def)
      have fl3: "fl (?un s3) = fl s3" using i len3 by (subst fl_upd) (simp_all add: fl_def fun_eq_iff)
      have "descs_ok (?un s3)" using s3(3) i by (intro descs_ok_upd) simp_all
      moreover have "unlocked (?un s3)"
        using s3(8) s2(7) un i len len3 by (auto simp: unlocked_def)
      ultimately have "malloc_inv (?un s3) A2 B" using s3(2) fl3 by (simp add: malloc_inv_def)
      moreover have "malloc sz s = Some (b, ?un s3)" using m s2(1) s3(1) by simp
      moreover have "keeps (held (fl s) A B) (memory (pal s)) (memory (pal s3))"
        using keeps_trans s2(5,6) s3(7) fl1 by (metis upd_desc_simps(1))
      ultimately show thesis
        using that(2) [of b "?un s3" A2 B "bsize i"] s3(4-6) s2(5) fl1 fl3 fd(2) i False by simp
    qed
  qed
qed

text \<open>A block that is held can be freed; the other blocks keep their contents.\<close>

lemma free_big_ok:
  assumes inv: "malloc_inv s A B" and c: "(n, c) \<in> B"
  obtains s' where "free (4096 * n + 12) s = Some s'" "malloc_inv s' A (B - {(n, c)})"
    "held (fl s') A (B - {(n, c)}) = held (fl s) A B - {(4096 * n + 12, 4096 * c - 12)}"
    "keeps (held (fl s') A (B - {(n, c)})) (memory (pal s)) (memory (pal s'))"
proof -
  have ok: "heap_ok (pal s) (fl s) A B" using inv by (rule malloc_inv_heap)
  have b: "0 < c" "slot_range n c \<subseteq> used_pages (pal s)" "header (memory (pal s)) n = (ARENA_MAGIC, 0, c)"
    using bigs_okD [of "memory (pal s)" "used_pages (pal s)" B n c] c ok by (simp_all add: heap_ok_def)
  have pinv: "palloc_inv (pal s)" using ok by (simp add: heap_ok_def)
  have "n \<in> slot_range n c" using b(1) by simp
  then have n: "0 < n" "n < 2 ^ 20" using used_pages_pos [OF pinv] b(2) by blast+
  obtain q where q: "palloc_free_multiple (4096 * n) c (pal s) = Some q" "palloc_inv q"
      "used_pages q = used_pages (pal s) - slot_range n c" "\<And>a. a div 4096 \<notin> slot_range n c \<Longrightarrow> memory q a = memory (pal s) a"
    using kernel_pages_free [OF pinv b(1,2)] by blast
  have "4096 * n + 12 < 2 ^ 32" using n(2) by simp
  then have "pg_round_down (4096 * n + 12) = 4096 * n"
    using page_split(1) [of 12 n] by (simp only: pg_round_down_eq minus_mod_eq_div_mult mult.commute)
  then have "block_to_arena (4096 * n + 12) s = Some (4096 * n)"
    using b(3) n(1) page_split(2) [of 12 n]
    by (simp add: block_to_arena_def header_fields pg_ofs_mod sizeof_arena_def)
  then have free: "free (4096 * n + 12) s = Some (s\<lparr>pal := q\<rparr>)"
    using b(3) q(1) by (simp add: free_def header_fields)
  note db = drop_big [OF ok c q(2-4)]
  have "keeps (held (fl s) A (B - {(n, c)})) (memory (pal s)) (memory q)"
  proof (rule keepsI, rule q(4), rule notI)
    fix b l a
    assume h: "(b, l) \<in> held (fl s) A (B - {(n, c)})" "a \<in> block_bytes (b, l)" "a div 4096 \<in> slot_range n c"
    then have "a div 4096 \<in> used_pages q" using held_page_used [OF db(1)] by blast
    then show False using h(3) q(3) by blast
  qed
  then show thesis
    using that [OF free] db inv by (simp add: malloc_inv_def)
qed

lemma free_arena_ok:
  assumes ok: "heap_ok (pal s) (fl s) A B" and d: "descs_ok s" and n: "(n, i) \<in> A"
  obtains s' A' where "free_arena i (4096 * n) s = Some s'" "heap_ok (pal s') (fl s') A' B" "descs_ok s'"
    "held (fl s') A' B = held (fl s) A B" "keeps (held (fl s) A B) (memory (pal s)) (memory (pal s'))"
    "\<And>j. desc_lock (descs s' ! j) = desc_lock (descs s ! j)"
proof -
  have pinv: "palloc_inv (pal s)" and l: "lists_ok (fl s) A" using ok by (simp_all add: heap_ok_def)
  let ?c = "card (free_blocks (fl s) n i)"
  have a: "i < 7" "n \<in> used_pages (pal s)" "header (memory (pal s)) n = (ARENA_MAGIC, i + 1, ?c)"
    using arenas_okD [of "memory (pal s)" "used_pages (pal s)" "fl s" A n i] n ok by (simp_all add: heap_ok_def)
  have np: "0 < n" "n < 2 ^ 20" using used_pages_pos [OF pinv a(2)] by blast+
  have len: "length (descs s) = 7" "blocks_per_arena (descs s ! i) = bcount i"
    using d a(1) by (simp_all add: descs_ok_def)
  have sub: "free_blocks (fl s) n i \<subseteq> {..<bcount i}" by (auto simp: free_blocks_def)
  then have le: "?c \<le> bcount i" using card_mono [OF _ sub] by simp
  show thesis
  proof (cases "?c = bcount i")
    case False
    then have "free_arena i (4096 * n) s = Some s"
      using a(3) len le by (simp add: free_arena_def header_fields)
    then show thesis using that [of s A] ok d by simp
  next
    case True
    then have all: "free_blocks (fl s) n i = {..<bcount i}"
      using card_subset_eq [OF _ sub] by simp
    let ?s1 = "upd_desc i (free_list_update (filter (\<lambda>b. b \<notin> blk n i ` {0..<bcount i}))) s"
    have "remove_blocks i (4096 * n) 0 (bcount i) s = Some ?s1"
      using all by (intro remove_blocks_ok [OF d a(1) np a(3)]) (auto simp: free_blocks_def)
    moreover obtain q where q: "palloc_free_multiple (4096 * n) 1 (pal s) = Some q" "palloc_inv q"
        "used_pages q = used_pages (pal s) - slot_range n 1" "\<And>a. a div 4096 \<notin> slot_range n 1 \<Longrightarrow> memory q a = memory (pal s) a"
      using kernel_pages_free [OF pinv, of 1 n] a(2) by auto
    ultimately have fa: "free_arena i (4096 * n) s = Some (?s1\<lparr>pal := q\<rparr>)"
      using a(3) len True by (simp add: free_arena_def header_fields palloc_free_page_def)
    have "b \<notin> blk n i ` {0..<bcount i} \<longleftrightarrow> b div 4096 \<noteq> n" if b: "b \<in> set (fl s i)" for b
    proof -
      obtain m k where k: "k < bcount i" "b = blk m i k" using lists_okD [OF l a(1)] b by blast
      then show ?thesis using blk_page(1) [OF k(1), of m] blk_page(1) [of _ i n] by auto
    qed
    then have "filter (\<lambda>b. b \<notin> blk n i ` {0..<bcount i}) (fl s i) = filter (\<lambda>b. b div 4096 \<noteq> n) (fl s i)"
      by (intro filter_cong) auto
    then have fl: "fl ?s1 = (fl s)(i := filter (\<lambda>b. b div 4096 \<noteq> n) (fl s i))"
      using a(1) len by (subst fl_upd) (simp_all add: fl_def)
    have used: "used_pages q = used_pages (pal s) - {n}" and mem: "\<And>a. a div 4096 \<noteq> n \<Longrightarrow> memory q a = memory (pal s) a"
      using q(3,4) by auto
    note da = drop_arena [OF ok n all q(2) used mem]
    have "keeps (held (fl s) A B) (memory (pal s)) (memory q)"
    proof (rule keepsI, rule mem, rule notI)
      fix b l a assume h: "(b, l) \<in> held (fl s) A B" "a \<in> block_bytes (b, l)" "a div 4096 = n"
      then have "a div 4096 \<in> used_pages q" using held_page_used [OF da(1)] da(2) by blast
      then show False using h(3) used by blast
    qed
    moreover have "descs_ok ?s1" using d a(1) by (intro descs_ok_upd) simp_all
    ultimately show thesis
      using that [OF fa, of "A - {(n, i)}"] da a(1) len fl by simp
  qed
qed

lemma free_small_ok:
  assumes inv: "malloc_inv s A B" and k: "(n, i) \<in> A" "k < bcount i" "blk n i k \<notin> set (fl s i)"
  obtains s' A' where "free (blk n i k) s = Some s'" "malloc_inv s' A' B"
    "held (fl s') A' B = held (fl s) A B - {(blk n i k, bsize i)}"
    "keeps (held (fl s') A' B) (memory (pal s)) (memory (pal s'))"
proof -
  let ?b = "blk n i k" and ?c = "card (free_blocks (fl s) n i)"
  have ok: "heap_ok (pal s) (fl s) A B" and d: "descs_ok s" and un: "unlocked s"
    using inv by (simp_all add: malloc_inv_def)
  have pinv: "palloc_inv (pal s)" using ok by (simp add: heap_ok_def)
  have a: "i < 7" "n \<in> used_pages (pal s)" "header (memory (pal s)) n = (ARENA_MAGIC, i + 1, ?c)"
    using arenas_okD [of "memory (pal s)" "used_pages (pal s)" "fl s" A n i] k(1) ok by (simp_all add: heap_ok_def)
  have np: "0 < n" "n < 2 ^ 20" using used_pages_pos [OF pinv a(2)] by blast+
  have len: "length (descs s) = 7" "block_size (descs s ! i) = bsize i"
    using d a(1) by (simp_all add: descs_ok_def)
  let ?m = "memset_loop (memory (pal s)) ?b 0xcc (bsize i)"
  have m: "?m a = memory (pal s) a" if "a \<notin> block_bytes (?b, bsize i)" for a
    using that by (auto simp: memset_loop_correct)
  note pb = put_block [OF ok k, of ?m, OF m]
  let ?s1 = "upd_desc i (desc_lock_update (\<lambda>_. True)) (s\<lparr>pal := (pal s)\<lparr>memory := ?m\<rparr>\<rparr>)"
  let ?s2 = "poke (4096 * n + 8) (?c + 1) (upd_desc i (free_list_update (\<lambda>bs. ?b # bs)) ?s1)"
  have fl2: "fl ?s2 = (fl s)(i := ?b # fl s i)"
    using a(1) len by (auto simp: fl_upd fun_eq_iff) (auto simp: fl_def)
  have d2: "descs_ok ?s2" using d a(1) by (simp add: descs_ok_upd)
  have ok2: "heap_ok (pal ?s2) (fl ?s2) A B" unfolding fl2 using pb(1) by simp
  obtain s3 A3 where s3: "free_arena i (4096 * n) ?s2 = Some s3" "heap_ok (pal s3) (fl s3) A3 B" "descs_ok s3"
      "held (fl s3) A3 B = held (fl ?s2) A B" "keeps (held (fl ?s2) A B) (memory (pal ?s2)) (memory (pal s3))"
      "\<And>j. desc_lock (descs s3 ! j) = desc_lock (descs ?s2 ! j)"
    using free_arena_ok [OF ok2 d2 k(1)] by blast
  let ?s = "upd_desc i (desc_lock_update (\<lambda>_. False)) s3"
  have ba: "block_to_arena ?b s = Some (4096 * n)"
    using arena_blocks(2) [OF d a(1) np a(3) k(2)] .
  have cnt: "arena_free_cnt (4096 * n) (upd_desc i (free_list_update (\<lambda>bs. ?b # bs)) ?s1) = ?c"
    using pb(3) by (simp add: header_def arena_free_cnt_def)
  have st: "size_t (?c + 1) = ?c + 1" using pb(5) bcount_le [of i] by simp
  have nz: "?b \<noteq> NULL" by (simp add: blk_def)
  have "memset (memory (pal s)) ?b 0xcc (block_size (descs s ! i)) = Some (?b, ?m)"
    using nz len(2) by (simp add: memset_def)
  moreover have "arena_desc (4096 * n) s = i + 1" "\<not> desc_lock (descs s ! i)"
    using a(1,3) un by (simp_all add: header_fields unlocked_def)
  ultimately have free: "free ?b s = Some ?s"
    using ba nz s3(1) cnt st unfolding free_def by simp
  have len3: "length (descs s3) = 7" using s3(3) by (simp add: descs_ok_def)
  have fl3: "fl ?s = fl s3" using a(1) len3 by (subst fl_upd) (simp_all add: fl_def fun_eq_iff)
  have "unlocked ?s"
    using s3(6) un a(1) len len3 by (auto simp: unlocked_def)
  moreover have "descs_ok ?s" using s3(3) a(1) by (intro descs_ok_upd) simp_all
  ultimately have inv': "malloc_inv ?s A3 B" using s3(2) fl3 by (simp add: malloc_inv_def)
  have held: "held (fl ?s) A3 B = held (fl s) A B - {(?b, bsize i)}"
    using s3(4) pb(2) fl2 fl3 by simp
  have "keeps (held (fl s) A B - {(?b, bsize i)}) (memory (pal s)) (memory (pal ?s2))"
  proof (rule keepsI)
    fix x l a assume x: "(x, l) \<in> held (fl s) A B - {(?b, bsize i)}" "a \<in> block_bytes (x, l)"
    have hb: "(?b, bsize i) \<in> held (fl s) A B" using k by (auto simp: held_iff)
    have "a \<notin> block_bytes (?b, bsize i)"
    proof (cases "x = ?b")
      case True
      then have "l = bsize i"
        using x(1) held_size_unique [OF ok _ hb, of l] by simp
      then show ?thesis using x(1) True by simp
    next
      case False
      then show ?thesis using held_disjoint [OF ok _ hb False, of l] x by blast
    qed
    moreover have "\<not> (4096 * n \<le> a \<and> a < 4096 * n + 12)"
      using held_not_header [OF ok _ x(2), of n i] x(1) k(1) by blast
    then have "a < 4096 * n + 8 \<or> 4096 * n + 8 + 4 \<le> a" by auto
    ultimately show "memory (pal ?s2) a = memory (pal s) a"
      using m [of a] store32_other [of a "4096 * n + 8" ?m "?c + 1"] by simp
  qed
  moreover have "keeps (held (fl s) A B - {(?b, bsize i)}) (memory (pal ?s2)) (memory (pal s3))"
    using s3(5) pb(2) unfolding fl2 by simp
  ultimately have "keeps (held (fl ?s) A3 B) (memory (pal s)) (memory (pal ?s))"
    unfolding held by (simp add: keeps_trans)
  then show thesis using that [OF free inv' held] by blast
qed

lemma free_ok:
  assumes inv: "malloc_inv s A B" and b: "(b, l) \<in> held (fl s) A B"
  obtains s' A' B' where "free b s = Some s'" "malloc_inv s' A' B'" "held (fl s') A' B' = held (fl s) A B - {(b, l)}"
    "keeps (held (fl s') A' B') (memory (pal s)) (memory (pal s'))"
proof -
  consider (small) n i k where "(n, i) \<in> A" "k < bcount i" "b = blk n i k" "l = bsize i" "b \<notin> set (fl s i)"
    | (big) n c where "(n, c) \<in> B" "b = 4096 * n + 12" "l = 4096 * c - 12"
    using b unfolding held_iff by blast
  then show thesis
  proof cases
    case small
    then show thesis using free_small_ok [OF inv small(1,2)] that by metis
  next
    case big
    then show thesis using free_big_ok [OF inv big(1)] that by metis
  qed
qed

lemma write_held:
  assumes ok: "heap_ok p F A B" and b: "(b, l) \<in> held F A B" "a \<in> block_bytes (b, l)"
  shows "heap_ok (p\<lparr>memory := (memory p)(a := v)\<rparr>) F A B"
proof -
  have o: "arenas_ok (memory p) (used_pages p) F A" "bigs_ok (memory p) (used_pages p) B"
    using ok by (simp_all add: heap_ok_def)
  have h: "header ((memory p)(a := v)) n = header (memory p) n" if "(n, i) \<in> A \<or> (n, c) \<in> B" for n i c
    using held_not_header [OF ok b that] by (intro header_cong) auto
  have "arenas_ok ((memory p)(a := v)) (used_pages p) F A"
    by (rule arenas_ok_I) (metis h arenas_okD [OF o(1)])
  moreover have "bigs_ok ((memory p)(a := v)) (used_pages p) B"
    by (rule bigs_ok_I) (metis h bigs_okD [OF o(2)])
  ultimately show ?thesis using ok by (simp add: heap_ok_def)
qed

lemma malloc_init_ok:
  assumes "palloc_inv p"
  obtains s where "malloc_init p = Some s" "malloc_inv s {} {}" "pal s = p"
proof -
  define f :: "nat \<Rightarrow> desc" where
    "f = (\<lambda>i. \<lparr>block_size = bsize i, blocks_per_arena = bcount i, free_list = [], desc_lock = False\<rparr>)"
  have step: "malloc_init_loop (bsize i) \<lparr>pal = p, descs = map f [0..<i]\<rparr> =
      malloc_init_loop (bsize (Suc i)) \<lparr>pal = p, descs = map f [0..<Suc i]\<rparr>" if "i < 7" for i
  proof -
    have "(2 :: nat) ^ i \<le> 2 ^ 6" using that by (intro power_increasing) auto
    then have "bsize i < 2048" "size_t (bsize i * 2) = bsize (Suc i)" by (simp_all add: bsize_def)
    then show ?thesis
      using that by (subst malloc_init_loop.simps) (simp add: f_def bcount_def sizeof_arena_def)
  qed
  have "malloc_init_loop (bsize 0) \<lparr>pal = p, descs = map f [0..<0]\<rparr> =
      malloc_init_loop (bsize i) \<lparr>pal = p, descs = map f [0..<i]\<rparr>" if "i \<le> 7" for i
    using that by (induction i) (simp_all add: step del: upt_Suc)
  from this [of 7] have "malloc_init p = malloc_init_loop (bsize 7) \<lparr>pal = p, descs = map f [0..<7]\<rparr>"
    by (simp add: malloc_init_def bsize_def)
  also have "\<dots> = Some \<lparr>pal = p, descs = map f [0..<7]\<rparr>"
    by (subst malloc_init_loop.simps) (simp add: bsize_def)
  finally have m: "malloc_init p = Some \<lparr>pal = p, descs = map f [0..<7]\<rparr>" .
  have "fl \<lparr>pal = p, descs = map f [0..<7]\<rparr> i = []" if "i < 7" for i
    using that by (simp add: fl_def f_def)
  then have "malloc_inv \<lparr>pal = p, descs = map f [0..<7]\<rparr> {} {}"
    using assms by (auto simp: malloc_inv_def descs_ok_def unlocked_def heap_ok_def arenas_ok_def bigs_ok_def
        apart_def lists_ok_def f_def)
  then show thesis using that m by simp
qed

section \<open>Clients of the allocator\<close>

text \<open>
  What clients do: request a block, free a block they hold, and write a byte of a block they hold.
  Next to the state runs the list of the blocks they hold with the contents they expect.  Requests
  outside the contract, of 2 GB or more or for blocks not held, are not made.
\<close>

datatype heap_op = Malloc nat | Free nat | Write nat nat u8

definition heap_step :: "heap_op \<Rightarrow> kmalloc \<times> (addr \<times> u8 list) list \<Rightarrow> (kmalloc \<times> (addr \<times> u8 list) list) option" where
  "heap_step op sl = (case sl of (s, live) \<Rightarrow> case op of
     Malloc sz \<Rightarrow>
       if sz < 2 ^ 31 then do {
         (b, s) \<leftarrow> malloc sz s;
         Some (s, if b = NULL then live else (b, map (memory (pal s)) [b..<b + sz]) # live)
       }
       else Some (s, live)
   | Free i \<Rightarrow>
       if i < length live then do {
         s \<leftarrow> free (fst (live ! i)) s;
         Some (s, take i live @ drop (i + 1) live)
       }
       else Some (s, live)
   | Write i j v \<Rightarrow>
       if i < length live \<and> j < length (snd (live ! i)) then
         let (b, bs) = live ! i in
         Some (s\<lparr>pal := (pal s)\<lparr>memory := (memory (pal s))(b + j := v)\<rparr>\<rparr>, live[i := (b, bs[j := v])])
       else Some (s, live))"

primrec heap_run :: "heap_op list \<Rightarrow> kmalloc \<times> (addr \<times> u8 list) list \<Rightarrow> (kmalloc \<times> (addr \<times> u8 list) list) option" where
  "heap_run [] sl = Some sl"
| "heap_run (op # ops) sl = do { sl \<leftarrow> heap_step op sl; heap_run ops sl }"

text \<open>The blocks do not overlap and hold what was written to them.\<close>

definition blocks_intact :: "mem \<Rightarrow> (addr \<times> u8 list) list \<Rightarrow> bool" where
  "blocks_intact m live \<longleftrightarrow>
     (\<forall>(b, bs)\<in>set live. \<forall>j<length bs. m (b + j) = bs ! j) \<and>
     sorted_wrt (\<lambda>(b, bs) (b', bs'). {b..<b + length bs} \<inter> {b'..<b' + length bs'} = {}) live"

definition client_inv :: "kmalloc \<Rightarrow> (addr \<times> u8 list) list \<Rightarrow> (nat \<times> nat) set \<Rightarrow> (nat \<times> nat) set \<Rightarrow> bool" where
  "client_inv s live A B \<longleftrightarrow> malloc_inv s A B \<and> distinct (map fst live) \<and>
     (\<forall>(b, bs)\<in>set live. (\<exists>l. (b, l) \<in> held (fl s) A B \<and> length bs \<le> l) \<and>
        (\<forall>j<length bs. memory (pal s) (b + j) = bs ! j))"

lemma client_invD:
  assumes "client_inv s live A B" and "(b, bs) \<in> set live"
  obtains l where "(b, l) \<in> held (fl s) A B" "length bs \<le> l" "\<And>j. j < length bs \<Longrightarrow> memory (pal s) (b + j) = bs ! j"
  using assms unfolding client_inv_def by fast

lemma client_invI:
  assumes "malloc_inv s A B" "distinct (map fst live)"
    and "\<And>b bs. (b, bs) \<in> set live \<Longrightarrow> (\<exists>l. (b, l) \<in> held (fl s) A B \<and> length bs \<le> l) \<and>
        (\<forall>j<length bs. memory (pal s) (b + j) = bs ! j)"
  shows "client_inv s live A B"
  using assms by (auto simp: client_inv_def)

lemma client_inv_intact:
  assumes c: "client_inv s live A B"
  shows "blocks_intact (memory (pal s)) live"
proof -
  have ok: "heap_ok (pal s) (fl s) A B" using c by (simp add: client_inv_def malloc_inv_def)
  have d: "{fst x..<fst x + length (snd x)} \<inter> {fst y..<fst y + length (snd y)} = {}"
    if xy: "x \<in> set live" "y \<in> set live" "fst x \<noteq> fst y" for x y
  proof -
    obtain l where l: "(fst x, l) \<in> held (fl s) A B" "length (snd x) \<le> l"
      using client_invD [OF c, of "fst x" "snd x"] xy(1) by auto
    obtain l' where l': "(fst y, l') \<in> held (fl s) A B" "length (snd y) \<le> l'"
      using client_invD [OF c, of "fst y" "snd y"] xy(2) by auto
    show ?thesis using held_disjoint [OF ok l(1) l'(1) xy(3)] l(2) l'(2) by fastforce
  qed
  have "sorted_wrt (\<lambda>x y. fst x \<noteq> fst y) live"
    using c by (simp add: client_inv_def distinct_conv_nth sorted_wrt_iff_nth_less)
  then have "sorted_wrt (\<lambda>x y. {fst x..<fst x + length (snd x)} \<inter> {fst y..<fst y + length (snd y)} = {}) live"
    using d by (rule sorted_wrt_mono_rel [rotated])
  moreover have "\<forall>(b, bs)\<in>set live. \<forall>j<length bs. memory (pal s) (b + j) = bs ! j"
    using c by (auto simp: client_inv_def)
  ultimately show ?thesis by (simp add: blocks_intact_def case_prod_unfold)
qed

lemma keepsD: "keeps H m m' \<Longrightarrow> (b, l) \<in> H \<Longrightarrow> j < l \<Longrightarrow> m' (b + j) = m (b + j)"
  unfolding keeps_def by fastforce

text \<open>A step that keeps the held blocks the clients still use keeps the invariant for them.\<close>

lemma client_inv_step:
  assumes c: "client_inv s live A B" and inv: "malloc_inv s' A' B'"
    and k: "keeps H (memory (pal s)) (memory (pal s'))" and H: "H \<subseteq> held (fl s') A' B'"
    and sub: "set live' \<subseteq> set live" "distinct (map fst live')"
    and stay: "\<And>b bs l. (b, bs) \<in> set live' \<Longrightarrow> (b, l) \<in> held (fl s) A B \<Longrightarrow> (b, l) \<in> H"
  shows "client_inv s' live' A' B'"
proof (rule client_invI [OF inv sub(2)])
  fix b bs assume b: "(b, bs) \<in> set live'"
  then have "(b, bs) \<in> set live" using sub(1) by blast
  then obtain l where l: "(b, l) \<in> held (fl s) A B" "length bs \<le> l" "\<And>j. j < length bs \<Longrightarrow> memory (pal s) (b + j) = bs ! j"
    using client_invD [OF c] by blast
  then have h: "(b, l) \<in> H" using stay b by blast
  then have "memory (pal s') (b + j) = bs ! j" if "j < length bs" for j
    using keepsD [OF k h, of j] l(2,3) that by simp
  then show "(\<exists>l. (b, l) \<in> held (fl s') A' B' \<and> length bs \<le> l) \<and> (\<forall>j<length bs. memory (pal s') (b + j) = bs ! j)"
    using h H l(2) by blast
qed

lemma client_malloc:
  assumes c: "client_inv s live A B" and sz: "sz < 2 ^ 31"
  shows "\<exists>s' live' A' B'. heap_step (Malloc sz) (s, live) = Some (s', live') \<and> client_inv s' live' A' B'"
proof (rule malloc_ok [of s A B sz])
  show "malloc_inv s A B" "sz + 4107 < 2 ^ 32" using c sz by (simp_all add: client_inv_def)
  show ?thesis if "malloc sz s = Some (NULL, s)"
    using that c sz by (auto simp: heap_step_def)
  fix b l s' A' B'
  assume m: "malloc sz s = Some (b, s')" "b \<noteq> NULL" "malloc_inv s' A' B'" "0 < sz" "sz \<le> l"
    "held (fl s') A' B' = insert (b, l) (held (fl s) A B)" "\<And>l. (b, l) \<notin> held (fl s) A B"
    "keeps (held (fl s) A B) (memory (pal s)) (memory (pal s'))"
  have old: "client_inv s' live A' B'"
    using c by (intro client_inv_step [OF c m(3,8)]) (auto simp: client_inv_def m(6))
  have "b \<notin> fst ` set live"
  proof
    assume "b \<in> fst ` set live"
    then obtain bs where "(b, bs) \<in> set live" by auto
    then show False using client_invD [OF c, of b bs] m(7) by blast
  qed
  moreover have "(b, l) \<in> held (fl s') A' B'" using m(6) by simp
  ultimately have "client_inv s' ((b, map (memory (pal s')) [b..<b + sz]) # live) A' B'"
    using old m(5) unfolding client_inv_def by auto
  then show ?thesis using m(1,2) sz by (auto simp: heap_step_def)
qed

lemma client_free:
  assumes c: "client_inv s live A B" and i: "i < length live"
  shows "\<exists>s' live' A' B'. heap_step (Free i) (s, live) = Some (s', live') \<and> client_inv s' live' A' B'"
proof -
  obtain b bs where b: "live ! i = (b, bs)" by fastforce
  then have mem: "(b, bs) \<in> set live" using nth_mem [of i live] i by simp
  obtain l where l: "(b, l) \<in> held (fl s) A B" using client_invD [OF c mem] by blast
  have inv: "malloc_inv s A B" and ok: "heap_ok (pal s) (fl s) A B" and dist: "distinct (map fst live)"
    using c by (simp_all add: client_inv_def malloc_inv_def)
  obtain s' A' B' where f: "free b s = Some s'" "malloc_inv s' A' B'" "held (fl s') A' B' = held (fl s) A B - {(b, l)}"
      "keeps (held (fl s') A' B') (memory (pal s)) (memory (pal s'))"
    using free_ok [OF inv l] by blast
  let ?live = "take i live @ drop (i + 1) live"
  have split: "live = take i live @ (b, bs) # drop (i + 1) live"
    using id_take_nth_drop [OF i] b by simp
  then have "distinct (map fst (take i live @ (b, bs) # drop (i + 1) live))"
    using dist by simp
  then have d: "distinct (map fst ?live)" "b \<notin> fst ` set ?live" by auto
  have sub: "set ?live \<subseteq> set live" using set_take_subset set_drop_subset by (metis Un_least set_append)
  have "client_inv s' ?live A' B'"
  proof (rule client_inv_step [OF c f(2,4) subset_refl sub d(1)])
    fix x xs m assume "(x, xs) \<in> set ?live" "(x, m) \<in> held (fl s) A B"
    moreover from this have "x \<noteq> b" using d(2) by force
    ultimately show "(x, m) \<in> held (fl s') A' B'" using f(3) by simp
  qed
  then show ?thesis using f(1) i b by (auto simp: heap_step_def)
qed

lemma client_write:
  assumes c: "client_inv s live A B" and i: "i < length live" "j < length (snd (live ! i))"
  shows "\<exists>s' live' A' B'. heap_step (Write i j v) (s, live) = Some (s', live') \<and> client_inv s' live' A' B'"
proof -
  obtain b bs where b: "live ! i = (b, bs)" by fastforce
  then have mem: "(b, bs) \<in> set live" using nth_mem [of i live] i by simp
  obtain l where l: "(b, l) \<in> held (fl s) A B" "length bs \<le> l" "\<And>j. j < length bs \<Longrightarrow> memory (pal s) (b + j) = bs ! j"
    using client_invD [OF c mem] by blast
  have ok: "heap_ok (pal s) (fl s) A B" and inv: "malloc_inv s A B" and dist: "distinct (map fst live)"
    using c by (simp_all add: client_inv_def malloc_inv_def)
  have bj: "b + j \<in> block_bytes (b, l)" using i(2) l(2) b by simp
  let ?s = "s\<lparr>pal := (pal s)\<lparr>memory := (memory (pal s))(b + j := v)\<rparr>\<rparr>"
  have inv': "malloc_inv ?s A B" using write_held [OF ok l(1) bj] inv by (simp add: malloc_inv_def)
  have "client_inv ?s (live[i := (b, bs[j := v])]) A B"
  proof (rule client_invI [OF inv'])
    have "map fst (live[i := (b, bs[j := v])]) = map fst live"
      using i b by (simp add: map_update list_update_same_conv)
    then show "distinct (map fst (live[i := (b, bs[j := v])]))" using dist by simp
    fix x xs assume "(x, xs) \<in> set (live[i := (b, bs[j := v])])"
    then obtain k where k: "k < length live" "live[i := (b, bs[j := v])] ! k = (x, xs)"
      by (auto simp: in_set_conv_nth)
    show "(\<exists>l. (x, l) \<in> held (fl ?s) A B \<and> length xs \<le> l) \<and> (\<forall>j<length xs. memory (pal ?s) (x + j) = xs ! j)"
    proof (cases "k = i")
      case True
      then show ?thesis using k l i by (auto simp: nth_list_update)
    next
      case False
      then have kx: "live ! k = (x, xs)" using k(2) by simp
      then have "x \<noteq> b"
        using nth_eq_iff_index_eq [OF dist, of k i] k(1) i(1) b False by simp
      moreover obtain m where m: "(x, m) \<in> held (fl s) A B" "length xs \<le> m" "\<And>j. j < length xs \<Longrightarrow> memory (pal s) (x + j) = xs ! j"
        using client_invD [OF c, of x xs] kx nth_mem [OF k(1)] by auto
      ultimately have "b + j \<notin> block_bytes (x, m)" using held_disjoint [OF ok m(1) l(1)] bj by blast
      then have "memory (pal ?s) (x + j') = xs ! j'" if "j' < length xs" for j'
        using m(2,3) that by auto
      then show ?thesis using m(1,2) by auto
    qed
  qed
  then show ?thesis using i b by (auto simp: heap_step_def)
qed

lemma client_run:
  assumes "client_inv s live A B"
  shows "\<exists>s' live'. heap_run ops (s, live) = Some (s', live') \<and> (\<exists>A' B'. client_inv s' live' A' B')"
  using assms
proof (induction ops arbitrary: s live A B)
  case (Cons op ops)
  have "\<exists>s' live' A' B'. heap_step op (s, live) = Some (s', live') \<and> client_inv s' live' A' B'"
  proof (cases op)
    case (Malloc sz)
    then show ?thesis using client_malloc [OF Cons.prems, of sz] Cons.prems
      by (cases "sz < 2 ^ 31") (auto simp: heap_step_def)
  next
    case (Free i)
    then show ?thesis using client_free [OF Cons.prems, of i] Cons.prems
      by (cases "i < length live") (auto simp: heap_step_def)
  next
    case (Write i j v)
    then show ?thesis using client_write [OF Cons.prems, of i j v] Cons.prems
      by (cases "i < length live \<and> j < length (snd (live ! i))") (auto simp: heap_step_def)
  qed
  then show ?case using Cons.IH by fastforce
qed auto



text \<open>
  Sizes close to \<open>2 ^ 32\<close> are not rejected: the size of the arena header is added without a check, so a
  request for almost 4 GB is answered with a single page.
\<close>

lemma malloc_size_wraps:
  assumes "descs_ok s" and "palloc_get_multiple 0 1 (pal s) = Some (a, q)" and "a \<noteq> NULL"
  shows "\<exists>s'. malloc (2 ^ 32 - 11) s = Some (a + 12, s')"
proof -
  have "find_desc (descs s) (2 ^ 32 - 11) = length (descs s)"
  proof (rule ccontr)
    assume "find_desc (descs s) (2 ^ 32 - 11) \<noteq> length (descs s)"
    then have i: "find_desc (descs s) (2 ^ 32 - 11) < 7"
      using find_desc_cases(1) [OF assms(1), of "2 ^ 32 - 11"] assms(1) by (simp add: descs_ok_def)
    then have "(2 :: nat) ^ find_desc (descs s) (2 ^ 32 - 11) \<le> 2 ^ 6" by (intro power_increasing) auto
    then show False
      using find_desc_cases(2) [OF assms(1) i] by (simp add: bsize_def)
  qed
  moreover have "DIV_ROUND_UP (size_t (2 ^ 32 - 11 + sizeof_arena)) PGSIZE = 1"
    by (simp add: DIV_ROUND_UP_def sizeof_arena_def size_t_def)
  ultimately show ?thesis
    using assms(2,3) by (simp add: malloc_def malloc_big_def sizeof_arena_def del: One_nat_def)
qed

text \<open>The overflow check of \<open>calloc\<close> does not notice every product that is too large.\<close>

lemma calloc_overflow_unnoticed: "calloc 65537 65537 s = do {
    (p, s) \<leftarrow> malloc 131073 s;
    if p \<noteq> NULL then do {
      (_, m) \<leftarrow> memset (memory (pal s)) p 0 131073;
      Some (p, s\<lparr>pal := (pal s)\<lparr>memory := m\<rparr>\<rparr>)
    }
    else Some (p, s)
  }"
  by (simp add: calloc_def size_t_def)

end
