(* ===== verification/Block.thy ===== *)
theory Block
  imports Pintos_Prelude
begin

text \<open>
  Block devices: \<open>src/src/devices/block.c\<close> and the access to partitions in
  \<open>src/src/devices/partition.c\<close>.  A block device is identified by its place in \<open>all_blocks\<close>.  The
  operations of a raw disk are those of its driver, represented by the sectors the disk holds; those
  of a partition are calls on the underlying device.
\<close>

section \<open>Devices\<close>

type_synonym sector = "u8 list"

definition BLOCK_SECTOR_SIZE :: nat where
  "BLOCK_SECTOR_SIZE = 512"

definition BLOCK_SECTOR_NONE :: nat where
  "BLOCK_SECTOR_NONE = 2 ^ 32 - 1"

datatype block_type = BLOCK_KERNEL | BLOCK_FILESYS | BLOCK_SCRATCH | BLOCK_SWAP | BLOCK_RAW | BLOCK_FOREIGN

text \<open>The driver of a device: a disk, or a partition with its device and its first sector.\<close>

datatype block_operations = Disk nat | Partition nat nat

record block =
  bk_name :: string
  bk_type :: block_type
  bk_size :: nat
  bk_ops :: block_operations
  read_cnt :: nat
  write_cnt :: nat

record devices =
  all_blocks :: "block list"
  block_by_role :: "block_type \<Rightarrow> nat option"
  disks :: "nat \<Rightarrow> nat \<Rightarrow> sector"

definition is_role :: "block_type \<Rightarrow> bool" where
  "is_role t \<longleftrightarrow> t \<in> {BLOCK_KERNEL, BLOCK_FILESYS, BLOCK_SCRATCH, BLOCK_SWAP}"

definition block_type_name :: "block_type \<Rightarrow> string" where
  "block_type_name t = (case t of
     BLOCK_KERNEL \<Rightarrow> ''kernel'' | BLOCK_FILESYS \<Rightarrow> ''filesys'' | BLOCK_SCRATCH \<Rightarrow> ''scratch''
   | BLOCK_SWAP \<Rightarrow> ''swap'' | BLOCK_RAW \<Rightarrow> ''raw'' | BLOCK_FOREIGN \<Rightarrow> ''foreign'')"

definition block_get_role :: "block_type \<Rightarrow> devices \<Rightarrow> nat option option" where
  "block_get_role role d = do {
     ASSERT (is_role role);
     Some (block_by_role d role)
   }"

definition block_set_role :: "block_type \<Rightarrow> nat option \<Rightarrow> devices \<Rightarrow> devices option" where
  "block_set_role role b d = do {
     ASSERT (is_role role);
     Some (d\<lparr>block_by_role := (block_by_role d)(role := b)\<rparr>)
   }"

definition block_first :: "devices \<Rightarrow> nat option" where
  "block_first d = (if all_blocks d = [] then None else Some 0)"

definition block_next :: "nat \<Rightarrow> devices \<Rightarrow> nat option" where
  "block_next b d = (if b + 1 < length (all_blocks d) then Some (b + 1) else None)"

primrec find_name :: "string \<Rightarrow> block list \<Rightarrow> nat \<Rightarrow> nat option" where
  "find_name name [] i = None"
| "find_name name (b # bs) i = (if name = bk_name b then Some i else find_name name bs (i + 1))"

definition block_get_by_name :: "string \<Rightarrow> devices \<Rightarrow> nat option" where
  "block_get_by_name name d = find_name name (all_blocks d) 0"

definition check_sector :: "nat \<Rightarrow> nat \<Rightarrow> devices \<Rightarrow> unit option" where
  "check_sector b sector d = ASSERT (b < length (all_blocks d) \<and> \<not> sector \<ge> bk_size (all_blocks d ! b))"

definition upd_block :: "nat \<Rightarrow> (block \<Rightarrow> block) \<Rightarrow> devices \<Rightarrow> devices" where
  "upd_block b f d = d\<lparr>all_blocks := (all_blocks d)[b := f (all_blocks d ! b)]\<rparr>"

partial_function (option) block_read :: "nat \<Rightarrow> nat \<Rightarrow> devices \<Rightarrow> (sector \<times> devices) option" where
  "block_read b sector d = do {
     check_sector b sector d;
     (buffer, d) \<leftarrow> (case bk_ops (all_blocks d ! b) of
        Disk n \<Rightarrow> Some (disks d n sector, d)
      | Partition p start \<Rightarrow> block_read p (size_t (start + sector)) d);
     Some (buffer, upd_block b (read_cnt_update (\<lambda>n. (n + 1) mod 2 ^ 64)) d)
   }"

partial_function (option) block_write :: "nat \<Rightarrow> nat \<Rightarrow> sector \<Rightarrow> devices \<Rightarrow> devices option" where
  "block_write b sector buffer d = do {
     check_sector b sector d;
     ASSERT (bk_type (all_blocks d ! b) \<noteq> BLOCK_FOREIGN);
     d \<leftarrow> (case bk_ops (all_blocks d ! b) of
        Disk n \<Rightarrow> Some (d\<lparr>disks := (disks d)(n := (disks d n)(sector := buffer))\<rparr>)
      | Partition p start \<Rightarrow> block_write p (size_t (start + sector)) buffer d);
     Some (upd_block b (write_cnt_update (\<lambda>n. (n + 1) mod 2 ^ 64)) d)
   }"

definition partition_read :: "nat \<Rightarrow> nat \<Rightarrow> nat \<Rightarrow> devices \<Rightarrow> (sector \<times> devices) option" where
  "partition_read p start sector d = block_read p (size_t (start + sector)) d"

definition partition_write :: "nat \<Rightarrow> nat \<Rightarrow> nat \<Rightarrow> sector \<Rightarrow> devices \<Rightarrow> devices option" where
  "partition_write p start sector buffer d = block_write p (size_t (start + sector)) buffer d"

definition block_size :: "nat \<Rightarrow> devices \<Rightarrow> nat" where
  "block_size b d = bk_size (all_blocks d ! b)"

definition block_name :: "nat \<Rightarrow> devices \<Rightarrow> string" where
  "block_name b d = bk_name (all_blocks d ! b)"

definition block_type_of :: "nat \<Rightarrow> devices \<Rightarrow> block_type" where
  "block_type_of b d = bk_type (all_blocks d ! b)"

text \<open>Registration: \<open>ok\<close> says whether \<open>malloc\<close> succeeds; names are cut to 15 characters.\<close>

definition block_register ::
    "bool \<Rightarrow> string \<Rightarrow> block_type \<Rightarrow> nat \<Rightarrow> block_operations \<Rightarrow> devices \<Rightarrow> (nat \<times> devices) option" where
  "block_register ok name t sz ops d = do {
     ASSERT ok;
     let b = \<lparr>bk_name = take 15 name, bk_type = t, bk_size = sz, bk_ops = ops, read_cnt = 0, write_cnt = 0\<rparr>;
     Some (length (all_blocks d), d\<lparr>all_blocks := all_blocks d @ [b]\<rparr>)
   }"

section \<open>Where a sector lies\<close>

text \<open>
  A well-formed device table: the devices registered earlier are the ones partitions refer to, a
  partition lies inside its device, and sizes are 32-bit numbers.
\<close>

definition wf_devices :: "devices \<Rightarrow> bool" where
  "wf_devices d \<longleftrightarrow> (\<forall>b<length (all_blocks d). bk_size (all_blocks d ! b) < 2 ^ 32 \<and>
     (case bk_ops (all_blocks d ! b) of
        Disk n \<Rightarrow> True
      | Partition p start \<Rightarrow> p < b \<and> start + bk_size (all_blocks d ! b) \<le> bk_size (all_blocks d ! p) \<and>
          (bk_type (all_blocks d ! b) \<noteq> BLOCK_FOREIGN \<longrightarrow> bk_type (all_blocks d ! p) \<noteq> BLOCK_FOREIGN)))"

text \<open>The place of a sector of a device: the disk and the sector number on it.\<close>

fun home :: "block list \<Rightarrow> nat \<Rightarrow> nat \<Rightarrow> nat \<times> nat" where
  "home bs b sector = (case bk_ops (bs ! b) of
     Disk n \<Rightarrow> (n, sector)
   | Partition p start \<Rightarrow> if p < b then home bs p (start + sector) else (0, 0))"

declare home.simps [simp del]

text \<open>Two device tables agree up to the access counters.\<close>

definition same_layout :: "block list \<Rightarrow> block list \<Rightarrow> bool" where
  "same_layout bs bs' \<longleftrightarrow> map (\<lambda>b. b\<lparr>read_cnt := 0, write_cnt := 0\<rparr>) bs = map (\<lambda>b. b\<lparr>read_cnt := 0, write_cnt := 0\<rparr>) bs'"

lemma same_layoutD:
  assumes "same_layout bs bs'"
  shows "length bs = length bs'"
    and "i < length bs \<Longrightarrow> bk_ops (bs ! i) = bk_ops (bs' ! i) \<and> bk_size (bs ! i) = bk_size (bs' ! i) \<and>
      bk_type (bs ! i) = bk_type (bs' ! i) \<and> bk_name (bs ! i) = bk_name (bs' ! i)"
proof -
  show l: "length bs = length bs'"
    using assms unfolding same_layout_def by (metis length_map)
  assume i: "i < length bs"
  then have "(bs ! i)\<lparr>read_cnt := 0, write_cnt := 0\<rparr> = (bs' ! i)\<lparr>read_cnt := 0, write_cnt := 0\<rparr>"
    using assms l unfolding same_layout_def by (metis (no_types, lifting) nth_map)
  then show "bk_ops (bs ! i) = bk_ops (bs' ! i) \<and> bk_size (bs ! i) = bk_size (bs' ! i) \<and>
      bk_type (bs ! i) = bk_type (bs' ! i) \<and> bk_name (bs ! i) = bk_name (bs' ! i)"
    by (cases "bs ! i"; cases "bs' ! i") simp
qed

lemma same_layout_refl [simp]: "same_layout bs bs"
  by (simp add: same_layout_def)

lemma same_layout_trans: "same_layout a b \<Longrightarrow> same_layout b c \<Longrightarrow> same_layout a c"
  by (simp add: same_layout_def)

lemma same_layout_upd:
  assumes "\<And>x. (f x)\<lparr>read_cnt := 0, write_cnt := 0\<rparr> = x\<lparr>read_cnt := 0, write_cnt := 0\<rparr>"
  shows "same_layout (all_blocks d) (all_blocks (upd_block b f d))"
  using assms unfolding same_layout_def upd_block_def 
  by (intro nth_equalityI; cases "b < length (all_blocks d)") (auto simp: nth_list_update)

lemma same_layout_home:
  assumes "same_layout bs bs'" "b < length bs"
  shows "home bs b sector = home bs' b sector"
  using assms
proof (induction bs b sector rule: home.induct)
  case (1 bs b sector)
  show ?case
  proof (cases "bk_ops (bs ! b)")
    case (Disk n)
    then show ?thesis using same_layoutD(2) [OF 1(2,3)] by (simp add: home.simps)
  next
    case (Partition p start)
    then show ?thesis
      using same_layoutD(2) [OF 1(2,3)] 1(1) [OF Partition _ 1(2)] 1(3) by (simp add: home.simps)
  qed
qed

lemma wf_devicesD:
  assumes "wf_devices d" "b < length (all_blocks d)"
  shows "bk_size (all_blocks d ! b) < 2 ^ 32"
    and "bk_ops (all_blocks d ! b) = Partition p start \<Longrightarrow>
      p < b \<and> start + bk_size (all_blocks d ! b) \<le> bk_size (all_blocks d ! p) \<and>
      (bk_type (all_blocks d ! b) \<noteq> BLOCK_FOREIGN \<longrightarrow> bk_type (all_blocks d ! p) \<noteq> BLOCK_FOREIGN)"
  using assms unfolding wf_devices_def by (auto split: block_operations.splits)

lemma same_layout_wf:
  assumes "same_layout (all_blocks d) (all_blocks d')" "wf_devices d"
  shows "wf_devices d'"
  unfolding wf_devices_def
proof (intro allI impI)
  fix b assume b': "b < length (all_blocks d')"
  note l = same_layoutD [OF assms(1)]
  have b: "b < length (all_blocks d)" using l(1) b' by simp
  note w = wf_devicesD [OF assms(2) b]
  show "bk_size (all_blocks d' ! b) < 2 ^ 32 \<and>
     (case bk_ops (all_blocks d' ! b) of
        Disk n \<Rightarrow> True
      | Partition p start \<Rightarrow> p < b \<and> start + bk_size (all_blocks d' ! b) \<le> bk_size (all_blocks d' ! p) \<and>
          (bk_type (all_blocks d' ! b) \<noteq> BLOCK_FOREIGN \<longrightarrow> bk_type (all_blocks d' ! p) \<noteq> BLOCK_FOREIGN))"
  proof (cases "bk_ops (all_blocks d' ! b)")
    case (Disk n)
    then show ?thesis using w(1) l(2) [OF b] by simp
  next
    case (Partition p start)
    then have "p < b" using w(2) [of p start] l(2) [OF b] by simp
    then show ?thesis using w l(2) [OF b] l(2) [of p] b Partition by simp
  qed
qed

text \<open>
  An access within the device succeeds, counts, and touches exactly the sector's place; one past its
  end panics.
\<close>

lemma block_read_ok:
  assumes "wf_devices d" "b < length (all_blocks d)" "sector < bk_size (all_blocks d ! b)"
  shows "\<exists>d'. block_read b sector d = Some (case_prod (disks d) (home (all_blocks d) b sector), d') \<and>
    disks d' = disks d \<and> block_by_role d' = block_by_role d \<and> same_layout (all_blocks d) (all_blocks d')"
  using assms
proof (induction b arbitrary: sector rule: less_induct)
  case (less b)
  note w = wf_devicesD [OF less.prems(1,2)]
  have upd: "same_layout (all_blocks e) (all_blocks (upd_block b (read_cnt_update f) e))" for f e
    by (rule same_layout_upd) simp
  show ?case
  proof (cases "bk_ops (all_blocks d ! b)")
    case (Disk n)
    then show ?thesis
      using less.prems upd [of d] by (subst block_read.simps) (simp add: check_sector_def home.simps upd_block_def)
  next
    case (Partition p start)
    then have p: "p < b" "start + sector < bk_size (all_blocks d ! p)" "p < length (all_blocks d)"
      using w(2) [OF Partition] less.prems(2,3) by auto
    then have "size_t (start + sector) = start + sector"
      using wf_devicesD(1) [OF less.prems(1) p(3)] by simp
    then obtain d' where "block_read p (size_t (start + sector)) d =
        Some (case_prod (disks d) (home (all_blocks d) p (start + sector)), d')"
        "disks d' = disks d" "block_by_role d' = block_by_role d" "same_layout (all_blocks d) (all_blocks d')"
      using less.IH [OF p(1) less.prems(1) p(3,2)] by auto
    moreover have "same_layout (all_blocks d) (all_blocks (upd_block b (read_cnt_update f) d'))" for f
      using calculation(4) upd same_layout_trans by blast
    ultimately show ?thesis
      using less.prems p(1) Partition
      by (subst block_read.simps) (simp add: check_sector_def home.simps [of _ b] upd_block_def)
  qed
qed

lemma block_write_ok:
  assumes "wf_devices d" "b < length (all_blocks d)" "sector < bk_size (all_blocks d ! b)"
    "bk_type (all_blocks d ! b) \<noteq> BLOCK_FOREIGN"
  shows "\<exists>d'. block_write b sector buffer d = Some d' \<and>
    (\<forall>n s. disks d' n s = (if (n, s) = home (all_blocks d) b sector then buffer else disks d n s)) \<and>
    block_by_role d' = block_by_role d \<and> same_layout (all_blocks d) (all_blocks d')"
  using assms
proof (induction b arbitrary: sector rule: less_induct)
  case (less b)
  note w = wf_devicesD [OF less.prems(1,2)]
  have upd: "same_layout (all_blocks e) (all_blocks (upd_block b (write_cnt_update f) e))" for f e
    by (rule same_layout_upd) simp
  show ?case
  proof (cases "bk_ops (all_blocks d ! b)")
    case (Disk n)
    then show ?thesis
      using less.prems upd [of "d\<lparr>disks := (disks d)(n := (disks d n)(sector := buffer))\<rparr>"]
      by (subst block_write.simps) (simp add: check_sector_def home.simps upd_block_def)
  next
    case (Partition p start)
    then have p: "p < b" "start + sector < bk_size (all_blocks d ! p)" "p < length (all_blocks d)"
        "bk_type (all_blocks d ! p) \<noteq> BLOCK_FOREIGN"
      using w(2) [OF Partition] less.prems(2-4) by auto
    then have "size_t (start + sector) = start + sector"
      using wf_devicesD(1) [OF less.prems(1) p(3)] by simp
    then obtain d' where "block_write p (size_t (start + sector)) buffer d = Some d'"
        "\<forall>n s. disks d' n s = (if (n, s) = home (all_blocks d) p (start + sector) then buffer else disks d n s)"
        "block_by_role d' = block_by_role d" "same_layout (all_blocks d) (all_blocks d')"
      using less.IH [OF p(1) less.prems(1) p(3,2,4)] by auto
    moreover have "same_layout (all_blocks d) (all_blocks (upd_block b (write_cnt_update f) d'))" for f
      using calculation(4) upd same_layout_trans by blast
    ultimately show ?thesis
      using less.prems p(1) Partition
      by (subst block_write.simps) (simp add: check_sector_def home.simps [of _ b] upd_block_def)
  qed
qed

lemma block_access_past_end:
  assumes "\<not> sector < bk_size (all_blocks d ! b)"
  shows "block_read b sector d = None" and "block_write b sector buffer d = None"
  using assms by (subst block_read.simps block_write.simps, simp add: check_sector_def)+

text \<open>The sectors of a device lie one after the other on one disk.\<close>

lemma home_linear:
  assumes "wf_devices d" "b < length (all_blocks d)"
  shows "\<exists>n k. \<forall>sector. home (all_blocks d) b sector = (n, k + sector)"
  using assms(2)
proof (induction b rule: less_induct)
  case (less b)
  show ?case
  proof (cases "bk_ops (all_blocks d ! b)")
    case (Disk n)
    then have "\<forall>sector. home (all_blocks d) b sector = (n, 0 + sector)" by (simp add: home.simps)
    then show ?thesis by blast
  next
    case (Partition p start)
    then have p: "p < b" using wf_devicesD(2) [OF assms(1) less.prems Partition] by blast
    then obtain n k where "\<forall>sector. home (all_blocks d) p sector = (n, k + sector)"
      using less.IH less.prems by fastforce
    then have "\<forall>sector. home (all_blocks d) b sector = (n, (k + start) + sector)"
      using Partition p by (simp add: home.simps [of _ b] add.assoc)
    then show ?thesis by blast
  qed
qed

lemma home_inject:
  "wf_devices d \<Longrightarrow> b < length (all_blocks d) \<Longrightarrow> home (all_blocks d) b s = home (all_blocks d) b s' \<longleftrightarrow> s = s'"
  using home_linear [of d b] by fastforce

end
