(* ===== verification/Partition.thy ===== *)
theory Partition
  imports Block Palloc
begin

text \<open>
  Partition tables: \<open>src/src/devices/partition.c\<close>.  A partition table is the 512 bytes of a sector;
  the entries are decoded from their bytes.  The success of \<open>malloc\<close> is an argument.
\<close>

section \<open>Decoding\<close>

record partition_table_entry =
  pe_type :: nat
  pe_offset :: nat
  pe_size :: nat

definition get16 :: "sector \<Rightarrow> nat \<Rightarrow> nat" where
  "get16 s i = unat (s ! i) + 2 ^ 8 * unat (s ! (i + 1))"

definition get32 :: "sector \<Rightarrow> nat \<Rightarrow> nat" where
  "get32 s i = load32 (\<lambda>a. s ! a) i"

definition table_entry :: "sector \<Rightarrow> nat \<Rightarrow> partition_table_entry" where
  "table_entry s i =
     (let e = 446 + 16 * i in \<lparr>pe_type = unat (s ! (e + 4)), pe_offset = get32 s (e + 8), pe_size = get32 s (e + 12)\<rparr>)"

definition signature :: "sector \<Rightarrow> nat" where
  "signature s = get16 s 510"

definition is_extended :: "partition_table_entry \<Rightarrow> bool" where
  "is_extended e \<longleftrightarrow> pe_type e = 0x05 \<or> pe_type e = 0x0f \<or> pe_type e = 0x85 \<or> pe_type e = 0xc5"

section \<open>Scanning\<close>

text \<open>\<open>snprintf (name, sizeof name, "%s%d", ...)\<close>.\<close>

fun decimal :: "nat \<Rightarrow> string" where
  "decimal n = (if n < 10 then [char_of (48 + n)] else decimal (n div 10) @ [char_of (48 + n mod 10)])"

declare decimal.simps [simp del]

definition found_partition ::
    "bool \<Rightarrow> nat \<Rightarrow> nat \<Rightarrow> nat \<Rightarrow> nat \<Rightarrow> nat \<Rightarrow> devices \<Rightarrow> devices option" where
  "found_partition ok b part_type start sz part_nr d =
     (if start \<ge> block_size b d then Some d
      else if size_t (start + sz) < start \<or> size_t (start + sz) > block_size b d then Some d
      else do {
        let t = (if part_type = 0x20 then BLOCK_KERNEL
                 else if part_type = 0x21 then BLOCK_FILESYS
                 else if part_type = 0x22 then BLOCK_SCRATCH
                 else if part_type = 0x23 then BLOCK_SWAP
                 else BLOCK_FOREIGN);
        ASSERT ok;
        (_, d) \<leftarrow> block_register ok (take 15 (block_name b d @ decimal part_nr)) t sz (Partition b start) d;
        Some d
      })"

text \<open>
  The table and the loop over its four entries; \<open>rec\<close> is the recursive call.  Note that the code reads
  sector 0 whatever its argument.
\<close>

primrec scan_entries ::
    "(nat \<Rightarrow> nat \<Rightarrow> nat \<times> devices \<Rightarrow> (nat \<times> devices) option) \<Rightarrow> bool \<Rightarrow> nat \<Rightarrow> nat \<Rightarrow> nat \<Rightarrow>
     partition_table_entry list \<Rightarrow> nat \<times> devices \<Rightarrow> (nat \<times> devices) option" where
  "scan_entries rec ok b sector primary [] nd = Some nd"
| "scan_entries rec ok b sector primary (e # es) nd = do {
     nd \<leftarrow>
       (if pe_size e = 0 \<or> pe_type e = 0 then Some nd
        else if is_extended e then
          if sector = 0 then rec (pe_offset e) (pe_offset e) nd
          else rec (size_t (pe_offset e + primary)) primary nd
        else do {
          let part_nr = fst nd + 1;
          d \<leftarrow> found_partition ok b (pe_type e) (size_t (pe_offset e + sector)) (pe_size e) part_nr (snd nd);
          Some (part_nr, d)
        });
     scan_entries rec ok b sector primary es nd
   }"

lemma scan_entries_mono [partial_function_mono]:
  assumes "\<And>s p nd. mono_option (\<lambda>f. F f s p nd)"
  shows "mono_option (\<lambda>f. scan_entries (F f) ok b sector primary es nd)"
proof (induction es arbitrary: nd)
  case Nil
  then show ?case by (simp add: option.const_mono)
next
  case (Cons e es)
  show ?case
    unfolding scan_entries.simps by (intro partial_function_mono option.const_mono assms Cons.IH)
qed

partial_function (option) read_partition_table ::
    "bool \<Rightarrow> nat \<Rightarrow> nat \<Rightarrow> nat \<Rightarrow> nat \<times> devices \<Rightarrow> (nat \<times> devices) option" where
  "read_partition_table ok b sector primary nd =
     (if sector \<ge> block_size b (snd nd) then Some nd
      else do {
        ASSERT ok;
        (pt, d) \<leftarrow> block_read b 0 (snd nd);
        if signature pt \<noteq> 0xaa55 then Some (fst nd, d)
        else scan_entries (\<lambda>s p nd. read_partition_table ok b s p nd) ok b sector primary
               (map (table_entry pt) [0..<4]) (fst nd, d)
      })"

definition partition_scan :: "bool \<Rightarrow> nat \<Rightarrow> devices \<Rightarrow> devices option" where
  "partition_scan ok b d = map_option snd (read_partition_table ok b 0 0 (0, d))"

section \<open>Scanning a device\<close>

lemma block_register_ok:
  assumes "wf_devices d" "b < length (all_blocks d)" "start + sz \<le> bk_size (all_blocks d ! b)" "sz < 2 ^ 32"
    "bk_type (all_blocks d ! b) \<noteq> BLOCK_FOREIGN"
  shows "\<exists>d' x. block_register True name t sz (Partition b start) d = Some (length (all_blocks d), d') \<and>
    wf_devices d' \<and> all_blocks d' = all_blocks d @ [x] \<and> disks d' = disks d \<and> block_by_role d' = block_by_role d \<and>
    bk_ops x = Partition b start \<and> bk_size x = sz"
  using assms by (auto simp: block_register_def wf_devices_def nth_append less_Suc_eq split: block_operations.splits)

definition fits :: "nat \<Rightarrow> nat \<Rightarrow> nat \<Rightarrow> bool" where
  "fits start sz n \<longleftrightarrow> start < n \<and> start + sz \<le> n"

text \<open>Of the partitions found, exactly those that lie inside the device become devices of their own.\<close>

lemma found_partition_ok:
  assumes d: "wf_devices d" "b < length (all_blocks d)" "bk_type (all_blocks d ! b) \<noteq> BLOCK_FOREIGN"
    and r: "start < 2 ^ 32" "sz < 2 ^ 32"
  shows "\<exists>d' xs. found_partition True b ty start sz nr d = Some d' \<and> wf_devices d' \<and> all_blocks d' = all_blocks d @ xs \<and>
    disks d' = disks d \<and> block_by_role d' = block_by_role d \<and>
    map (\<lambda>x. (bk_ops x, bk_size x)) xs = (if fits start sz (bk_size (all_blocks d ! b)) then [(Partition b start, sz)] else [])"
proof -
  let ?n = "bk_size (all_blocks d ! b)"
  have n: "?n < 2 ^ 32" using wf_devicesD(1) [OF d(1,2)] .
  have ovf: "size_t (start + sz) < start \<or> size_t (start + sz) > ?n \<longleftrightarrow> \<not> start + sz \<le> ?n" if "start < ?n"
  proof (cases "start + sz < 2 ^ 32")
    case False
    then have "start + sz = (start + sz - 2 ^ 32) + 2 ^ 32" "start + sz - 2 ^ 32 < 2 ^ 32" using r by simp_all
    then have "size_t (start + sz) = start + sz - 2 ^ 32"
      unfolding size_t_def by (metis mod_add_self2 mod_less)
    then show ?thesis using False r n by auto
  qed auto
  show ?thesis
  proof (cases "fits start sz ?n")
    case True
    then have le: "start + sz \<le> ?n" by (simp add: fits_def)
    define t where "t = (if ty = 0x20 then BLOCK_KERNEL else if ty = 0x21 then BLOCK_FILESYS
      else if ty = 0x22 then BLOCK_SCRATCH else if ty = 0x23 then BLOCK_SWAP else BLOCK_FOREIGN)"
    obtain d' x where "block_register True (take 15 (block_name b d @ decimal nr)) t sz (Partition b start) d =
          Some (length (all_blocks d), d')"
        "wf_devices d'" "all_blocks d' = all_blocks d @ [x]" "disks d' = disks d" "block_by_role d' = block_by_role d"
        "bk_ops x = Partition b start" "bk_size x = sz"
      using block_register_ok [OF d(1,2) le r(2) d(3)] by blast
    moreover have "\<not> start \<ge> ?n" "\<not> (size_t (start + sz) < start \<or> size_t (start + sz) > ?n)"
      using True ovf by (auto simp: fits_def)
    ultimately show ?thesis
      using True by (simp add: found_partition_def block_size_def t_def [symmetric])
  next
    case False
    then show ?thesis using ovf d(1) by (auto simp: found_partition_def block_size_def fits_def)
  qed
qed

text \<open>The devices a list of entries adds, when there is no extended partition among them.\<close>

definition new_devices :: "nat \<Rightarrow> nat \<Rightarrow> partition_table_entry list \<Rightarrow> (block_operations \<times> nat) list" where
  "new_devices b n es = map (\<lambda>e. (Partition b (pe_offset e), pe_size e))
     (filter (\<lambda>e. pe_size e \<noteq> 0 \<and> pe_type e \<noteq> 0 \<and> fits (pe_offset e) (pe_size e) n) es)"

lemma scan_entries_ok:
  assumes "wf_devices d" "b < length (all_blocks d)" "bk_type (all_blocks d ! b) \<noteq> BLOCK_FOREIGN"
    and "\<forall>e\<in>set es. pe_offset e < 2 ^ 32 \<and> pe_size e < 2 ^ 32 \<and> (is_extended e \<longrightarrow> pe_size e = 0)"
  shows "\<exists>nr' d' xs. scan_entries rec True b 0 primary es (nr, d) = Some (nr', d') \<and> wf_devices d' \<and>
    all_blocks d' = all_blocks d @ xs \<and> disks d' = disks d \<and> block_by_role d' = block_by_role d \<and>
    map (\<lambda>x. (bk_ops x, bk_size x)) xs = new_devices b (bk_size (all_blocks d ! b)) es"
  using assms
proof (induction es arbitrary: nr d)
  case Nil
  then show ?case by (simp add: new_devices_def)
next
  case (Cons e es)
  show ?case
  proof (cases "pe_size e = 0 \<or> pe_type e = 0")
    case True
    then show ?thesis using Cons.IH [of d nr] Cons.prems by (auto simp: new_devices_def)
  next
    case False
    have e: "pe_offset e < 2 ^ 32" "pe_size e < 2 ^ 32" "\<not> is_extended e" using Cons.prems(4) False by auto
    obtain d1 xs where d1: "found_partition True b (pe_type e) (pe_offset e) (pe_size e) (nr + 1) d = Some d1"
        "wf_devices d1" "all_blocks d1 = all_blocks d @ xs" "disks d1 = disks d" "block_by_role d1 = block_by_role d"
        "map (\<lambda>x. (bk_ops x, bk_size x)) xs =
          (if fits (pe_offset e) (pe_size e) (bk_size (all_blocks d ! b)) then [(Partition b (pe_offset e), pe_size e)] else [])"
      using found_partition_ok [OF Cons.prems(1-3) e(1,2)] by blast
    have b1: "b < length (all_blocks d1)" "all_blocks d1 ! b = all_blocks d ! b"
      using d1(3) Cons.prems(2) by (simp_all add: nth_append)
    obtain nr' d' ys where "scan_entries rec True b 0 primary es (nr + 1, d1) = Some (nr', d')" "wf_devices d'"
        "all_blocks d' = all_blocks d1 @ ys" "disks d' = disks d1" "block_by_role d' = block_by_role d1"
        "map (\<lambda>x. (bk_ops x, bk_size x)) ys = new_devices b (bk_size (all_blocks d1 ! b)) es"
      using Cons.IH [OF d1(2) b1(1), of "nr + 1"] Cons.prems(3,4) b1(2) by auto
    then show ?thesis
      using False e d1 b1(2) by (auto simp: new_devices_def)
  qed
qed

lemma table_entry_range: "pe_offset (table_entry s i) < 2 ^ 32" "pe_size (table_entry s i) < 2 ^ 32"
  using load32_less [of "\<lambda>a. s ! a"] by (simp_all add: table_entry_def get32_def Let_def)

text \<open>
  C31: scanning a device whose partition table has no extended partitions returns, leaves every sector
  alone and registers exactly the non-empty partitions that lie inside the device, in table order; the
  device table stays well formed.
\<close>

theorem partition_scan_registers:
  assumes d: "wf_devices d" "b < length (all_blocks d)" "bk_type (all_blocks d ! b) \<noteq> BLOCK_FOREIGN"
    and n: "0 < bk_size (all_blocks d ! b)"
    and pt: "pt = case_prod (disks d) (home (all_blocks d) b 0)" "signature pt = 0xaa55"
    and ext: "\<forall>i<4. is_extended (table_entry pt i) \<longrightarrow> pe_size (table_entry pt i) = 0"
  shows "\<exists>d' bs xs. partition_scan True b d = Some d' \<and> wf_devices d' \<and> disks d' = disks d \<and>
    all_blocks d' = bs @ xs \<and> same_layout (all_blocks d) bs \<and>
    map (\<lambda>x. (bk_ops x, bk_size x)) xs = new_devices b (bk_size (all_blocks d ! b)) (map (table_entry pt) [0..<4])"
proof -
  obtain d1 where d1: "block_read b 0 d = Some (pt, d1)" "disks d1 = disks d" "same_layout (all_blocks d) (all_blocks d1)"
    using block_read_ok [OF d(1,2) n] pt(1) by auto
  have l: "b < length (all_blocks d1)" "bk_size (all_blocks d1 ! b) = bk_size (all_blocks d ! b)"
      "bk_type (all_blocks d1 ! b) \<noteq> BLOCK_FOREIGN"
    using same_layoutD [OF d1(3)] d(2,3) by auto
  have "\<forall>e\<in>set (map (table_entry pt) [0..<4]). pe_offset e < 2 ^ 32 \<and> pe_size e < 2 ^ 32 \<and> (is_extended e \<longrightarrow> pe_size e = 0)"
    using ext table_entry_range by auto
  then obtain nr' d' xs where "scan_entries (\<lambda>s p nd. read_partition_table True b s p nd) True b 0 0
        (map (table_entry pt) [0..<4]) (0, d1) = Some (nr', d')" "wf_devices d'" "all_blocks d' = all_blocks d1 @ xs"
      "disks d' = disks d1"
      "map (\<lambda>x. (bk_ops x, bk_size x)) xs = new_devices b (bk_size (all_blocks d1 ! b)) (map (table_entry pt) [0..<4])"
    using scan_entries_ok [OF same_layout_wf [OF d1(3) d(1)] l(1,3)] by blast
  moreover have "read_partition_table True b 0 0 (0, d) = scan_entries (\<lambda>s p nd. read_partition_table True b s p nd) True b 0 0
        (map (table_entry pt) [0..<4]) (0, d1)"
    using n d1(1) pt(2) by (subst read_partition_table.simps) (simp add: block_size_def)
  ultimately show ?thesis
    using d1 l(2) by (auto simp: partition_scan_def)
qed

definition sample_table :: sector where
  "sample_table = replicate 446 0 @ [0, 0, 0, 0, 0x21, 0, 0, 0, 1, 0, 0, 0, 50, 0, 0, 0] @ replicate 48 0 @ [0x55, 0xaa]"

definition sample_disk :: devices where
  "sample_disk = \<lparr>all_blocks = [\<lparr>bk_name = ''hda'', bk_type = BLOCK_RAW, bk_size = 100, bk_ops = Disk 0,
      read_cnt = 0, write_cnt = 0\<rparr>],
    block_by_role = (\<lambda>_. None), disks = (\<lambda>n s. if s = 0 then sample_table else replicate 512 7)\<rparr>"

lemma sample_table_entries:
  "table_entry sample_table 0 = \<lparr>pe_type = 0x21, pe_offset = 1, pe_size = 50\<rparr>"
  "0 < i \<Longrightarrow> i < 4 \<Longrightarrow> table_entry sample_table i = \<lparr>pe_type = 0, pe_offset = 0, pe_size = 0\<rparr>"
  "signature sample_table = 0xaa55"
proof -
  have z: "sample_table ! (462 + k) = 0" if "k < 48" for k
    using that unfolding sample_table_def by (simp add: nth_append)
  show "table_entry sample_table 0 = \<lparr>pe_type = 0x21, pe_offset = 1, pe_size = 50\<rparr>"
    by (simp add: table_entry_def get32_def load32_def sample_table_def nth_append)
  show "signature sample_table = 0xaa55"
    by (simp add: signature_def get16_def sample_table_def nth_append)
  assume i: "0 < i" "i < 4"
  have "sample_table ! (446 + 16 * i + k) = 0" if "k < 16" for k
    using z [of "16 * (i - 1) + k"] that i by (simp add: algebra_simps)
  from this [of 4] this [of 8] this [of 9] this [of 10] this [of 11] this [of 12] this [of 13] this [of 14] this [of 15]
  show "table_entry sample_table i = \<lparr>pe_type = 0, pe_offset = 0, pe_size = 0\<rparr>"
    by (simp add: table_entry_def get32_def load32_def add.assoc)
qed

lemma sample_disk_ok:
  "wf_devices sample_disk" "0 < length (all_blocks sample_disk)" "bk_type (all_blocks sample_disk ! 0) \<noteq> BLOCK_FOREIGN"
  "bk_size (all_blocks sample_disk ! 0) = 100" "sample_table = case_prod (disks sample_disk) (home (all_blocks sample_disk) 0 0)"
  by (simp_all add: sample_disk_def wf_devices_def home.simps)

theorem partition_scan_registers_witness:
  "\<exists>d' bs xs. partition_scan True 0 sample_disk = Some d' \<and> all_blocks d' = bs @ xs \<and>
     map (\<lambda>x. (bk_ops x, bk_size x)) xs = [(Partition 0 1, 50)]"
proof -
  have ext: "\<forall>i<4. is_extended (table_entry sample_table i) \<longrightarrow> pe_size (table_entry sample_table i) = 0"
  proof (intro allI impI)
    fix i :: nat assume "i < 4" "is_extended (table_entry sample_table i)"
    then show "pe_size (table_entry sample_table i) = 0"
      using sample_table_entries(1,2) by (cases "i = 0") (simp_all add: is_extended_def)
  qed
  have pos: "0 < bk_size (all_blocks sample_disk ! 0)" by (simp add: sample_disk_ok(4))
  have "new_devices 0 100 (map (table_entry sample_table) [0..<4]) = [(Partition 0 1, 50)]"
    by (simp add: new_devices_def sample_table_entries upt_rec fits_def)
  then show ?thesis
    using partition_scan_registers [OF sample_disk_ok(1-3) pos sample_disk_ok(5) sample_table_entries(3) ext]
    unfolding sample_disk_ok(4) by metis
qed

text \<open>
  C32: a partition confines its user: writing a sector of a partition on a disk panics when the sector
  lies past the partition's end, and otherwise changes exactly one sector of the disk, which lies
  inside the partition; reading it back gives what was written.
\<close>

theorem partition_write_confined:
  assumes d: "wf_devices d" "b < length (all_blocks d)" "bk_type (all_blocks d ! b) \<noteq> BLOCK_FOREIGN"
    and ops: "bk_ops (all_blocks d ! b) = Partition p start" "bk_ops (all_blocks d ! p) = Disk n"
  shows "(\<not> sector < bk_size (all_blocks d ! b) \<longrightarrow> block_write b sector buffer d = None) \<and>
    (sector < bk_size (all_blocks d ! b) \<longrightarrow>
      (\<exists>d' d''. block_write b sector buffer d = Some d' \<and> wf_devices d' \<and>
         (\<forall>m s. disks d' m s = (if m = n \<and> s = start + sector then buffer else disks d m s)) \<and>
         start + sector < start + bk_size (all_blocks d ! b) \<and>
         start + bk_size (all_blocks d ! b) \<le> bk_size (all_blocks d ! p) \<and>
         block_read b sector d' = Some (buffer, d'')))"
proof (intro conjI impI)
  show "block_write b sector buffer d = None" if "\<not> sector < bk_size (all_blocks d ! b)"
    using that by (rule block_access_past_end)
  assume s: "sector < bk_size (all_blocks d ! b)"
  have p: "p < b" "start + bk_size (all_blocks d ! b) \<le> bk_size (all_blocks d ! p)"
    using wf_devicesD(2) [OF d(1,2) ops(1)] by auto
  have home: "home (all_blocks d) b sector = (n, start + sector)"
    using ops p(1) by (simp add: home.simps)
  obtain d' where w: "block_write b sector buffer d = Some d'"
      "\<forall>m s. disks d' m s = (if (m, s) = home (all_blocks d) b sector then buffer else disks d m s)"
      "same_layout (all_blocks d) (all_blocks d')"
    using block_write_ok [OF d(1,2) s d(3)] by blast
  have wf: "wf_devices d'" using same_layout_wf [OF w(3) d(1)] .
  have l: "b < length (all_blocks d')" "sector < bk_size (all_blocks d' ! b)"
    using same_layoutD [OF w(3)] d(2) s by auto
  have "home (all_blocks d') b sector = (n, start + sector)"
    using same_layout_home [OF w(3) d(2)] home by simp
  then obtain d'' where "block_read b sector d' = Some (buffer, d'')"
    using block_read_ok [OF wf l] w(2) home by auto
  then show "\<exists>d' d''. block_write b sector buffer d = Some d' \<and> wf_devices d' \<and>
         (\<forall>m s. disks d' m s = (if m = n \<and> s = start + sector then buffer else disks d m s)) \<and>
         start + sector < start + bk_size (all_blocks d ! b) \<and>
         start + bk_size (all_blocks d ! b) \<le> bk_size (all_blocks d ! p) \<and>
         block_read b sector d' = Some (buffer, d'')"
    using w wf s p(2) home by auto
qed

definition sample_devices :: devices where
  "sample_devices = sample_disk\<lparr>all_blocks := all_blocks sample_disk @ [\<lparr>bk_name = ''hda1'', bk_type = BLOCK_FILESYS,
     bk_size = 50, bk_ops = Partition 0 1, read_cnt = 0, write_cnt = 0\<rparr>]\<rparr>"

theorem partition_write_confined_witness:
  "block_write 1 50 [] sample_devices = None \<and>
   (\<exists>d'. block_write 1 9 [1, 2] sample_devices = Some d' \<and> disks d' 0 10 = [1, 2] \<and> disks d' 0 11 = replicate 512 7)"
proof -
  have d: "wf_devices sample_devices" "1 < length (all_blocks sample_devices)" "bk_type (all_blocks sample_devices ! 1) \<noteq> BLOCK_FOREIGN"
    "bk_ops (all_blocks sample_devices ! 1) = Partition 0 1" "bk_ops (all_blocks sample_devices ! 0) = Disk 0"
    by (simp_all add: sample_devices_def sample_disk_def wf_devices_def less_Suc_eq)
  show ?thesis
    using partition_write_confined [OF d, of 50 "[]"] partition_write_confined [OF d, of 9 "[1, 2]"]
    by (auto simp: sample_devices_def sample_disk_def)
qed

text \<open>
  The code reads sector 0 at every level.  An extended partition in the first entry whose table lies
  in the first half of the device makes the scan call itself for ever.
\<close>

lemma extended_partition_loops:
  assumes "read_partition_table True b sector primary nd = Some y"
    and "wf_devices (snd nd)" "b < length (all_blocks (snd nd))" "sector = 2 * off" "primary = off" "0 < off"
    and "2 * off < bk_size (all_blocks (snd nd) ! b)"
    and "pt = case_prod (disks (snd nd)) (home (all_blocks (snd nd)) b 0)" "signature pt = 0xaa55"
    and "is_extended (table_entry pt 0)" "pe_size (table_entry pt 0) \<noteq> 0" "pe_offset (table_entry pt 0) = off"
  shows False
proof -
  let ?loop = "\<lambda>ok b sector primary nd. ok \<and> wf_devices (snd nd) \<and> b < length (all_blocks (snd nd)) \<and> sector = 2 * off \<and>
    primary = off \<and> 0 < off \<and> 2 * off < bk_size (all_blocks (snd nd) ! b) \<and>
    pt = case_prod (disks (snd nd)) (home (all_blocks (snd nd)) b 0) \<and> signature pt = 0xaa55 \<and>
    is_extended (table_entry pt 0) \<and> pe_size (table_entry pt 0) \<noteq> 0 \<and> pe_offset (table_entry pt 0) = off"
  have "\<not> ?loop True b sector primary nd"
    using assms(1)
  proof (rule read_partition_table.raw_induct [where P = "\<lambda>ok b sector primary nd _. \<not> ?loop ok b sector primary nd", rotated])
    fix rec ok b sector primary nd y
    assume IH: "\<And>ok b sector primary nd y. rec ok b sector primary nd = Some y \<Longrightarrow> \<not> ?loop ok b sector primary nd"
      and eq: "(if block_size b (snd nd) \<le> sector then Some nd
        else do {
          ASSERT ok;
          (pt, d) \<leftarrow> block_read b 0 (snd nd);
          if signature pt \<noteq> 0xaa55 then Some (fst nd, d)
          else scan_entries (\<lambda>s p nd. rec ok b s p nd) ok b sector primary (map (table_entry pt) [0..<4]) (fst nd, d)
        }) = Some y"
    show "\<not> ?loop ok b sector primary nd"
    proof
      assume l: "?loop ok b sector primary nd"
      then have n: "0 < bk_size (all_blocks (snd nd) ! b)" by auto
      obtain d where d: "block_read b 0 (snd nd) = Some (pt, d)" "disks d = disks (snd nd)"
          "same_layout (all_blocks (snd nd)) (all_blocks d)"
        using block_read_ok [of "snd nd" b 0] l n by auto
      have four: "[0..<4] = 0 # [1..<4]" by (simp add: upt_rec)
      have t: "pe_type (table_entry pt 0) \<noteq> 0" using l by (auto simp: is_extended_def)
      have lt: "2 * off < 2 ^ 32" using l wf_devicesD(1) [of "snd nd" b] by auto
      have "scan_entries (\<lambda>s p nd. rec ok b s p nd) ok b sector primary (map (table_entry pt) [0..<4]) (fst nd, d) = Some y"
      proof -
        have "ok" "signature pt = 0xaa55" "\<not> block_size b (snd nd) \<le> sector" using l by (auto simp: block_size_def)
        then show ?thesis using eq by (simp add: d(1))
      qed
      then obtain z where "rec ok b (size_t (off + off)) off (fst nd, d) = Some z"
        using l t by (auto simp: four split: bind_splits)
      then have "\<not> ?loop ok b (2 * off) off (fst nd, d)"
        using IH [of ok b "size_t (off + off)" off "(fst nd, d)" z] lt by (simp add: mult_2)
      moreover have "?loop ok b (2 * off) off (fst nd, d)"
        using l same_layout_wf [OF d(3)] same_layoutD [OF d(3)] same_layout_home [OF d(3)] d(2) by auto
      ultimately show False by blast
    qed
  qed
  then show False using assms by blast
qed

end
