(* ===== verification/Cache.thy ===== *)
theory Cache
  imports Block Cstring
begin

text \<open>
  The buffer cache of \<open>src/src/filesys/cache.c\<close>: 64 sectors kept in memory, written back when they are
  evicted or flushed, with the least recently used one evicted first.  The state is the one the
  calling thread sees; \<open>cache_lock\<close> and \<open>cb_lock\<close> say which locks it holds, and locks are not
  contended.
\<close>

section \<open>The cache\<close>

record cache_block =
  cb_block :: nat
  cb_sector :: nat
  cb_dirty :: bool
  cb_valid :: bool
  cb_data :: sector
  cb_lock :: bool

record cache =
  devs :: devices
  blocks :: "cache_block list"
  cache_list :: "nat list"
  cache_lock :: bool
  flush_done :: bool

definition CACHE_SIZE :: nat where
  "CACHE_SIZE = 64"

definition upd_cb :: "nat \<Rightarrow> (cache_block \<Rightarrow> cache_block) \<Rightarrow> cache \<Rightarrow> cache" where
  "upd_cb i f c = c\<lparr>blocks := (blocks c)[i := f (blocks c ! i)]\<rparr>"

text \<open>\<open>lock_acquire\<close> and \<open>lock_release\<close> on the locks of the cache.\<close>

definition acquire_cache :: "cache \<Rightarrow> cache option" where
  "acquire_cache c = do { ASSERT (\<not> cache_lock c); Some (c\<lparr>cache_lock := True\<rparr>) }"

definition release_cache :: "cache \<Rightarrow> cache option" where
  "release_cache c = do { ASSERT (cache_lock c); Some (c\<lparr>cache_lock := False\<rparr>) }"

definition acquire_cb :: "nat \<Rightarrow> cache \<Rightarrow> cache option" where
  "acquire_cb i c = do { ASSERT (\<not> cb_lock (blocks c ! i)); Some (upd_cb i (cb_lock_update (\<lambda>_. True)) c) }"

definition release_cb :: "nat \<Rightarrow> cache \<Rightarrow> cache option" where
  "release_cb i c = do { ASSERT (cb_lock (blocks c ! i)); Some (upd_cb i (cb_lock_update (\<lambda>_. False)) c) }"

text \<open>
  Initialization, for the devices and what the array \<open>cache\<close> holds before; \<open>thread_create\<close> of the
  flush thread is left out.
\<close>

definition cache_init :: "devices \<Rightarrow> cache_block list \<Rightarrow> cache" where
  "cache_init d bs = \<lparr>devs = d,
     blocks = map (\<lambda>b. b\<lparr>cb_lock := False, cb_valid := False, cb_dirty := False\<rparr>) bs,
     cache_list = [0..<CACHE_SIZE], cache_lock = False, flush_done = False\<rparr>"

text \<open>
  The search loop of \<open>cache_read\<close> and \<open>cache_write\<close>, from block \<open>i\<close> on with \<open>n\<close> blocks left.  It
  returns the block found, locked, and whether the lock was already held.
\<close>

primrec cache_search :: "nat \<Rightarrow> nat \<Rightarrow> nat \<Rightarrow> nat \<Rightarrow> cache \<Rightarrow> ((nat \<times> bool) option \<times> cache) option" where
  "cache_search b sector i 0 c = Some (None, c)"
| "cache_search b sector i (Suc n) c = do {
     let held = cb_lock (blocks c ! i);
     c \<leftarrow> (if \<not> held then acquire_cb i c else Some c);
     if cb_valid (blocks c ! i) \<and> cb_block (blocks c ! i) = b \<and> cb_sector (blocks c ! i) = sector then
       Some (Some (i, held), c\<lparr>cache_list := removeAll i (cache_list c) @ [i]\<rparr>)
     else do {
       c \<leftarrow> (if \<not> held then release_cb i c else Some c);
       cache_search b sector (i + 1) n c
     }
   }"

text \<open>
  Eviction of the least recently used block for a sector, writing it back to disk if dirty.  The block
  is left locked and not yet valid; \<open>dirty\<close> is its new dirty flag.
\<close>

definition cache_evict :: "nat \<Rightarrow> nat \<Rightarrow> bool \<Rightarrow> cache \<Rightarrow> (nat \<times> bool \<times> cache) option" where
  "cache_evict b sector dirty c = do {
     ASSERT (cache_list c \<noteq> []);
     let i = hd (cache_list c);
     let c = c\<lparr>cache_list := tl (cache_list c)\<rparr>;
     let held = cb_lock (blocks c ! i);
     c \<leftarrow> (if \<not> held then acquire_cb i c else Some c);
     let c = c\<lparr>cache_list := cache_list c @ [i]\<rparr>;
     c \<leftarrow> release_cache c;
     c \<leftarrow> (if cb_valid (blocks c ! i) \<and> cb_dirty (blocks c ! i) then do {
             d \<leftarrow> block_write (cb_block (blocks c ! i)) (cb_sector (blocks c ! i)) (cb_data (blocks c ! i)) (devs c);
             Some (c\<lparr>devs := d\<rparr>)
           }
           else Some c);
     let c = upd_cb i (\<lambda>x. x\<lparr>cb_block := b, cb_sector := sector, cb_valid := False\<rparr>) c;
     (bytes, d) \<leftarrow> block_read b sector (devs c);
     let c = upd_cb i (\<lambda>x. x\<lparr>cb_data := bytes, cb_dirty := dirty\<rparr>) (c\<lparr>devs := d\<rparr>);
     Some (i, held, c)
   }"

text \<open>
  The first part of \<open>cache_read\<close> and, with \<open>w\<close> set, of \<open>cache_write\<close>: the block for a sector, locked,
  and whether its lock was already held.
\<close>

definition cache_get :: "nat \<Rightarrow> nat \<Rightarrow> bool \<Rightarrow> cache \<Rightarrow> (nat \<times> bool \<times> cache) option" where
  "cache_get b sector w c = do {
     ASSERT (sector \<noteq> BLOCK_SECTOR_NONE);
     c \<leftarrow> acquire_cache c;
     (cb, c) \<leftarrow> cache_search b sector 0 CACHE_SIZE c;
     (case cb of
        None \<Rightarrow> cache_evict b sector w c
      | Some (i, held) \<Rightarrow> do {
          let c = (if w then upd_cb i (cb_dirty_update (\<lambda>_. True)) c else c);
          c \<leftarrow> release_cache c;
          Some (i, held, c)
        })
   }"

text \<open>
  Reading returns the bytes that are copied to the buffer.  A copy that leaves the sector is an error.
\<close>

definition cache_read :: "nat \<Rightarrow> nat \<Rightarrow> nat \<Rightarrow> nat \<Rightarrow> cache \<Rightarrow> (u8 list \<times> cache) option" where
  "cache_read b sector sz offset c = do {
     (i, held, c) \<leftarrow> cache_get b sector False c;
     ASSERT (offset + sz \<le> length (cb_data (blocks c ! i)));
     let buffer = take sz (drop offset (cb_data (blocks c ! i)));
     let c = upd_cb i (cb_valid_update (\<lambda>_. True)) c;
     c \<leftarrow> (if \<not> held then release_cb i c else Some c);
     Some (buffer, c)
   }"

definition patch :: "nat \<Rightarrow> u8 list \<Rightarrow> sector \<Rightarrow> sector" where
  "patch offset buffer xs = take offset xs @ buffer @ drop (offset + length buffer) xs"

definition cache_write :: "nat \<Rightarrow> nat \<Rightarrow> u8 list \<Rightarrow> nat \<Rightarrow> cache \<Rightarrow> cache option" where
  "cache_write b sector buffer offset c = do {
     (i, held, c) \<leftarrow> cache_get b sector True c;
     ASSERT (offset + length buffer \<le> length (cb_data (blocks c ! i)));
     let c = upd_cb i (cb_data_update (patch offset buffer)) c;
     let c = upd_cb i (cb_valid_update (\<lambda>_. True)) c;
     if \<not> held then release_cb i c else Some c
   }"

text \<open>The loops of \<open>cache_flush\<close> and \<open>cache_free\<close>, from block \<open>i\<close> on.\<close>

primrec flush_loop :: "nat \<Rightarrow> nat \<Rightarrow> cache \<Rightarrow> cache option" where
  "flush_loop i 0 c = Some c"
| "flush_loop i (Suc n) c = do {
     c \<leftarrow> acquire_cb i c;
     c \<leftarrow> (if cb_valid (blocks c ! i) \<and> cb_dirty (blocks c ! i) then do {
             d \<leftarrow> block_write (cb_block (blocks c ! i)) (cb_sector (blocks c ! i)) (cb_data (blocks c ! i)) (devs c);
             Some (upd_cb i (cb_dirty_update (\<lambda>_. False)) (c\<lparr>devs := d\<rparr>))
           }
           else Some c);
     c \<leftarrow> release_cb i c;
     flush_loop (i + 1) n c
   }"

definition cache_flush :: "bool \<Rightarrow> cache \<Rightarrow> cache option" where
  "cache_flush fin c = do {
     let c = (if fin then c\<lparr>flush_done := fin\<rparr> else c);
     c \<leftarrow> acquire_cache c;
     c \<leftarrow> flush_loop 0 CACHE_SIZE c;
     release_cache c
   }"

primrec free_loop :: "nat \<Rightarrow> nat \<Rightarrow> nat \<Rightarrow> nat \<Rightarrow> cache \<Rightarrow> cache option" where
  "free_loop b sector i 0 c = Some c"
| "free_loop b sector i (Suc n) c = do {
     c \<leftarrow> acquire_cb i c;
     if cb_valid (blocks c ! i) \<and> cb_block (blocks c ! i) = b \<and> cb_sector (blocks c ! i) = sector then
       release_cb i (upd_cb i (\<lambda>x. x\<lparr>cb_valid := False, cb_dirty := False\<rparr>) c)
     else do {
       c \<leftarrow> release_cb i c;
       free_loop b sector (i + 1) n c
     }
   }"

definition cache_free :: "nat \<Rightarrow> nat \<Rightarrow> cache \<Rightarrow> cache option" where
  "cache_free b sector c = do {
     ASSERT (sector \<noteq> BLOCK_SECTOR_NONE);
     c \<leftarrow> acquire_cache c;
     c \<leftarrow> free_loop b sector 0 CACHE_SIZE c;
     release_cache c
   }"

primrec unlock_loop :: "nat \<Rightarrow> nat \<Rightarrow> cache \<Rightarrow> cache option" where
  "unlock_loop i 0 c = Some c"
| "unlock_loop i (Suc n) c = do {
     c \<leftarrow> (if cb_lock (blocks c ! i) then release_cb i c else Some c);
     unlock_loop (i + 1) n c
   }"

definition cache_lock_release :: "cache \<Rightarrow> cache option" where
  "cache_lock_release c = do {
     c \<leftarrow> (if cache_lock c then release_cache c else Some c);
     unlock_loop 0 CACHE_SIZE c
   }"

section \<open>What the cache stands for\<close>

definition dev_sector :: "nat \<Rightarrow> devices \<Rightarrow> nat \<Rightarrow> sector" where
  "dev_sector b d s = case_prod (disks d) (home (all_blocks d) b s)"

definition holds :: "nat \<Rightarrow> cache_block \<Rightarrow> bool" where
  "holds s x \<longleftrightarrow> cb_valid x \<and> cb_sector x = s"

text \<open>The contents of a sector: the cached copy if there is one, else what the device holds.\<close>

definition view :: "cache_block list \<Rightarrow> (nat \<Rightarrow> sector) \<Rightarrow> nat \<Rightarrow> sector" where
  "view bs D s = (case find (holds s) bs of Some x \<Rightarrow> cb_data x | None \<Rightarrow> D s)"

definition contents :: "nat \<Rightarrow> cache \<Rightarrow> nat \<Rightarrow> sector" where
  "contents b c = view (blocks c) (dev_sector b (devs c))"

text \<open>A valid block holds a sector of device \<open>b\<close>, and its data are on the device unless it is dirty.\<close>

definition entry_ok :: "nat \<Rightarrow> nat \<Rightarrow> (nat \<Rightarrow> sector) \<Rightarrow> cache_block \<Rightarrow> bool" where
  "entry_ok b n D x \<longleftrightarrow> (cb_valid x \<longrightarrow> cb_block x = b \<and> cb_sector x < n \<and> length (cb_data x) = BLOCK_SECTOR_SIZE \<and>
     (\<not> cb_dirty x \<longrightarrow> cb_data x = D (cb_sector x)))"

definition blocks_ok :: "nat \<Rightarrow> nat \<Rightarrow> (nat \<Rightarrow> sector) \<Rightarrow> cache_block list \<Rightarrow> bool" where
  "blocks_ok b n D bs \<longleftrightarrow> length bs = CACHE_SIZE \<and> (\<forall>i<CACHE_SIZE. entry_ok b n D (bs ! i)) \<and>
     (\<forall>i<CACHE_SIZE. \<forall>j<CACHE_SIZE. i \<noteq> j \<longrightarrow> cb_valid (bs ! i) \<longrightarrow> \<not> holds (cb_sector (bs ! i)) (bs ! j))"

definition device_ok :: "nat \<Rightarrow> devices \<Rightarrow> bool" where
  "device_ok b d \<longleftrightarrow> wf_devices d \<and> b < length (all_blocks d) \<and> bk_type (all_blocks d ! b) \<noteq> BLOCK_FOREIGN \<and>
     (\<forall>s<block_size b d. length (dev_sector b d s) = BLOCK_SECTOR_SIZE)"

text \<open>The invariant for a cache used for one device of \<open>n\<close> sectors, with no lock held.\<close>

definition cache_inv :: "nat \<Rightarrow> nat \<Rightarrow> cache \<Rightarrow> bool" where
  "cache_inv b n c \<longleftrightarrow> device_ok b (devs c) \<and> block_size b (devs c) = n \<and>
     blocks_ok b n (dev_sector b (devs c)) (blocks c) \<and>
     (\<forall>i<CACHE_SIZE. \<not> cb_lock (blocks c ! i)) \<and> \<not> cache_lock c \<and>
     distinct (cache_list c) \<and> set (cache_list c) = {..<CACHE_SIZE}"

section \<open>Blocks and their view\<close>

lemma blocks_okD:
  assumes "blocks_ok b n D bs"
  shows "length bs = CACHE_SIZE" and "i < CACHE_SIZE \<Longrightarrow> entry_ok b n D (bs ! i)"
    and "i < CACHE_SIZE \<Longrightarrow> j < CACHE_SIZE \<Longrightarrow> cb_valid (bs ! i) \<Longrightarrow> holds (cb_sector (bs ! i)) (bs ! j) \<Longrightarrow> j = i"
  using assms unfolding blocks_ok_def by blast+

lemma view_cached:
  assumes ok: "blocks_ok b n D bs" and i: "i < CACHE_SIZE" "cb_valid (bs ! i)"
  shows "view bs D (cb_sector (bs ! i)) = cb_data (bs ! i)"
proof (cases "find (holds (cb_sector (bs ! i))) bs")
  case None
  then have "\<not> holds (cb_sector (bs ! i)) (bs ! i)"
    using blocks_okD(1) [OF ok] i(1) by (simp add: find_None_iff)
  then show ?thesis using i(2) by (simp add: holds_def)
next
  case (Some x)
  then obtain j where "j < CACHE_SIZE" "holds (cb_sector (bs ! i)) (bs ! j)" "x = bs ! j"
    using blocks_okD(1) [OF ok] by (auto simp: find_Some_iff)
  moreover from this have "j = i" using blocks_okD(3) [OF ok i(1) _ i(2)] by blast
  ultimately show ?thesis using Some by (simp add: view_def)
qed

lemma view_uncached:
  assumes ok: "blocks_ok b n D bs" and "\<And>i. i < CACHE_SIZE \<Longrightarrow> \<not> holds s (bs ! i)"
  shows "view bs D' s = D' s"
proof -
  have "find (holds s) bs = None"
    using assms(2) blocks_okD(1) [OF ok] by (metis find_None_iff in_set_conv_nth)
  then show ?thesis by (simp add: view_def)
qed

lemma entry_ok_mono:
  "entry_ok b n D x \<Longrightarrow> D' (cb_sector x) = D (cb_sector x) \<Longrightarrow> entry_ok b n D' x"
  by (simp add: entry_ok_def)

text \<open>Replacing one block, while the device changes at most in the sector the old block holds.\<close>

lemma blocks_ok_upd:
  assumes ok: "blocks_ok b n D bs" and i: "i < CACHE_SIZE" and y: "entry_ok b n D' y"
    and D': "\<And>s. D' s \<noteq> D s \<Longrightarrow> holds s (bs ! i)"
    and new: "\<And>j. cb_valid y \<Longrightarrow> j < CACHE_SIZE \<Longrightarrow> j \<noteq> i \<Longrightarrow> \<not> holds (cb_sector y) (bs ! j)"
  shows "blocks_ok b n D' (bs[i := y])"
  unfolding blocks_ok_def
proof (intro conjI allI impI)
  show "length (bs[i := y]) = CACHE_SIZE" using blocks_okD(1) [OF ok] by simp
next
  fix j assume j: "j < CACHE_SIZE"
  show "entry_ok b n D' (bs[i := y] ! j)"
  proof (cases "j = i")
    case True
    then show ?thesis using y i blocks_okD(1) [OF ok] by simp
  next
    case False
    have "D' (cb_sector (bs ! j)) = D (cb_sector (bs ! j))" if v: "cb_valid (bs ! j)"
    proof (rule ccontr)
      assume "D' (cb_sector (bs ! j)) \<noteq> D (cb_sector (bs ! j))"
      then have "holds (cb_sector (bs ! j)) (bs ! i)" by (rule D')
      then show False using blocks_okD(3) [OF ok j i v] False by blast
    qed
    then have "entry_ok b n D' (bs ! j)" using blocks_okD(2) [OF ok j] by (auto simp: entry_ok_def)
    then show ?thesis using False by simp
  qed
next
  fix j k assume j: "j < CACHE_SIZE" and k: "k < CACHE_SIZE" and jk: "j \<noteq> k" and v: "cb_valid (bs[i := y] ! j)"
  consider "j = i" "k \<noteq> i" | "k = i" "j \<noteq> i" | "j \<noteq> i" "k \<noteq> i" using jk by blast
  then show "\<not> holds (cb_sector (bs[i := y] ! j)) (bs[i := y] ! k)"
  proof cases
    case 1
    then show ?thesis using new [OF _ k] v i blocks_okD(1) [OF ok] by simp
  next
    case 2
    then show ?thesis using new [OF _ j] v i blocks_okD(1) [OF ok] by (auto simp: holds_def)
  next
    case 3
    then show ?thesis using blocks_okD(3) [OF ok j k] v jk by auto
  qed
qed

lemma view_upd:
  assumes ok: "blocks_ok b n D bs" and ok': "blocks_ok b n D' (bs[i := y])" and i: "i < CACHE_SIZE"
    and D': "\<And>s. D' s \<noteq> D s \<Longrightarrow> holds s (bs ! i)"
  shows "view (bs[i := y]) D' s =
    (if holds s y then cb_data y else if holds s (bs ! i) then D' s else view bs D s)"
proof (cases "\<exists>j<CACHE_SIZE. holds s (bs[i := y] ! j)")
  case True
  then obtain j where j: "j < CACHE_SIZE" "holds s (bs[i := y] ! j)" by blast
  have v: "view (bs[i := y]) D' s = cb_data (bs[i := y] ! j)"
    using view_cached [OF ok' j(1)] j(2) by (auto simp: holds_def)
  show ?thesis
  proof (cases "j = i")
    case True
    then show ?thesis using v j(2) i blocks_okD(1) [OF ok] by simp
  next
    case False
    then have h: "holds s (bs ! j)" "cb_valid (bs ! j)" "cb_sector (bs ! j) = s" using j(2) by (auto simp: holds_def)
    have "\<not> holds s (bs ! i)" using blocks_okD(3) [OF ok j(1) i h(2)] h(3) False by blast
    moreover have "\<not> holds s y"
      using blocks_okD(3) [OF ok' j(1) i] h False i blocks_okD(1) [OF ok] by auto
    ultimately show ?thesis using v view_cached [OF ok j(1) h(2)] h(3) False by simp
  qed
next
  case False
  then have "view (bs[i := y]) D' s = D' s" using view_uncached [OF ok'] by blast
  moreover have "\<not> holds s y" using False i blocks_okD(1) [OF ok] by (metis nth_list_update_eq)
  moreover have "view bs D s = D' s" if "\<not> holds s (bs ! i)"
  proof -
    have "view bs D s = D s"
      by (rule view_uncached [OF ok]) (metis False that nth_list_update_neq)
    then show ?thesis using D' that by metis
  qed
  ultimately show ?thesis by simp
qed

section \<open>The device under the cache\<close>

lemma device_read:
  assumes "device_ok b d" "s < block_size b d"
  shows "\<exists>d'. block_read b s d = Some (dev_sector b d s, d') \<and> device_ok b d' \<and>
    dev_sector b d' = dev_sector b d \<and> block_size b d' = block_size b d"
proof -
  have w: "wf_devices d" and b: "b < length (all_blocks d)" and s: "s < bk_size (all_blocks d ! b)"
    using assms by (simp_all add: device_ok_def block_size_def)
  obtain d' where d': "block_read b s d = Some (dev_sector b d s, d')" "disks d' = disks d"
    "same_layout (all_blocks d) (all_blocks d')"
    using block_read_ok [OF w b s] unfolding dev_sector_def by blast
  have "dev_sector b d' = dev_sector b d"
    using same_layout_home [OF d'(3) b] d'(2) by (intro ext) (simp add: dev_sector_def)
  moreover have "block_size b d' = block_size b d"
    using same_layoutD(2) [OF d'(3) b] by (simp add: block_size_def)
  ultimately show ?thesis
    using d'(1) same_layout_wf [OF d'(3) w] same_layoutD [OF d'(3)] b assms(1)
    by (simp add: device_ok_def)
qed

lemma device_write:
  assumes "device_ok b d" "s < block_size b d" "length buf = BLOCK_SECTOR_SIZE"
  shows "\<exists>d'. block_write b s buf d = Some d' \<and> device_ok b d' \<and>
    dev_sector b d' = (dev_sector b d)(s := buf) \<and> block_size b d' = block_size b d"
proof -
  have w: "wf_devices d" and b: "b < length (all_blocks d)" and s: "s < bk_size (all_blocks d ! b)"
    and t: "bk_type (all_blocks d ! b) \<noteq> BLOCK_FOREIGN"
    using assms by (simp_all add: device_ok_def block_size_def)
  obtain d' where d': "block_write b s buf d = Some d'"
    "\<And>n k. disks d' n k = (if (n, k) = home (all_blocks d) b s then buf else disks d n k)"
    "same_layout (all_blocks d) (all_blocks d')"
    using block_write_ok [OF w b s t, of buf] by blast
  have v: "dev_sector b d' = (dev_sector b d)(s := buf)"
  proof
    fix k
    have "case_prod (disks d') p = (if p = home (all_blocks d) b s then buf else case_prod (disks d) p)" for p
      by (cases p) (simp add: d'(2))
    then show "dev_sector b d' k = ((dev_sector b d)(s := buf)) k"
      using same_layout_home [OF d'(3) b, of k] home_inject [OF w b, of k s] by (auto simp: dev_sector_def)
  qed
  moreover have "block_size b d' = block_size b d"
    using same_layoutD(2) [OF d'(3) b] by (simp add: block_size_def)
  ultimately show ?thesis
    using d'(1) same_layout_wf [OF d'(3) w] same_layoutD [OF d'(3)] b assms(1,3)
    by (simp add: device_ok_def)
qed

section \<open>Reading and writing through the cache\<close>

lemma cache_invD:
  assumes "cache_inv b n c"
  shows "device_ok b (devs c)" and "block_size b (devs c) = n" and "blocks_ok b n (dev_sector b (devs c)) (blocks c)"
    and "i < CACHE_SIZE \<Longrightarrow> \<not> cb_lock (blocks c ! i)" and "\<not> cache_lock c" and "distinct (cache_list c)"
    and "set (cache_list c) = {..<CACHE_SIZE}" and "length (blocks c) = CACHE_SIZE"
    and "n < 2 ^ 32"
  using assms unfolding cache_inv_def blocks_ok_def device_ok_def wf_devices_def block_size_def by blast+

lemma upd_cb_simps [simp]:
  "devs (upd_cb i f c) = devs c" "cache_list (upd_cb i f c) = cache_list c" "cache_lock (upd_cb i f c) = cache_lock c"
  "length (blocks (upd_cb i f c)) = length (blocks c)" "flush_done (upd_cb i f c) = flush_done c"
  "i < length (blocks c) \<Longrightarrow> blocks (upd_cb i f c) ! i = f (blocks c ! i)"
  "i < length (blocks c) \<Longrightarrow> upd_cb i g (upd_cb i f c) = upd_cb i (\<lambda>x. g (f x)) c"
  by (simp_all add: upd_cb_def)

lemma upd_cb_id: "f (blocks c ! i) = blocks c ! i \<Longrightarrow> upd_cb i f c = c"
  by (simp add: upd_cb_def)

lemma relock [simp]:
  "\<not> cb_lock (blocks c ! i) \<Longrightarrow> upd_cb i (\<lambda>x. x\<lparr>cb_lock := False\<rparr>) c = c"
  by (rule upd_cb_id) simp

lemma search_unlocked:
  assumes "\<And>i. i < CACHE_SIZE \<Longrightarrow> \<not> cb_lock (blocks c ! i)" "length (blocks c) = CACHE_SIZE" "i + n \<le> CACHE_SIZE"
  shows "cache_search b s i n c =
    Some (case find (\<lambda>j. holds s (blocks c ! j) \<and> cb_block (blocks c ! j) = b) [i..<i + n] of
            None \<Rightarrow> (None, c)
          | Some j \<Rightarrow> (Some (j, False), (upd_cb j (\<lambda>x. x\<lparr>cb_lock := True\<rparr>) c)
              \<lparr>cache_list := removeAll j (cache_list c) @ [j]\<rparr>))"
  using assms(3)
proof (induction n arbitrary: i)
  case 0
  then show ?case by simp
next
  case (Suc n)
  have i: "i < CACHE_SIZE" "i < length (blocks c)" "\<not> cb_lock (blocks c ! i)" using Suc.prems assms(1,2) by auto
  have "[i..<i + Suc n] = i # [Suc i..<Suc i + n]" by (simp add: upt_rec)
  then show ?case
    using Suc.IH [of "Suc i"] Suc.prems i
    by (auto simp: acquire_cb_def release_cb_def holds_def Let_def split: option.split)
qed

text \<open>Marking the block fetched as valid and unlocking it.\<close>

definition finish :: "nat \<Rightarrow> cache \<Rightarrow> cache" where
  "finish i c = upd_cb i (\<lambda>x. x\<lparr>cb_valid := True, cb_lock := False\<rparr>) c"

definition fetched :: "nat \<Rightarrow> nat \<Rightarrow> nat \<Rightarrow> bool \<Rightarrow> cache \<Rightarrow> nat \<Rightarrow> cache \<Rightarrow> bool" where
  "fetched b n s w c i c' \<longleftrightarrow> i < CACHE_SIZE \<and> cb_lock (blocks c' ! i) \<and> cb_sector (blocks c' ! i) = s \<and>
     cb_data (blocks c' ! i) = contents b c s \<and> (w \<longrightarrow> cb_dirty (blocks c' ! i)) \<and> length (blocks c') = CACHE_SIZE \<and>
     cache_inv b n (finish i c') \<and> contents b (finish i c') = contents b c"

lemma fetchedI:
  assumes "i < CACHE_SIZE" "cb_lock (blocks c' ! i)" "cb_sector (blocks c' ! i) = s"
    "cb_data (blocks c' ! i) = contents b c s" "w \<longrightarrow> cb_dirty (blocks c' ! i)" "length (blocks c') = CACHE_SIZE"
    "cache_inv b n (finish i c')" "contents b (finish i c') = contents b c"
  shows "fetched b n s w c i c'"
  using assms unfolding fetched_def by blast

lemma touch_list:
  assumes "distinct xs" "set xs = {..<CACHE_SIZE}" "i < CACHE_SIZE"
  shows "distinct (removeAll i xs @ [i])" "set (removeAll i xs @ [i]) = {..<CACHE_SIZE}"
  using assms by (auto simp: distinct_removeAll)

lemma fetched_hit:
  assumes inv: "cache_inv b n c" and i: "i < CACHE_SIZE" and h: "holds s (blocks c ! i)"
  shows "fetched b n s w c i ((upd_cb i (\<lambda>x. x\<lparr>cb_lock := True, cb_dirty := w \<or> cb_dirty x\<rparr>) c)
    \<lparr>cache_list := removeAll i (cache_list c) @ [i]\<rparr>)" (is "fetched _ _ _ _ _ _ ?c")
proof -
  note I = cache_invD [OF inv]
  define y where "y = (blocks c ! i)\<lparr>cb_dirty := w \<or> cb_dirty (blocks c ! i)\<rparr>"
  have v: "cb_valid (blocks c ! i)" "cb_sector (blocks c ! i) = s" using h by (auto simp: holds_def)
  have e: "(blocks c ! i)\<lparr>cb_dirty := w \<or> cb_dirty (blocks c ! i), cb_valid := True, cb_lock := False\<rparr> = y"
    using I(4) [OF i] v(1) unfolding y_def by (cases "blocks c ! i") simp
  have f: "finish i ?c = c\<lparr>blocks := (blocks c)[i := y], cache_list := removeAll i (cache_list c) @ [i]\<rparr>"
    using i I(8) e by (cases c) (simp add: finish_def upd_cb_def)
  have y: "cb_data y = cb_data (blocks c ! i)" "holds t y = holds t (blocks c ! i)" "\<not> cb_lock y" for t
    using I(4) [OF i] by (simp_all add: y_def holds_def)
  have ok: "blocks_ok b n (dev_sector b (devs c)) ((blocks c)[i := y])"
  proof (rule blocks_ok_upd [OF I(3) i])
    show "entry_ok b n (dev_sector b (devs c)) y" using blocks_okD(2) [OF I(3) i] by (simp add: y_def entry_ok_def)
    show "\<not> holds (cb_sector y) (blocks c ! j)" if "j < CACHE_SIZE" "j \<noteq> i" for j
      using blocks_okD(3) [OF I(3) i that(1) v(1)] that(2) by (auto simp: y_def)
  qed simp
  have con: "contents b (finish i ?c) = contents b c"
  proof
    fix t
    show "contents b (finish i ?c) t = contents b c t"
      using view_upd [OF I(3) ok i, of t] view_cached [OF I(3) i v(1)] y(1,2)
      by (auto simp: contents_def f holds_def)
  qed
  have L: "\<not> cb_lock ((blocks c)[i := y] ! j)" if "j < CACHE_SIZE" for j
    using I(4) [OF that] y(3) I(8) that by (cases "j = i") auto
  have data: "cb_data (blocks c ! i) = contents b c s"
    using view_cached [OF I(3) i v(1)] v(2) by (simp add: contents_def)
  have inv': "cache_inv b n (finish i ?c)"
    using I(1,2,5) ok L touch_list [OF I(6,7) i] unfolding f cache_inv_def by simp
  have C: "cb_lock (blocks ?c ! i)" "cb_sector (blocks ?c ! i) = s" "cb_data (blocks ?c ! i) = cb_data (blocks c ! i)"
    "w \<longrightarrow> cb_dirty (blocks ?c ! i)" "length (blocks ?c) = CACHE_SIZE"
    using i I(8) v(2) by simp_all
  show ?thesis by (rule fetchedI [OF i C(1,2) _ C(4,5) inv' con]) (simp only: C(3) data)
qed

text \<open>Writing back a block, if it is dirty, makes the device hold its data.\<close>

lemma write_back:
  assumes inv: "cache_inv b n c" and i: "i < CACHE_SIZE"
  shows "\<exists>d. (if cb_valid (blocks c ! i) \<and> cb_dirty (blocks c ! i)
      then block_write (cb_block (blocks c ! i)) (cb_sector (blocks c ! i)) (cb_data (blocks c ! i)) (devs c)
      else Some (devs c)) = Some d \<and> device_ok b d \<and> block_size b d = n \<and>
    dev_sector b d = (if cb_valid (blocks c ! i)
      then (dev_sector b (devs c))(cb_sector (blocks c ! i) := cb_data (blocks c ! i)) else dev_sector b (devs c))"
proof -
  note I = cache_invD [OF inv]
  note e = blocks_okD(2) [OF I(3) i, unfolded entry_ok_def]
  show ?thesis
  proof (cases "cb_valid (blocks c ! i) \<and> cb_dirty (blocks c ! i)")
    case True
    then show ?thesis
      using device_write [OF I(1), of "cb_sector (blocks c ! i)" "cb_data (blocks c ! i)"] e I(2) by auto
  next
    case False
    then have "cb_valid (blocks c ! i) \<Longrightarrow> cb_data (blocks c ! i) = dev_sector b (devs c) (cb_sector (blocks c ! i))"
      using e by blast
    then show ?thesis using False I(1,2) by auto
  qed
qed

lemma fetched_miss:
  assumes inv: "cache_inv b n c" and s: "s < n" and miss: "\<And>i. i < CACHE_SIZE \<Longrightarrow> \<not> holds s (blocks c ! i)"
    and locked: "cl = c\<lparr>cache_lock := True\<rparr>"
  shows "\<exists>i c'. cache_evict b s w cl = Some (i, False, c') \<and> fetched b n s w c i c'"
proof -
  note I = cache_invD [OF inv]
  define i where "i = hd (cache_list c)"
  have ne: "cache_list c \<noteq> []" using I(7) by (metis CACHE_SIZE_def empty_set lessThan_iff empty_iff zero_less_numeral)
  then have i: "i < CACHE_SIZE" using I(7) hd_in_set [OF ne] by (auto simp: i_def)
  obtain d where d: "(if cb_valid (blocks c ! i) \<and> cb_dirty (blocks c ! i)
      then block_write (cb_block (blocks c ! i)) (cb_sector (blocks c ! i)) (cb_data (blocks c ! i)) (devs c)
      else Some (devs c)) = Some d" "device_ok b d" "block_size b d = n"
    and D: "dev_sector b d = (if cb_valid (blocks c ! i)
      then (dev_sector b (devs c))(cb_sector (blocks c ! i) := cb_data (blocks c ! i)) else dev_sector b (devs c))"
    using write_back [OF inv i] by blast
  obtain d' where d': "block_read b s d = Some (dev_sector b d s, d')" "device_ok b d'"
    "dev_sector b d' = dev_sector b d" "block_size b d' = n"
    using device_read [OF d(2)] s d(3) by auto
  define y where "y = (blocks c ! i)\<lparr>cb_block := b, cb_sector := s, cb_data := dev_sector b d s, cb_dirty := w, cb_valid := True\<rparr>"
  have D1: "holds t (blocks c ! i)" if "dev_sector b d t \<noteq> dev_sector b (devs c) t" for t
    using that D by (auto simp: holds_def split: if_splits)
  have ds: "dev_sector b d s = contents b c s"
    using view_uncached [OF I(3) miss] D1 [of s] miss [OF i] by (auto simp: contents_def)
  define L where "L = tl (cache_list c) @ [i]"
  define c' where "c' = c\<lparr>devs := d', blocks := (blocks c)[i := y\<lparr>cb_valid := False, cb_lock := True\<rparr>], cache_list := L\<rparr>"
  have e: "(blocks c ! i)\<lparr>cb_lock := True, cb_block := b, cb_sector := s, cb_valid := False, cb_data := dev_sector b d s,
      cb_dirty := w\<rparr> = y\<lparr>cb_valid := False, cb_lock := True\<rparr>"
    "y\<lparr>cb_valid := False, cb_lock := True, cb_valid := True, cb_lock := False\<rparr> = y"
    using I(4) [OF i] unfolding y_def by (cases "blocks c ! i"; simp)+
  have run: "cache_evict b s w cl = Some (i, False, c')"
  proof (cases "cb_valid (blocks c ! i) \<and> cb_dirty (blocks c ! i)")
    case True
    then have "block_write (cb_block (blocks c ! i)) (cb_sector (blocks c ! i)) (cb_data (blocks c ! i)) (devs c) = Some d"
      using d(1) by simp
    then show ?thesis
      using True ne d'(1) I(4) [OF i] I(5,8) i e unfolding locked L_def c'_def cache_evict_def
      by (simp add: acquire_cb_def release_cache_def i_def [symmetric] upd_cb_def)
  next
    case False
    then have dd: "devs c = d" using d(1) by (simp split: if_splits)
    consider "\<not> cb_valid (blocks c ! i)" | "\<not> cb_dirty (blocks c ! i)" using False by blast
    then show ?thesis
      using dd ne d'(1) I(4) [OF i] I(5,8) i e unfolding locked L_def c'_def cache_evict_def
      by cases (simp_all add: acquire_cb_def release_cache_def i_def [symmetric] upd_cb_def)
  qed
  have f: "finish i c' = c\<lparr>devs := d', blocks := (blocks c)[i := y], cache_list := L\<rparr>"
    using I(8) i e(2) by (simp add: finish_def upd_cb_def c'_def)
  have ok: "blocks_ok b n (dev_sector b d') ((blocks c)[i := y])"
  proof (rule blocks_ok_upd [OF I(3) i])
    show "entry_ok b n (dev_sector b d') y" 
      using s d(2,3) d'(3) by (simp add: y_def entry_ok_def device_ok_def)
    show "\<not> holds (cb_sector y) (blocks c ! j)" if "j < CACHE_SIZE" for j
      using miss [OF that] by (simp add: y_def)
  qed (simp add: d'(3) D1)
  have con: "contents b (finish i c') = contents b c"
  proof
    fix t
    have "view (blocks c) (dev_sector b (devs c)) t = dev_sector b d t" if "holds t (blocks c ! i)"
      using view_cached [OF I(3) i] that D by (auto simp: holds_def)
    then show "contents b (finish i c') t = contents b c t"
      using view_upd [OF I(3) ok i, of t] ds d'(3) D1 by (auto simp: contents_def f y_def holds_def)
  qed
  have L: "\<not> cb_lock ((blocks c)[i := y] ! j)" if "j < CACHE_SIZE" for j
    using I(4) [OF that] I(8) that by (cases "j = i") (auto simp: y_def)
  have LL: "distinct L" "set L = {..<CACHE_SIZE}"
    using I(6) I(7) [symmetric] ne unfolding L_def i_def by (cases "cache_list c"; simp)+
  have inv': "cache_inv b n (finish i c')"
    using I(5) ok d'(2,4) L LL unfolding f cache_inv_def by simp
  have C: "cb_lock (blocks c' ! i)" "cb_sector (blocks c' ! i) = s" "cb_data (blocks c' ! i) = contents b c s"
    "w \<longrightarrow> cb_dirty (blocks c' ! i)" "length (blocks c') = CACHE_SIZE"
    using i I(8) ds by (simp_all add: c'_def y_def)
  have "fetched b n s w c i c'" by (rule fetchedI [OF i C inv' con])
  then show ?thesis using run by blast
qed

lemma cache_get_ok:
  assumes inv: "cache_inv b n c" and s: "s < n"
  shows "\<exists>i c'. cache_get b s w c = Some (i, False, c') \<and> fetched b n s w c i c'"
proof -
  note I = cache_invD [OF inv]
  define cl where "cl = c\<lparr>cache_lock := True\<rparr>"
  have sn: "s \<noteq> BLOCK_SECTOR_NONE" using s I(9) by (simp add: BLOCK_SECTOR_NONE_def)
  have acq: "acquire_cache c = Some cl" using I(5) by (simp add: acquire_cache_def cl_def)
  have eq: "holds s (blocks c ! j) \<and> cb_block (blocks c ! j) = b \<longleftrightarrow> holds s (blocks c ! j)" if "j < CACHE_SIZE" for j
    using blocks_okD(2) [OF I(3) that] by (auto simp: holds_def entry_ok_def)
  have find: "find (\<lambda>j. holds s (blocks c ! j) \<and> cb_block (blocks c ! j) = b) [0..<CACHE_SIZE] =
      find (\<lambda>j. holds s (blocks c ! j)) [0..<CACHE_SIZE]"
    by (rule find_cong) (simp_all add: eq)
  have search: "cache_search b s 0 CACHE_SIZE cl =
    Some (case find (\<lambda>j. holds s (blocks c ! j)) [0..<CACHE_SIZE] of
            None \<Rightarrow> (None, cl)
          | Some j \<Rightarrow> (Some (j, False), (upd_cb j (\<lambda>x. x\<lparr>cb_lock := True\<rparr>) cl)
              \<lparr>cache_list := removeAll j (cache_list cl) @ [j]\<rparr>))"
    using search_unlocked [of cl 0 CACHE_SIZE b s] I(4,8) find by (simp add: cl_def)
  show ?thesis
  proof (cases "find (\<lambda>j. holds s (blocks c ! j)) [0..<CACHE_SIZE]")
    case None
    then have "\<not> holds s (blocks c ! i)" if "i < CACHE_SIZE" for i using that by (simp add: find_None_iff)
    then obtain i c' where "cache_evict b s w cl = Some (i, False, c')" "fetched b n s w c i c'"
      using fetched_miss [OF inv s _ cl_def, of w] by blast
    then show ?thesis using None sn search acq by (simp add: cache_get_def)
  next
    case (Some i)
    then have i: "i < CACHE_SIZE" "holds s (blocks c ! i)" by (auto simp: find_Some_iff)
    have e: "x\<lparr>cb_lock := True, cb_dirty := True\<rparr> = x\<lparr>cb_lock := True, cb_dirty := True \<or> cb_dirty x\<rparr>"
      "x\<lparr>cb_lock := True\<rparr> = x\<lparr>cb_lock := True, cb_dirty := False \<or> cb_dirty x\<rparr>" for x :: cache_block
      by simp_all
    define c' where "c' = (upd_cb i (\<lambda>x. x\<lparr>cb_lock := True, cb_dirty := w \<or> cb_dirty x\<rparr>) c)
      \<lparr>cache_list := removeAll i (cache_list c) @ [i]\<rparr>"
    have "cache_get b s w c = Some (i, False, c')"
      using Some sn search acq I(5,8) i(1)
      by (cases w) (simp_all add: cache_get_def release_cache_def cl_def c'_def upd_cb_def)
    then show ?thesis using fetched_hit [OF inv i, of w] c'_def by blast
  qed
qed

lemma contents_length:
  assumes "cache_inv b n c" "s < n"
  shows "length (contents b c s) = BLOCK_SECTOR_SIZE"
proof -
  obtain i c' where f: "fetched b n s False c i c'" using cache_get_ok [OF assms] by blast
  then have i: "i < CACHE_SIZE" "length (blocks c') = CACHE_SIZE" and inv: "cache_inv b n (finish i c')"
    by (simp_all add: fetched_def)
  have "entry_ok b n (dev_sector b (devs (finish i c'))) (blocks (finish i c') ! i)"
    using blocks_okD(2) [OF cache_invD(3) [OF inv] i(1)] .
  then show ?thesis using f i by (simp add: entry_ok_def fetched_def finish_def)
qed

lemma cache_read_ok:
  assumes inv: "cache_inv b n c" and s: "s < n" and sz: "offset + sz \<le> BLOCK_SECTOR_SIZE"
  shows "\<exists>c'. cache_read b s sz offset c = Some (take sz (drop offset (contents b c s)), c') \<and>
    cache_inv b n c' \<and> contents b c' = contents b c"
proof -
  obtain i c' where g: "cache_get b s False c = Some (i, False, c')" and f: "fetched b n s False c i c'"
    using cache_get_ok [OF inv s] by blast
  have "cache_read b s sz offset c = Some (take sz (drop offset (contents b c s)), finish i c')"
    using g f contents_length [OF inv s] sz
    by (simp add: cache_read_def fetched_def release_cb_def finish_def)
  then show ?thesis using f by (simp add: fetched_def)
qed

text \<open>Changing the data of a dirty block changes the contents of its sector only.\<close>

lemma modify_dirty:
  assumes inv: "cache_inv b n c" and i: "i < CACHE_SIZE" "cb_valid (blocks c ! i)" "cb_dirty (blocks c ! i)"
    and v: "length v = BLOCK_SECTOR_SIZE"
  shows "cache_inv b n (upd_cb i (\<lambda>x. x\<lparr>cb_data := v\<rparr>) c)"
    and "contents b (upd_cb i (\<lambda>x. x\<lparr>cb_data := v\<rparr>) c) = (contents b c)(cb_sector (blocks c ! i) := v)"
proof -
  note I = cache_invD [OF inv]
  define y where "y = (blocks c ! i)\<lparr>cb_data := v\<rparr>"
  have u: "upd_cb i (\<lambda>x. x\<lparr>cb_data := v\<rparr>) c = c\<lparr>blocks := (blocks c)[i := y]\<rparr>" by (simp add: upd_cb_def y_def)
  have ok: "blocks_ok b n (dev_sector b (devs c)) ((blocks c)[i := y])"
  proof (rule blocks_ok_upd [OF I(3) i(1)])
    show "entry_ok b n (dev_sector b (devs c)) y"
      using blocks_okD(2) [OF I(3) i(1)] i v by (simp add: y_def entry_ok_def)
    show "\<not> holds (cb_sector y) (blocks c ! j)" if "j < CACHE_SIZE" "j \<noteq> i" for j
      using blocks_okD(3) [OF I(3) i(1) that(1) i(2)] that(2) by (auto simp: y_def)
  qed simp
  have L: "\<not> cb_lock ((blocks c)[i := y] ! j)" if "j < CACHE_SIZE" for j
    using I(4) [OF that] I(8) that by (cases "j = i") (auto simp: y_def)
  show "cache_inv b n (upd_cb i (\<lambda>x. x\<lparr>cb_data := v\<rparr>) c)"
    using I(1,2,5,6,7) ok L unfolding u cache_inv_def by simp
  show "contents b (upd_cb i (\<lambda>x. x\<lparr>cb_data := v\<rparr>) c) = (contents b c)(cb_sector (blocks c ! i) := v)"
  proof
    fix t
    show "contents b (upd_cb i (\<lambda>x. x\<lparr>cb_data := v\<rparr>) c) t = ((contents b c)(cb_sector (blocks c ! i) := v)) t"
      unfolding u using view_upd [OF I(3) ok i(1), of t] i(2) by (auto simp: contents_def y_def holds_def)
  qed
qed

lemma length_patch [simp]: "offset + length buf \<le> length xs \<Longrightarrow> length (patch offset buf xs) = length xs"
  by (simp add: patch_def)

lemma cache_write_ok:
  assumes inv: "cache_inv b n c" and s: "s < n" and sz: "offset + length buf \<le> BLOCK_SECTOR_SIZE"
  shows "\<exists>c'. cache_write b s buf offset c = Some c' \<and> cache_inv b n c' \<and>
    contents b c' = (contents b c)(s := patch offset buf (contents b c s))"
proof -
  obtain i c' where g: "cache_get b s True c = Some (i, False, c')" and f: "fetched b n s True c i c'"
    using cache_get_ok [OF inv s] by blast
  define v where "v = patch offset buf (contents b c s)"
  have v: "length v = BLOCK_SECTOR_SIZE" using contents_length [OF inv s] sz by (simp add: v_def)
  have i: "i < CACHE_SIZE" "length (blocks c') = CACHE_SIZE" using f by (simp_all add: fetched_def)
  have F: "cb_valid (blocks (finish i c') ! i)" "cb_dirty (blocks (finish i c') ! i)"
    "cb_sector (blocks (finish i c') ! i) = s" "cache_inv b n (finish i c')"
    using f i by (simp_all add: fetched_def finish_def)
  have "(cb_data_update (patch offset buf) (blocks c' ! i))\<lparr>cb_valid := True, cb_lock := False\<rparr> =
      (blocks c' ! i)\<lparr>cb_valid := True, cb_lock := False, cb_data := patch offset buf (contents b c s)\<rparr>"
    using f by (cases "blocks c' ! i") (simp add: fetched_def)
  then have "upd_cb i (\<lambda>x. (cb_data_update (patch offset buf) x)\<lparr>cb_valid := True, cb_lock := False\<rparr>) c' =
      upd_cb i (\<lambda>x. x\<lparr>cb_data := v\<rparr>) (finish i c')"
    unfolding finish_def v_def upd_cb_simps(7) [OF i(1) [folded i(2)]] by (simp only: upd_cb_def)
  then have "cache_write b s buf offset c = Some (upd_cb i (\<lambda>x. x\<lparr>cb_data := v\<rparr>) (finish i c'))"
    using g f contents_length [OF inv s] sz i
    by (simp add: cache_write_def fetched_def release_cb_def)
  then show ?thesis
    using modify_dirty [OF F(4) i(1) F(1,2) v] F(3) f by (simp add: fetched_def v_def)
qed

section \<open>Flushing and freeing\<close>

text \<open>One turn of the loop of \<open>cache_flush\<close>; the device changes only where the block was dirty.\<close>

lemma flush_turn:
  assumes inv: "cache_inv b n (c\<lparr>cache_lock := False\<rparr>)" and i: "i < CACHE_SIZE"
  shows "\<exists>c'. flush_loop i (Suc k) c = flush_loop (Suc i) k c' \<and> cache_inv b n (c'\<lparr>cache_lock := False\<rparr>) \<and>
    cache_lock c' = cache_lock c \<and> contents b c' = contents b c \<and>
    \<not> (cb_valid (blocks c' ! i) \<and> cb_dirty (blocks c' ! i)) \<and> (\<forall>j. j \<noteq> i \<longrightarrow> blocks c' ! j = blocks c ! j)"
proof -
  note I = cache_invD [OF inv, simplified]
  show ?thesis
  proof (cases "cb_valid (blocks c ! i) \<and> cb_dirty (blocks c ! i)")
    case True
    define y where "y = (blocks c ! i)\<lparr>cb_dirty := False\<rparr>"
    obtain d where d: "block_write (cb_block (blocks c ! i)) (cb_sector (blocks c ! i)) (cb_data (blocks c ! i)) (devs c) = Some d"
      "device_ok b d" "block_size b d = n"
      and D: "dev_sector b d = (dev_sector b (devs c))(cb_sector (blocks c ! i) := cb_data (blocks c ! i))"
      using write_back [OF inv i] True by auto
    define c' where "c' = c\<lparr>devs := d, blocks := (blocks c)[i := y]\<rparr>"
    have e: "(blocks c ! i)\<lparr>cb_lock := True, cb_dirty := False, cb_lock := False\<rparr> = y"
      using I(4) [OF i] by (cases "blocks c ! i") (simp add: y_def)
    have run: "flush_loop i (Suc k) c = flush_loop (Suc i) k c'"
      using True d(1) I(4) [OF i] I(8) i e by (simp add: acquire_cb_def release_cb_def upd_cb_def c'_def)
    have D1: "holds t (blocks c ! i)" if "dev_sector b d t \<noteq> dev_sector b (devs c) t" for t
      using that D True by (auto simp: holds_def split: if_splits)
    have ok: "blocks_ok b n (dev_sector b d) ((blocks c)[i := y])"
    proof (rule blocks_ok_upd [OF I(3) i])
      show "entry_ok b n (dev_sector b d) y" using blocks_okD(2) [OF I(3) i] D by (simp add: y_def entry_ok_def)
      show "\<not> holds (cb_sector y) (blocks c ! j)" if "j < CACHE_SIZE" "j \<noteq> i" for j
        using blocks_okD(3) [OF I(3) i that(1)] True that(2) by (auto simp: y_def)
    qed (rule D1)
    have L: "\<not> cb_lock ((blocks c)[i := y] ! j)" if "j < CACHE_SIZE" for j
      using I(4) [OF that] I(8) that by (cases "j = i") (auto simp: y_def)
    have "contents b c' t = contents b c t" for t
      using view_upd [OF I(3) ok i D1, of t] view_cached [OF I(3) i] True
      by (auto simp: contents_def c'_def y_def holds_def)
    moreover have "cache_inv b n (c'\<lparr>cache_lock := False\<rparr>)"
      using d(2,3) ok L I(6,7) unfolding cache_inv_def c'_def by simp
    ultimately show ?thesis using run i I(8) by (intro exI [of _ c']) (auto simp: c'_def y_def)
  next
    case False
    consider "\<not> cb_valid (blocks c ! i)" | "\<not> cb_dirty (blocks c ! i)" using False by blast
    then have "flush_loop i (Suc k) c = flush_loop (Suc i) k c"
      using I(4) [OF i] I(8) i by cases (simp_all add: acquire_cb_def release_cb_def)
    then show ?thesis using False inv by blast
  qed
qed

lemma flush_loop_ok:
  assumes "cache_inv b n (c\<lparr>cache_lock := False\<rparr>)" "i + k = CACHE_SIZE"
    "\<And>j. j < i \<Longrightarrow> \<not> (cb_valid (blocks c ! j) \<and> cb_dirty (blocks c ! j))"
  shows "\<exists>c'. flush_loop i k c = Some c' \<and> cache_inv b n (c'\<lparr>cache_lock := False\<rparr>) \<and> cache_lock c' = cache_lock c \<and>
    contents b c' = contents b c \<and> (\<forall>j<CACHE_SIZE. \<not> (cb_valid (blocks c' ! j) \<and> cb_dirty (blocks c' ! j)))"
  using assms
proof (induction k arbitrary: i c)
  case 0
  then show ?case by simp
next
  case (Suc k)
  then have "i < CACHE_SIZE" by simp
  then obtain c1 where c1: "flush_loop i (Suc k) c = flush_loop (Suc i) k c1"
    "cache_inv b n (c1\<lparr>cache_lock := False\<rparr>)" "cache_lock c1 = cache_lock c" "contents b c1 = contents b c"
    "\<not> (cb_valid (blocks c1 ! i) \<and> cb_dirty (blocks c1 ! i))" "\<forall>j. j \<noteq> i \<longrightarrow> blocks c1 ! j = blocks c ! j"
    using flush_turn [OF Suc.prems(1)] by blast
  have "\<not> (cb_valid (blocks c1 ! j) \<and> cb_dirty (blocks c1 ! j))" if "j < Suc i" for j
    using c1(5,6) Suc.prems(3) that by (cases "j = i") auto
  then show ?case using Suc.IH [OF c1(2), of "Suc i"] Suc.prems(2) c1(1,3,4) by auto
qed

lemma cache_flush_ok:
  assumes inv: "cache_inv b n c"
  shows "\<exists>c'. cache_flush fin c = Some c' \<and> cache_inv b n c' \<and> contents b c' = contents b c \<and>
    (\<forall>s<n. dev_sector b (devs c') s = contents b c s)"
proof -
  define c0 where "c0 = (if fin then c\<lparr>flush_done := fin\<rparr> else c)\<lparr>cache_lock := True\<rparr>"
  have inv0: "cache_inv b n (c0\<lparr>cache_lock := False\<rparr>)" and con0: "contents b c0 = contents b c"
    using inv by (simp_all add: c0_def cache_inv_def contents_def)
  obtain c' where c': "flush_loop 0 CACHE_SIZE c0 = Some c'" "cache_inv b n (c'\<lparr>cache_lock := False\<rparr>)"
    "cache_lock c' = cache_lock c0" "contents b c' = contents b c0"
    and clean: "\<And>j. j < CACHE_SIZE \<Longrightarrow> \<not> (cb_valid (blocks c' ! j) \<and> cb_dirty (blocks c' ! j))"
    using flush_loop_ok [OF inv0, of 0 CACHE_SIZE] by auto
  note I = cache_invD [OF c'(2), simplified]
  have "cache_flush fin c = Some (c'\<lparr>cache_lock := False\<rparr>)"
    using c'(1,3) cache_invD(5) [OF inv]
    by (cases fin) (simp_all add: cache_flush_def acquire_cache_def release_cache_def c0_def)
  moreover have "view (blocks c') (dev_sector b (devs c')) s = dev_sector b (devs c') s" for s
  proof (cases "\<exists>i<CACHE_SIZE. holds s (blocks c' ! i)")
    case True
    then obtain i where "i < CACHE_SIZE" "cb_valid (blocks c' ! i)" "cb_sector (blocks c' ! i) = s"
      by (auto simp: holds_def)
    then show ?thesis
      using view_cached [OF I(3), of i] blocks_okD(2) [OF I(3), of i] clean [of i] by (auto simp: entry_ok_def)
  next
    case False
    then show ?thesis using view_uncached [OF I(3)] by blast
  qed
  ultimately show ?thesis using c'(2,4) con0 by (simp add: contents_def)
qed

text \<open>Freeing a sector drops its cached copy; the other sectors keep their contents.\<close>

lemma free_block:
  assumes inv: "cache_inv b n (c\<lparr>cache_lock := False\<rparr>)" and i: "i < CACHE_SIZE" and h: "holds s (blocks c ! i)"
  defines "c' \<equiv> upd_cb i (\<lambda>x. x\<lparr>cb_valid := False, cb_dirty := False\<rparr>) c"
  shows "cache_inv b n (c'\<lparr>cache_lock := False\<rparr>)" and "contents b c' = (contents b c)(s := dev_sector b (devs c) s)"
proof -
  note I = cache_invD [OF inv, simplified]
  define y where "y = (blocks c ! i)\<lparr>cb_valid := False, cb_dirty := False\<rparr>"
  have u: "c' = c\<lparr>blocks := (blocks c)[i := y]\<rparr>" by (simp add: c'_def upd_cb_def y_def)
  have ok: "blocks_ok b n (dev_sector b (devs c)) ((blocks c)[i := y])"
    by (rule blocks_ok_upd [OF I(3) i]) (simp_all add: y_def entry_ok_def)
  have L: "\<not> cb_lock ((blocks c)[i := y] ! j)" if "j < CACHE_SIZE" for j
    using I(4) [OF that] I(8) that by (cases "j = i") (auto simp: y_def)
  show "cache_inv b n (c'\<lparr>cache_lock := False\<rparr>)" using I(1,2,6,7) ok L unfolding u cache_inv_def by simp
  show "contents b c' = (contents b c)(s := dev_sector b (devs c) s)"
  proof
    fix t
    show "contents b c' t = ((contents b c)(s := dev_sector b (devs c) s)) t"
      unfolding u using view_upd [OF I(3) ok i, of t] h by (auto simp: contents_def y_def holds_def)
  qed
qed

lemma free_loop_ok:
  assumes inv: "cache_inv b n (c\<lparr>cache_lock := False\<rparr>)"
  shows "i + k = CACHE_SIZE \<Longrightarrow> (\<And>j. j < i \<Longrightarrow> \<not> holds s (blocks c ! j)) \<Longrightarrow>
    \<exists>c'. free_loop b s i k c = Some c' \<and> cache_inv b n (c'\<lparr>cache_lock := False\<rparr>) \<and> cache_lock c' = cache_lock c \<and>
      contents b c' = (contents b c)(s := dev_sector b (devs c) s)"
proof (induction k arbitrary: i)
  case 0
  then have "contents b c s = dev_sector b (devs c) s"
    using view_uncached [OF cache_invD(3) [OF inv, simplified]] by (simp add: contents_def)
  then show ?case using inv by (simp add: fun_upd_idem)
next
  case (Suc k)
  note I = cache_invD [OF inv, simplified]
  have i: "i < CACHE_SIZE" using Suc.prems by simp
  note l = I(4) [OF i] I(8)
  show ?case
  proof (cases "holds s (blocks c ! i)")
    case True
    then have "cb_block (blocks c ! i) = b" using blocks_okD(2) [OF I(3) i] by (simp add: holds_def entry_ok_def)
    moreover have e: "upd_cb i (\<lambda>x. x\<lparr>cb_lock := True, cb_valid := False, cb_dirty := False, cb_lock := False\<rparr>) c =
        upd_cb i (\<lambda>x. x\<lparr>cb_valid := False, cb_dirty := False\<rparr>) c"
      using l(1) by (cases "blocks c ! i") (simp add: upd_cb_def)
    ultimately have "free_loop b s i (Suc k) c = Some (upd_cb i (\<lambda>x. x\<lparr>cb_valid := False, cb_dirty := False\<rparr>) c)"
      using True l i by (simp add: acquire_cb_def release_cb_def holds_def)
    then show ?thesis using free_block [OF inv i True] upd_cb_simps(3) by blast
  next
    case False
    then have "free_loop b s i (Suc k) c = free_loop b s (Suc i) k c"
      using l i by (auto simp: acquire_cb_def release_cb_def holds_def)
    then show ?thesis using Suc.IH [of "Suc i"] Suc.prems False by (metis add_Suc_shift less_Suc_eq)
  qed
qed

lemma cache_free_ok:
  assumes inv: "cache_inv b n c" and s: "s < n"
  shows "\<exists>c'. cache_free b s c = Some c' \<and> cache_inv b n c' \<and> contents b c' = (contents b c)(s := dev_sector b (devs c) s)"
proof -
  note I = cache_invD [OF inv]
  have inv0: "cache_inv b n (c\<lparr>cache_lock := True, cache_lock := False\<rparr>)"
    using inv by (simp add: cache_inv_def)
  obtain c' where c': "free_loop b s 0 CACHE_SIZE (c\<lparr>cache_lock := True\<rparr>) = Some c'"
    "cache_inv b n (c'\<lparr>cache_lock := False\<rparr>)" "cache_lock c'"
    "contents b c' = (contents b c)(s := dev_sector b (devs c) s)"
    using free_loop_ok [OF inv0, of 0 CACHE_SIZE s] by (auto simp: contents_def)
  have "s \<noteq> BLOCK_SECTOR_NONE" using s I(9) by (simp add: BLOCK_SECTOR_NONE_def)
  then have "cache_free b s c = Some (c'\<lparr>cache_lock := False\<rparr>)"
    using c'(1,3) I(5) by (simp add: cache_free_def acquire_cache_def release_cache_def)
  then show ?thesis using c'(2,4) by (simp add: contents_def)
qed

lemma cache_init_ok:
  assumes d: "device_ok b d" and bs: "length bs = CACHE_SIZE"
  shows "cache_inv b (block_size b d) (cache_init d bs)" and "contents b (cache_init d bs) = dev_sector b d"
proof -
  have ok: "blocks_ok b (block_size b d) (dev_sector b d) (blocks (cache_init d bs))"
    using bs by (simp add: blocks_ok_def cache_init_def entry_ok_def)
  show "cache_inv b (block_size b d) (cache_init d bs)"
    using ok d bs by (auto simp: cache_inv_def cache_init_def)
  show "contents b (cache_init d bs) = dev_sector b d"
    using view_uncached [OF ok] bs by (intro ext) (auto simp: contents_def cache_init_def holds_def)
qed

section \<open>Sector stores\<close>

text \<open>
  The interface the file system uses: parts of sectors are read and written.  \<open>con\<close> gives the
  contents of the sectors; a store that obeys the two laws behaves as an array of sectors.
\<close>

datatype request = Read nat nat nat | Write nat "u8 list" nat

fun in_range :: "nat \<Rightarrow> request \<Rightarrow> bool" where
  "in_range n (Read s sz ofs) \<longleftrightarrow> s < n \<and> ofs + sz \<le> BLOCK_SECTOR_SIZE"
| "in_range n (Write s buf ofs) \<longleftrightarrow> s < n \<and> ofs + length buf \<le> BLOCK_SECTOR_SIZE"

fun serve :: "(nat \<Rightarrow> nat \<Rightarrow> nat \<Rightarrow> 's \<Rightarrow> (u8 list \<times> 's) option) \<Rightarrow> (nat \<Rightarrow> u8 list \<Rightarrow> nat \<Rightarrow> 's \<Rightarrow> 's option) \<Rightarrow>
    request list \<Rightarrow> 's \<Rightarrow> (u8 list list \<times> 's) option" where
  "serve rd wr [] st = Some ([], st)"
| "serve rd wr (Read s sz ofs # rs) st = do {
     (x, st) \<leftarrow> rd s sz ofs st;
     (xs, st) \<leftarrow> serve rd wr rs st;
     Some (x # xs, st)
   }"
| "serve rd wr (Write s buf ofs # rs) st = do { st \<leftarrow> wr s buf ofs st; serve rd wr rs st }"

text \<open>What an array of sectors answers, and what it holds afterwards.\<close>

fun answers :: "request list \<Rightarrow> (nat \<Rightarrow> sector) \<Rightarrow> u8 list list" where
  "answers [] A = []"
| "answers (Read s sz ofs # rs) A = take sz (drop ofs (A s)) # answers rs A"
| "answers (Write s buf ofs # rs) A = answers rs (A(s := patch ofs buf (A s)))"

fun after :: "request list \<Rightarrow> (nat \<Rightarrow> sector) \<Rightarrow> nat \<Rightarrow> sector" where
  "after [] A = A"
| "after (Read s sz ofs # rs) A = after rs A"
| "after (Write s buf ofs # rs) A = after rs (A(s := patch ofs buf (A s)))"

locale sector_store =
  fixes inv :: "nat \<Rightarrow> 's \<Rightarrow> bool" and con :: "'s \<Rightarrow> nat \<Rightarrow> sector"
    and rd :: "nat \<Rightarrow> nat \<Rightarrow> nat \<Rightarrow> 's \<Rightarrow> (u8 list \<times> 's) option"
    and wr :: "nat \<Rightarrow> u8 list \<Rightarrow> nat \<Rightarrow> 's \<Rightarrow> 's option"
  assumes rd_law: "inv n st \<Longrightarrow> s < n \<Longrightarrow> ofs + sz \<le> BLOCK_SECTOR_SIZE \<Longrightarrow>
      \<exists>st'. rd s sz ofs st = Some (take sz (drop ofs (con st s)), st') \<and> inv n st' \<and> con st' = con st"
    and wr_law: "inv n st \<Longrightarrow> s < n \<Longrightarrow> ofs + length buf \<le> BLOCK_SECTOR_SIZE \<Longrightarrow>
      \<exists>st'. wr s buf ofs st = Some st' \<and> inv n st' \<and> con st' = (con st)(s := patch ofs buf (con st s))"
begin

lemma serve_array:
  assumes "inv n st" "list_all (in_range n) rs"
  shows "\<exists>st'. serve rd wr rs st = Some (answers rs (con st), st') \<and> inv n st' \<and> con st' = after rs (con st)"
  using assms
proof (induction rs arbitrary: st)
  case (Cons r rs)
  show ?case
  proof (cases r)
    case (Read s sz ofs)
    then obtain st1 where st1: "rd s sz ofs st = Some (take sz (drop ofs (con st s)), st1)" "inv n st1" "con st1 = con st"
      using rd_law [of n st s ofs sz] Cons.prems by auto
    then show ?thesis using Cons.IH [OF st1(2)] Cons.prems(2) Read by auto
  next
    case (Write s buf ofs)
    then obtain st1 where st1: "wr s buf ofs st = Some st1" "inv n st1" "con st1 = (con st)(s := patch ofs buf (con st s))"
      using wr_law [of n st s ofs buf] Cons.prems by auto
    then show ?thesis using Cons.IH [OF st1(2)] Cons.prems(2) Write by (simp add: st1(3) fun_upd_def)
  qed
qed simp

end

interpretation cached: sector_store "cache_inv b" "contents b" "cache_read b" "cache_write b" for b
  by unfold_locales (blast intro: cache_read_ok cache_write_ok)+

definition serve_cached :: "nat \<Rightarrow> request list \<Rightarrow> cache \<Rightarrow> (u8 list list \<times> cache) option" where
  "serve_cached b rs c = serve (cache_read b) (cache_write b) rs c"

text \<open>
  C33: The buffer cache is transparent and loses no write.  Starting from the initialized cache, any
  sequence of reads and writes of parts of sectors of a device, however many evictions it causes,
  never panics and returns the bytes that a plain array of sectors, starting with what is on the
  device, returns; a \<open>cache_flush\<close> then leaves on the device exactly the contents of that array.
\<close>

theorem cache_transparent:
  assumes "device_ok b d" and "length bs = CACHE_SIZE" and "list_all (in_range (block_size b d)) rs"
  shows "\<exists>c c'. serve_cached b rs (cache_init d bs) = Some (answers rs (dev_sector b d), c) \<and>
    cache_flush fin c = Some c' \<and>
    (\<forall>s<block_size b d. dev_sector b (devs c') s = after rs (dev_sector b d) s)"
proof -
  note init = cache_init_ok [OF assms(1,2)]
  obtain c where c: "serve_cached b rs (cache_init d bs) = Some (answers rs (dev_sector b d), c)"
    "cache_inv b (block_size b d) c" "contents b c = after rs (dev_sector b d)"
    using cached.serve_array [OF init(1) assms(3)] init(2) by (auto simp: serve_cached_def)
  then show ?thesis using cache_flush_ok [OF c(2), of fin] by auto
qed

definition demo_disk :: devices where
  "demo_disk = \<lparr>all_blocks = [\<lparr>bk_name = ''hda'', bk_type = BLOCK_FILESYS, bk_size = 2, bk_ops = Disk 0,
      read_cnt = 0, write_cnt = 0\<rparr>],
     block_by_role = (\<lambda>_. None), disks = (\<lambda>_ _. replicate 512 0)\<rparr>"

lemma demo_disk_ok: "device_ok 0 demo_disk" "block_size 0 demo_disk = 2" "dev_sector 0 demo_disk s = replicate 512 0"
  by (simp_all add: demo_disk_def device_ok_def wf_devices_def dev_sector_def block_size_def home.simps BLOCK_SECTOR_SIZE_def)

theorem cache_transparent_witness:
  "\<exists>c c'. serve_cached 0 [Write 1 [7, 8] 3, Read 1 3 4, Read 0 1 0]
      (cache_init demo_disk (replicate CACHE_SIZE undefined)) = Some ([[8, 0, 0], [0]], c) \<and>
    cache_flush True c = Some c' \<and> dev_sector 0 (devs c') 1 ! 4 = 8"
proof -
  let ?rs = "[Write 1 [7, 8] 3, Read 1 3 4, Read 0 1 0]"
  have a: "answers ?rs (dev_sector 0 demo_disk) = [[8, 0, 0], [0]]"
    by (simp add: demo_disk_ok patch_def numeral_eq_Suc)
  have f: "after ?rs (dev_sector 0 demo_disk) 1 ! 4 = 8"
    by (simp add: demo_disk_ok patch_def numeral_eq_Suc)
  have r: "list_all (in_range (block_size 0 demo_disk)) ?rs" by (simp add: demo_disk_ok BLOCK_SECTOR_SIZE_def)
  show ?thesis
    using cache_transparent [OF demo_disk_ok(1) _ r, of "replicate CACHE_SIZE undefined" True] a f
    by (fastforce simp: demo_disk_ok(2))
qed

end
