(* ===== verification/Pagedir.thy ===== *)
theory Pagedir
  imports Palloc
begin

text \<open>
  Page directories: \<open>src/src/userprog/pagedir.c\<close>.  A directory is a page of 1024 entries in byte memory,
  each the address of a page table or zero.  Directories are created and destroyed with the page
  allocator.  The state also holds the register CR3 and the translations the processor caches.
\<close>

unbundle bit_operations_syntax

section \<open>Page directories\<close>

record paging =
  pages_of :: palloc
  init_page_dir :: addr
  init_ram_pages :: nat
  cr3 :: nat
  tlb :: "nat \<Rightarrow> nat option"

definition ld :: "paging \<Rightarrow> addr \<Rightarrow> nat" where
  "ld s a = load32 (memory (pages_of s)) a"

definition st :: "addr \<Rightarrow> nat \<Rightarrow> paging \<Rightarrow> paging" where
  "st a v s = s\<lparr>pages_of := (pages_of s)\<lparr>memory := store32 (memory (pages_of s)) a v\<rparr>\<rparr>"

definition pagedir_create :: "paging \<Rightarrow> (addr \<times> paging) option" where
  "pagedir_create s = do {
     (pd, p) \<leftarrow> palloc_get_page 0 (pages_of s);
     let s = s\<lparr>pages_of := p\<rparr>;
     if pd \<noteq> NULL then do {
       (_, m) \<leftarrow> memcpy (memory p) pd (init_page_dir s) PGSIZE;
       Some (pd, s\<lparr>pages_of := p\<lparr>memory := m\<rparr>\<rparr>)
     }
     else Some (pd, s)
   }"

definition free_page :: "addr \<Rightarrow> paging \<Rightarrow> paging option" where
  "free_page a s = do { p \<leftarrow> palloc_free_page a (pages_of s); Some (s\<lparr>pages_of := p\<rparr>) }"

text \<open>The loops of \<open>pagedir_destroy\<close>, from entry \<open>i\<close> on with \<open>n\<close> entries left.\<close>

primrec free_table :: "addr \<Rightarrow> nat \<Rightarrow> nat \<Rightarrow> paging \<Rightarrow> paging option" where
  "free_table pt i 0 s = Some s"
| "free_table pt i (Suc n) s = do {
     let pte = ld s (pt + 4 * i);
     s \<leftarrow> (if pte AND PTE_P \<noteq> 0 then do { page \<leftarrow> pte_get_page pte; free_page page s } else Some s);
     free_table pt (i + 1) n s
   }"

primrec free_tables :: "addr \<Rightarrow> nat \<Rightarrow> nat \<Rightarrow> paging \<Rightarrow> paging option" where
  "free_tables pd i 0 s = Some s"
| "free_tables pd i (Suc n) s = do {
     let pde = ld s (pd + 4 * i);
     s \<leftarrow> (if pde AND PTE_P \<noteq> 0 then do {
             pt \<leftarrow> pde_get_pt pde;
             s \<leftarrow> free_table pt 0 (PGSIZE div 4) s;
             free_page pt s
           }
           else Some s);
     free_tables pd (i + 1) n s
   }"

definition pagedir_destroy :: "addr \<Rightarrow> paging \<Rightarrow> paging option" where
  "pagedir_destroy pd s =
     (if pd = NULL then Some s
      else do {
        ASSERT (pd \<noteq> init_page_dir s);
        s \<leftarrow> free_tables pd 0 (pd_no PHYS_BASE) s;
        free_page pd s
      })"

definition lookup_page :: "addr \<Rightarrow> nat \<Rightarrow> bool \<Rightarrow> paging \<Rightarrow> (addr \<times> paging) option" where
  "lookup_page pd vaddr create s = do {
     ASSERT (pd \<noteq> NULL);
     ASSERT (\<not> create \<or> is_user_vaddr vaddr);
     let pde = pd + 4 * pd_no vaddr;
     (found, s) \<leftarrow> (if ld s pde = 0 then
         if create then do {
           (pt, p) \<leftarrow> palloc_get_page PAL_ZERO (pages_of s);
           let s = s\<lparr>pages_of := p\<rparr>;
           if pt = NULL then Some (False, s)
           else do {
             e \<leftarrow> pde_create pt;
             Some (True, st pde e s)
           }
         }
         else Some (False, s)
       else Some (True, s));
     if \<not> found then Some (NULL, s)
     else do {
       pt \<leftarrow> pde_get_pt (ld s pde);
       Some (pt + 4 * pt_no vaddr, s)
     }
   }"

definition pagedir_set_page :: "addr \<Rightarrow> addr \<Rightarrow> addr \<Rightarrow> bool \<Rightarrow> paging \<Rightarrow> (bool \<times> paging) option" where
  "pagedir_set_page pd upage kpage writable s = do {
     ASSERT (pg_ofs upage = 0);
     ASSERT (pg_ofs kpage = 0);
     ASSERT (is_user_vaddr upage);
     p \<leftarrow> vtop kpage;
     ASSERT (drop_bit PTSHIFT p < init_ram_pages s);
     ASSERT (pd \<noteq> init_page_dir s);
     (pte, s) \<leftarrow> lookup_page pd upage True s;
     if pte \<noteq> NULL then do {
       ASSERT (ld s pte AND PTE_P = 0);
       e \<leftarrow> pte_create_user kpage writable;
       Some (True, st pte e s)
     }
     else Some (False, s)
   }"

definition pagedir_get_page :: "addr \<Rightarrow> addr \<Rightarrow> paging \<Rightarrow> addr option" where
  "pagedir_get_page pd uaddr s = do {
     ASSERT (is_user_vaddr uaddr);
     (pte, s) \<leftarrow> lookup_page pd uaddr False s;
     if pte \<noteq> NULL \<and> ld s pte AND PTE_P \<noteq> 0 then do {
       page \<leftarrow> pte_get_page (ld s pte);
       Some (page + pg_ofs uaddr)
     }
     else Some NULL
   }"

text \<open>Loading CR3 discards the cached translations.\<close>

definition pagedir_activate :: "addr \<Rightarrow> paging \<Rightarrow> paging option" where
  "pagedir_activate pd s = do {
     let pd = (if pd = NULL then init_page_dir s else pd);
     p \<leftarrow> vtop pd;
     Some (s\<lparr>cr3 := p, tlb := Map.empty\<rparr>)
   }"

definition active_pd :: "paging \<Rightarrow> addr option" where
  "active_pd s = ptov (cr3 s)"

definition invalidate_pagedir :: "addr \<Rightarrow> paging \<Rightarrow> paging option" where
  "invalidate_pagedir pd s = do {
     a \<leftarrow> active_pd s;
     if a = pd then pagedir_activate pd s else Some s
   }"

definition pagedir_clear_page :: "addr \<Rightarrow> addr \<Rightarrow> paging \<Rightarrow> paging option" where
  "pagedir_clear_page pd upage s = do {
     ASSERT (pg_ofs upage = 0);
     ASSERT (is_user_vaddr upage);
     (pte, s) \<leftarrow> lookup_page pd upage False s;
     if pte \<noteq> NULL \<and> ld s pte AND PTE_P \<noteq> 0 then
       invalidate_pagedir pd (st pte (ld s pte AND complement PTE_P) s)
     else Some s
   }"

definition pagedir_is_dirty :: "addr \<Rightarrow> addr \<Rightarrow> paging \<Rightarrow> bool option" where
  "pagedir_is_dirty pd vpage s = do {
     (pte, s) \<leftarrow> lookup_page pd vpage False s;
     Some (pte \<noteq> NULL \<and> ld s pte AND PTE_D \<noteq> 0)
   }"

definition pagedir_set_dirty :: "addr \<Rightarrow> addr \<Rightarrow> bool \<Rightarrow> paging \<Rightarrow> paging option" where
  "pagedir_set_dirty pd vpage dirty s = do {
     (pte, s) \<leftarrow> lookup_page pd vpage False s;
     if pte \<noteq> NULL then
       if dirty then Some (st pte (ld s pte OR PTE_D) s)
       else invalidate_pagedir pd (st pte (ld s pte AND complement PTE_D) s)
     else Some s
   }"

definition pagedir_is_accessed :: "addr \<Rightarrow> addr \<Rightarrow> paging \<Rightarrow> bool option" where
  "pagedir_is_accessed pd vpage s = do {
     (pte, s) \<leftarrow> lookup_page pd vpage False s;
     Some (pte \<noteq> NULL \<and> ld s pte AND PTE_A \<noteq> 0)
   }"

definition pagedir_set_accessed :: "addr \<Rightarrow> addr \<Rightarrow> bool \<Rightarrow> paging \<Rightarrow> paging option" where
  "pagedir_set_accessed pd vpage accessed s = do {
     (pte, s) \<leftarrow> lookup_page pd vpage False s;
     if pte \<noteq> NULL then
       if accessed then Some (st pte (ld s pte OR PTE_A) s)
       else invalidate_pagedir pd (st pte (ld s pte AND complement PTE_A) s)
     else Some s
   }"

text \<open>The argument is the directory of the thread.\<close>

definition pagedir_install_page :: "addr \<Rightarrow> addr \<Rightarrow> addr \<Rightarrow> bool \<Rightarrow> paging \<Rightarrow> (bool \<times> paging) option" where
  "pagedir_install_page pd upage kpage writable s = do {
     p \<leftarrow> pagedir_get_page pd upage s;
     if p = NULL then pagedir_set_page pd upage kpage writable s else Some (False, s)
   }"

section \<open>Well-formed directories\<close>

text \<open>The pages in use, the number of the page an entry points to, and the entry for an address.\<close>

definition taken :: "palloc \<Rightarrow> nat set" where
  "taken p = all_pages p - free_pages p"

definition target :: "nat \<Rightarrow> nat" where
  "target e = PHYS_BASE div 4096 + (e AND PTE_ADDR) div 4096"

definition pte_at :: "paging \<Rightarrow> addr \<Rightarrow> nat \<Rightarrow> addr" where
  "pte_at s pd va = (let e = ld s (pd + 4 * pd_no va) in if e = 0 then NULL else 4096 * target e + 4 * pt_no va)"

definition entry :: "paging \<Rightarrow> addr \<Rightarrow> nat \<Rightarrow> nat" where
  "entry s pd va = (if pte_at s pd va = NULL then 0 else ld s (pte_at s pd va))"

definition pd_ok :: "paging \<Rightarrow> addr \<Rightarrow> bool" where
  "pd_ok s pd \<longleftrightarrow> palloc_inv (pages_of s) \<and> pd mod 4096 = 0 \<and> pd div 4096 \<in> taken (pages_of s) \<and>
     (\<forall>i<768. ld s (pd + 4 * i) \<noteq> 0 \<longrightarrow> ld s (pd + 4 * i) AND PTE_P \<noteq> 0 \<and>
        target (ld s (pd + 4 * i)) \<in> taken (pages_of s) \<and> target (ld s (pd + 4 * i)) \<noteq> pd div 4096) \<and>
     (\<forall>i<768. \<forall>j<768. i \<noteq> j \<longrightarrow> ld s (pd + 4 * i) \<noteq> 0 \<longrightarrow> ld s (pd + 4 * j) \<noteq> 0 \<longrightarrow>
        target (ld s (pd + 4 * i)) \<noteq> target (ld s (pd + 4 * j)))"

section \<open>Entries\<close>

lemma taken_range:
  assumes "palloc_inv p" "q \<in> taken p"
  shows "0xc0000 \<le> q" and "q < 2 ^ 20"
proof -
  have r: "0xc0000 \<le> q \<and> q < 1048576" if ok: "pool_ok P" and q: "q \<in> pool_pages P" for P
  proof -
    have "pool_base P = 4096 * pg_no (pool_base P)" using base_pg_no [OF ok] .
    moreover have "0xc0000000 \<le> pool_base P" "pool_base P + 4096 * bit_cnt (used_map P) < 4294967296"
      using ok by (simp_all add: pool_ok_def PHYS_BASE_def)
    moreover have "pg_no (pool_base P) \<le> q" "q < pg_no (pool_base P) + bit_cnt (used_map P)"
      using q by (simp_all add: pool_pages_def)
    ultimately show ?thesis by (intro conjI) linarith+
  qed
  have "q \<in> pool_pages (kernel_pool p) \<or> q \<in> pool_pages (user_pool p)"
    using assms(2) by (auto simp: taken_def all_pages_def)
  then show "0xc0000 \<le> q" and "q < 2 ^ 20"
    using r [of "kernel_pool p"] r [of "user_pool p"] assms(1) by (auto simp: palloc_inv_def)
qed

lemma ld_less: "ld s a < 2 ^ 32"
  unfolding ld_def by (rule load32_less)

lemma ld_st:
  assumes "v < 2 ^ 32" "a mod 4 = 0" "b mod 4 = 0"
  shows "ld (st a v s) b = (if b = a then v else ld s b)"
proof (cases "b = a")
  case False
  then have "b + 4 \<le> a \<or> a + 4 \<le> b" using assms(2,3) by presburger
  then show ?thesis using False by (simp add: ld_def st_def load32_store32_other)
next
  case True
  then show ?thesis using load32_store32 [OF assms(1)] by (simp add: ld_def st_def)
qed

lemma st_pages [simp]:
  "palloc_inv (pages_of (st a v s)) = palloc_inv (pages_of s)" "taken (pages_of (st a v s)) = taken (pages_of s)"
  "init_page_dir (st a v s) = init_page_dir s" "init_ram_pages (st a v s) = init_ram_pages s" "cr3 (st a v s) = cr3 s"
  "tlb (st a v s) = tlb s"
  by (simp_all add: st_def taken_def)

lemma user_index:
  assumes "is_user_vaddr va"
  shows "pd_no va < 768" and "pt_no va < 1024" and "va < 2 ^ 32"
proof -
  show "va < 2 ^ 32" using assms by (simp add: is_user_vaddr_def PHYS_BASE_def)
  then show "pt_no va < 1024" by (simp add: pt_no_div)
  have "va < 768 * 2 ^ 22" using assms by (simp add: is_user_vaddr_def PHYS_BASE_def)
  then show "pd_no va < 768" unfolding pd_no_div by (rule less_mult_imp_div_less)
qed

lemma same_page:
  assumes "is_user_vaddr va" "is_user_vaddr wa"
  shows "pg_no va = pg_no wa \<longleftrightarrow> pd_no va = pd_no wa \<and> pt_no va = pt_no wa"
proof -
  have "pd_no x = x div 4096 div 1024" "pt_no x = x div 4096 mod 1024" if "is_user_vaddr x" for x
    using user_index(3) [OF that] by (simp_all add: pt_no_div pd_no_div div_mult2_eq [symmetric])
  then show ?thesis unfolding pg_no_div using assms by (metis div_mult_mod_eq)
qed

lemma in_page:
  assumes "(a :: nat) mod 4096 = 0"
  shows "i < 1024 \<Longrightarrow> (a + 4 * i) div 4096 = a div 4096" and "(a + 4 * i) mod 4 = 0"
proof -
  obtain k where a: "a = 4096 * k" using assms by auto
  show "i < 1024 \<Longrightarrow> (a + 4 * i) div 4096 = a div 4096" by (simp add: a)
  have "a + 4 * i = 4 * (1024 * k + i)" by (simp add: a)
  then show "(a + 4 * i) mod 4 = 0" by (simp only: mod_mult_self1_is_0)
qed

lemma pd_okD:
  assumes "pd_ok s pd"
  shows "palloc_inv (pages_of s)" and "pd mod 4096 = 0" and "pd div 4096 \<in> taken (pages_of s)"
    and "i < 768 \<Longrightarrow> ld s (pd + 4 * i) \<noteq> 0 \<Longrightarrow> ld s (pd + 4 * i) AND PTE_P \<noteq> 0"
    and "i < 768 \<Longrightarrow> ld s (pd + 4 * i) \<noteq> 0 \<Longrightarrow> target (ld s (pd + 4 * i)) \<in> taken (pages_of s)"
    and "i < 768 \<Longrightarrow> ld s (pd + 4 * i) \<noteq> 0 \<Longrightarrow> target (ld s (pd + 4 * i)) \<noteq> pd div 4096"
    and "i < 768 \<Longrightarrow> j < 768 \<Longrightarrow> ld s (pd + 4 * i) \<noteq> 0 \<Longrightarrow> ld s (pd + 4 * j) \<noteq> 0 \<Longrightarrow>
      target (ld s (pd + 4 * i)) = target (ld s (pd + 4 * j)) \<Longrightarrow> i = j"
  using assms unfolding pd_ok_def by blast+

lemma pd_nonnull: "pd_ok s pd \<Longrightarrow> pd \<noteq> NULL"
  using taken_range(1) [of "pages_of s" "pd div 4096"] by (auto simp: pd_ok_def)

text \<open>The page an entry points to, when it lies in a pool.\<close>

lemma target_addr:
  assumes "e < 2 ^ 32" "target e < 2 ^ 20"
  shows "ptov (e AND PTE_ADDR) = Some (4096 * target e)"
proof -
  have "e AND PTE_ADDR = 4096 * (e div 4096)" using assms(1) by (simp add: PTE_ADDR_def high_bits minus_mod_eq_div_mult)
  moreover have "e div 4096 < 2 ^ 18" using assms(2) calculation by (simp add: target_def PHYS_BASE_def)
  ultimately show ?thesis by (simp add: ptov_def PHYS_BASE_def target_def)
qed

lemma target_pos [simp]: "0 < target e" "target e \<noteq> 0"
  by (simp_all add: target_def PHYS_BASE_def)

lemma entry_in_table:
  assumes ok: "pd_ok s pd" and va: "is_user_vaddr va" and nn: "pte_at s pd va \<noteq> NULL"
  shows "pte_at s pd va div 4096 = target (ld s (pd + 4 * pd_no va))" and "pte_at s pd va mod 4 = 0"
    and "pte_at s pd va mod 4096 = 4 * pt_no va" and "ld s (pd + 4 * pd_no va) \<noteq> 0"
proof -
  show nz: "ld s (pd + 4 * pd_no va) \<noteq> 0" using nn by (auto simp: pte_at_def Let_def split: if_splits)
  then have e: "pte_at s pd va = 4096 * target (ld s (pd + 4 * pd_no va)) + 4 * pt_no va" by (simp add: pte_at_def)
  have "4 * pt_no va < 4096" using user_index(2) [OF va] by simp
  then show "pte_at s pd va div 4096 = target (ld s (pd + 4 * pd_no va))" "pte_at s pd va mod 4096 = 4 * pt_no va"
    by (simp_all add: e)
  show "pte_at s pd va mod 4 = 0" unfolding e using in_page(2) [of "4096 * target (ld s (pd + 4 * pd_no va))"] by simp
qed

text \<open>Looking up an entry without creating a page table.\<close>

lemma lookup_page_find:
  assumes ok: "pd_ok s pd" and va: "is_user_vaddr va"
  shows "lookup_page pd va False s = Some (pte_at s pd va, s)"
proof (cases "ld s (pd + 4 * pd_no va) = 0")
  case True
  then show ?thesis using pd_nonnull [OF ok] by (simp add: lookup_page_def pte_at_def)
next
  case False
  note i = user_index(1) [OF va]
  have "target (ld s (pd + 4 * pd_no va)) < 2 ^ 20"
    using taken_range(2) [OF pd_okD(1) [OF ok]] pd_okD(5) [OF ok i False] by blast
  then show ?thesis
    using False pd_nonnull [OF ok] pd_okD(4) [OF ok i False] target_addr [OF ld_less]
    by (simp add: lookup_page_def pte_at_def pde_get_pt_def)
qed

text \<open>Changing an entry changes the entry of its page only.\<close>

lemma store_entry:
  assumes ok: "pd_ok s pd" and va: "is_user_vaddr va" and nn: "pte_at s pd va \<noteq> NULL" and v: "v < 2 ^ 32"
  defines "s' \<equiv> st (pte_at s pd va) v s"
  shows "pd_ok s' pd" and "is_user_vaddr wa \<Longrightarrow> pte_at s' pd wa = pte_at s pd wa"
    and "is_user_vaddr wa \<Longrightarrow> entry s' pd wa = (if pg_no wa = pg_no va then v else entry s pd wa)"
proof -
  note t = entry_in_table [OF ok va nn]
  note page = in_page [OF pd_okD(2) [OF ok]]
  have pde: "ld s' (pd + 4 * i) = ld s (pd + 4 * i)" if "i < 768" for i
  proof -
    have "(pd + 4 * i) div 4096 = pd div 4096" using page(1) that by simp
    then have "pd + 4 * i \<noteq> pte_at s pd va"
      using t(1) pd_okD(6) [OF ok user_index(1) [OF va] t(4)] by metis
    then show ?thesis unfolding s'_def using ld_st [OF v t(2) page(2)] by simp
  qed
  then show "pd_ok s' pd" using ok unfolding pd_ok_def s'_def by simp
  show at: "pte_at s' pd wa = pte_at s pd wa" if "is_user_vaddr wa" for wa
    using pde [OF user_index(1) [OF that]] by (simp add: pte_at_def)
  assume wa: "is_user_vaddr wa"
  show "entry s' pd wa = (if pg_no wa = pg_no va then v else entry s pd wa)"
  proof (cases "pte_at s pd wa = NULL")
    case True
    then have "pd_no wa \<noteq> pd_no va" using t(4) nn by (auto simp: pte_at_def target_pos Let_def split: if_splits)
    then show ?thesis using True at [OF wa] same_page [OF wa va] by (simp add: entry_def)
  next
    case False
    note w = entry_in_table [OF ok wa False]
    have "pte_at s pd wa = pte_at s pd va \<longleftrightarrow> pg_no wa = pg_no va"
    proof
      assume eq: "pte_at s pd wa = pte_at s pd va"
      then have "pd_no wa = pd_no va"
        using w(1) t(1) pd_okD(7) [OF ok user_index(1) [OF wa] user_index(1) [OF va] w(4) t(4)] by metis
      then show "pg_no wa = pg_no va" using eq w(3) t(3) same_page [OF wa va] by simp
    next
      assume "pg_no wa = pg_no va"
      then show "pte_at s pd wa = pte_at s pd va" using same_page [OF wa va] by (simp add: pte_at_def Let_def)
    qed
    then show ?thesis using False at [OF wa] ld_st [OF v t(2) w(2), of s] by (simp add: entry_def s'_def)
  qed
qed

section \<open>Creating entries\<close>

text \<open>The entry for a kernel page and some flags points to that page.\<close>

lemma made_entry:
  assumes q: "0xc0000 \<le> q" "q < 2 ^ 20" and f: "f < 4096"
  defines "e \<equiv> (4096 * q - PHYS_BASE) OR f"
  shows "vtop (4096 * q) = Some (4096 * q - PHYS_BASE)" and "target e = q" and "e < 2 ^ 32"
    and "g < 4096 \<Longrightarrow> e AND g = f AND g"
proof -
  have p: "4096 * q - PHYS_BASE = 4096 * (q - 0xc0000)" by (simp add: PHYS_BASE_def)
  then have al: "(4096 * q - PHYS_BASE) mod 4096 = 0" "4096 * q - PHYS_BASE < 2 ^ 32" using q(2) by simp_all
  show "vtop (4096 * q) = Some (4096 * q - PHYS_BASE)"
    using q(1) by (simp add: vtop_def is_kernel_vaddr_def PHYS_BASE_def)
  have "e AND PTE_ADDR = 4096 * (q - 0xc0000)" using entry_parts(1) [OF al f] p by (simp add: e_def)
  then show "target e = q" using q(1) by (simp add: target_def PHYS_BASE_def)
  have "take_bit 32 e = e"
    using al(2) f by (simp add: e_def take_bit_or take_bit_nat_eq_self)
  then show "e < 2 ^ 32" by (metis take_bit_nat_less_exp)
  show "g < 4096 \<Longrightarrow> e AND g = f AND g" using entry_parts(2) [OF al f] by (simp add: e_def)
qed

lemma pde_create_page:
  assumes "0xc0000 \<le> q" "q < 2 ^ 20"
  shows "\<exists>e. pde_create (4096 * q) = Some e \<and> target e = q \<and> e < 2 ^ 32 \<and> e \<noteq> 0 \<and> e AND PTE_P \<noteq> 0"
proof -
  define f :: nat where "f = PTE_U OR PTE_P OR PTE_W"
  have f: "f < 4096" "f AND PTE_P \<noteq> 0" by (simp_all add: f_def PTE_U_def PTE_P_def PTE_W_def)
  define e where "e = (4096 * q - PHYS_BASE) OR f"
  note m = made_entry [OF assms f(1), folded e_def]
  have "pde_create (4096 * q) = Some e" using m(1) by (simp add: pde_create_def pg_ofs_mod e_def f_def)
  moreover have "e AND PTE_P \<noteq> 0" using m(4) [of PTE_P] f(2) by (simp add: PTE_P_def)
  moreover from this have "e \<noteq> 0" by (cases "e = 0") simp_all
  ultimately show ?thesis using m(2,3) by blast
qed

lemma pte_create_page:
  assumes "0xc0000 \<le> q" "q < 2 ^ 20"
  shows "\<exists>e. pte_create_user (4096 * q) w = Some e \<and> target e = q \<and> e < 2 ^ 32 \<and> e AND PTE_P \<noteq> 0 \<and>
    (e AND PTE_W \<noteq> 0 \<longleftrightarrow> w) \<and> e AND PTE_U \<noteq> 0 \<and> e AND PTE_D = 0 \<and> e AND PTE_A = 0"
proof -
  define f :: nat where "f = (PTE_P OR (if w then PTE_W else 0)) OR PTE_U"
  have f: "f < 4096" by (simp add: f_def PTE_U_def PTE_P_def PTE_W_def)
  define e where "e = (4096 * q - PHYS_BASE) OR f"
  note m = made_entry [OF assms f, folded e_def]
  have "pte_create_user (4096 * q) w = Some e"
    using m(1) by (simp add: pte_create_user_def pte_create_kernel_def pg_ofs_mod e_def f_def or.assoc)
  moreover have "f AND PTE_P \<noteq> 0" "f AND PTE_W \<noteq> 0 \<longleftrightarrow> w" "f AND PTE_U \<noteq> 0" "f AND PTE_D = 0" "f AND PTE_A = 0"
    by (simp_all add: f_def PTE_U_def PTE_P_def PTE_W_def PTE_D_def PTE_A_def)
  ultimately show ?thesis
    using m(2,3) m(4) [of PTE_P] m(4) [of PTE_W] m(4) [of PTE_U] m(4) [of PTE_D] m(4) [of PTE_A]
    by (simp add: PTE_P_def PTE_W_def PTE_U_def PTE_D_def PTE_A_def)
qed

text \<open>A page from the kernel pool.\<close>

lemma get_kernel_page:
  assumes inv: "palloc_inv p" and flags: "flags AND PAL_ASSERT = 0"
  obtains "palloc_get_page flags p = Some (NULL, p)" "pool_free (get_pool (flags AND PAL_USER \<noteq> 0) p) = {}"
  | q p' where "palloc_get_page flags p = Some (4096 * q, p')" "palloc_inv p'" "q \<notin> taken p"
    "taken p' = insert q (taken p)" "0xc0000 \<le> q" "q < 2 ^ 20"
    "\<And>a. a div 4096 \<noteq> q \<Longrightarrow> memory p' a = memory p a"
    "\<And>a. a div 4096 = q \<Longrightarrow> memory p' a = (if flags AND PAL_ZERO \<noteq> 0 then 0 else memory p a)"
proof -
  obtain a p' where g: "palloc_get_multiple flags 1 p = Some (a, p')" "palloc_inv p'" and all: "all_pages p' = all_pages p"
    and c: "if a = NULL then p' = p \<and> \<not> (\<exists>n. slot_range n 1 \<subseteq> pool_free (get_pool (flags AND PAL_USER \<noteq> 0) p))
     else a mod 4096 = 0 \<and> slot_range (a div 4096) 1 \<subseteq> pool_free (get_pool (flags AND PAL_USER \<noteq> 0) p) \<and>
       free_pages p' = free_pages p - slot_range (a div 4096) 1 \<and>
       (\<forall>x. memory p' x = (if flags AND PAL_ZERO \<noteq> 0 \<and> a \<le> x \<and> x < a + 4096 * 1 then 0 else memory p x))"
    using palloc_get_ok [OF inv zero_less_one flags] by blast
  show thesis
  proof (cases "a = NULL")
    case True
    then have c0: "p' = p" "\<And>n. \<not> slot_range n 1 \<subseteq> pool_free (get_pool (flags AND PAL_USER \<noteq> 0) p)" using c by auto
    have "n \<notin> pool_free (get_pool (flags AND PAL_USER \<noteq> 0) p)" for n using c0(2) [of n] by simp
    then show ?thesis using that(1) g(1) c0(1) True by (auto simp: palloc_get_page_def)
  next
    case False
    define q where "q = a div 4096"
    have a: "a = 4096 * q" and q: "q \<in> pool_free (get_pool (flags AND PAL_USER \<noteq> 0) p)"
      and fp: "free_pages p' = free_pages p - {q}"
      and m: "\<And>x. memory p' x = (if flags AND PAL_ZERO \<noteq> 0 \<and> a \<le> x \<and> x < a + 4096 then 0 else memory p x)"
      using c False by (auto simp: q_def)
    have qf: "q \<in> free_pages p" using q by (auto simp: free_pages_def get_pool_def split: if_splits)
    have "free_pages p \<subseteq> all_pages p" using pool_free_subset by (auto simp: free_pages_def all_pages_def)
    then have t: "taken p' = insert q (taken p)" "q \<notin> taken p" using qf fp all by (auto simp: taken_def)
    have in_q: "a \<le> x \<and> x < a + 4096 \<longleftrightarrow> x div 4096 = q" for x unfolding a by auto
    show ?thesis
      using that(2) [of q p'] g t taken_range [OF g(2), of q] m in_q by (simp add: palloc_get_page_def a)
  qed
qed

lemma ld_cong:
  assumes "a mod 4 = 0" "\<And>x. x div 4096 = a div 4096 \<Longrightarrow> memory (pages_of s') x = memory (pages_of s) x"
  shows "ld s' a = ld s a"
  unfolding ld_def
proof (rule load32_cong)
  fix i :: nat assume i: "i < 4"
  obtain b where b: "a = 4 * b" using assms(1) by auto
  have "(4 * b + i) div 4096 = (4 * b + i) div 4 div 1024" by (simp only: div_mult2_eq [symmetric] mult_numeral_left_semiring_numeral) simp
  also have "(4 * b + i) div 4 = b" using i by simp
  finally have "(a + i) div 4096 = a div 4096" unfolding b by (simp add: div_mult2_eq [symmetric, of _ 4 1024, simplified])
  then show "memory (pages_of s') (a + i) = memory (pages_of s) (a + i)" by (rule assms(2))
qed

lemma ld_zero:
  assumes "a mod 4 = 0" "\<And>x. x div 4096 = a div 4096 \<Longrightarrow> memory (pages_of s) x = 0"
  shows "ld s a = 0"
proof -
  have "ld s a = ld (s\<lparr>pages_of := (pages_of s)\<lparr>memory := (\<lambda>_. 0)\<rparr>\<rparr>) a"
    by (rule ld_cong) (simp_all add: assms)
  then show ?thesis by (simp add: ld_def load32_def)
qed

text \<open>The pages a directory owns: itself and its tables.\<close>

definition owned :: "paging \<Rightarrow> addr \<Rightarrow> nat set" where
  "owned s pd = insert (pd div 4096) ((\<lambda>i. target (ld s (pd + 4 * i))) ` {i. i < 768 \<and> ld s (pd + 4 * i) \<noteq> 0})"

text \<open>\<open>s'\<close> is \<open>s\<close> with an empty page table, on the new page \<open>q\<close>, for entry \<open>i\<close> of the directory.\<close>

definition adds_table :: "paging \<Rightarrow> addr \<Rightarrow> nat \<Rightarrow> nat \<Rightarrow> paging \<Rightarrow> bool" where
  "adds_table s pd i q s' \<longleftrightarrow> palloc_inv (pages_of s') \<and> q \<notin> taken (pages_of s) \<and>
     taken (pages_of s') = insert q (taken (pages_of s)) \<and>
     target (ld s' (pd + 4 * i)) = q \<and> ld s' (pd + 4 * i) \<noteq> 0 \<and> ld s' (pd + 4 * i) AND PTE_P \<noteq> 0 \<and>
     (\<forall>k<1024. ld s' (4096 * q + 4 * k) = 0) \<and>
     (\<forall>a. a mod 4 = 0 \<longrightarrow> a div 4096 \<noteq> q \<longrightarrow> a \<noteq> pd + 4 * i \<longrightarrow> ld s' a = ld s a)"

lemma adds_tableD:
  assumes "adds_table s pd i q s'"
  shows "palloc_inv (pages_of s')" and "q \<notin> taken (pages_of s)" and "taken (pages_of s') = insert q (taken (pages_of s))"
    and "target (ld s' (pd + 4 * i)) = q" and "ld s' (pd + 4 * i) \<noteq> 0" and "ld s' (pd + 4 * i) AND PTE_P \<noteq> 0"
    and "k < 1024 \<Longrightarrow> ld s' (4096 * q + 4 * k) = 0"
    and "a mod 4 = 0 \<Longrightarrow> a div 4096 \<noteq> q \<Longrightarrow> a \<noteq> pd + 4 * i \<Longrightarrow> ld s' a = ld s a"
  using assms unfolding adds_table_def by simp_all

lemma adds_table_pde:
  assumes ok: "pd_ok s pd" and new: "adds_table s pd i q s'" and j: "j < 768" "j \<noteq> i"
  shows "ld s' (pd + 4 * j) = ld s (pd + 4 * j)"
proof -
  note page = in_page [OF pd_okD(2) [OF ok], of j]
  have "(pd + 4 * j) div 4096 \<noteq> q"
    using page(1) j(1) pd_okD(3) [OF ok] adds_tableD(2) [OF new] by auto
  then show ?thesis using adds_tableD(8) [OF new page(2)] j(2) by simp
qed

lemma adds_table_ok:
  assumes ok: "pd_ok s pd" and new: "adds_table s pd i q s'"
  shows "pd_ok s' pd"
  unfolding pd_ok_def
proof (intro conjI allI impI)
  note n = adds_tableD [OF new]
  note q = n(2) and t = n(3)
  then have pq: "pd div 4096 \<noteq> q" using pd_okD(3) [OF ok] by metis
  show "palloc_inv (pages_of s')" by (rule n(1))
  show "pd mod 4096 = 0" "pd div 4096 \<in> taken (pages_of s')" using pd_okD(2,3) [OF ok] t by auto
  fix k assume k: "k < 768" "ld s' (pd + 4 * k) \<noteq> 0"
  show "ld s' (pd + 4 * k) AND PTE_P \<noteq> 0" "target (ld s' (pd + 4 * k)) \<in> taken (pages_of s')"
    "target (ld s' (pd + 4 * k)) \<noteq> pd div 4096"
    using k n(4-6) adds_table_pde [OF ok new k(1)] pd_okD(4,5,6) [OF ok k(1)] t pq by (cases "k = i"; force)+
  fix j assume j: "j < 768" "k \<noteq> j" "ld s' (pd + 4 * j) \<noteq> 0"
  have in_s: "target (ld s' (pd + 4 * x)) \<in> taken (pages_of s)" if "x < 768" "x \<noteq> i" "ld s' (pd + 4 * x) \<noteq> 0" for x
    using adds_table_pde [OF ok new that(1,2)] pd_okD(5) [OF ok that(1)] that(3) by simp
  consider "k = i" "j \<noteq> i" | "j = i" "k \<noteq> i" | "k \<noteq> i" "j \<noteq> i" using j(2) by blast
  then show "target (ld s' (pd + 4 * k)) \<noteq> target (ld s' (pd + 4 * j))"
  proof cases
    case 1
    then show ?thesis using in_s [OF j(1) _ j(3)] n(4) q by auto
  next
    case 2
    then show ?thesis using in_s [OF k(1) _ k(2)] n(4) q by auto
  next
    case 3
    then show ?thesis
      using adds_table_pde [OF ok new k(1)] adds_table_pde [OF ok new j(1)] k(2) j(2,3) pd_okD(7) [OF ok k(1) j(1)] by auto
  qed
qed

lemma adds_table_entry:
  assumes ok: "pd_ok s pd" and new: "adds_table s pd i q s'" and i: "i < 768" and empty: "ld s (pd + 4 * i) = 0"
    and wa: "is_user_vaddr wa"
  shows "pte_at s' pd wa = (if pd_no wa = i then 4096 * q + 4 * pt_no wa else pte_at s pd wa)"
    and "entry s' pd wa = entry s pd wa"
proof -
  note n = adds_tableD [OF new]
  show at: "pte_at s' pd wa = (if pd_no wa = i then 4096 * q + 4 * pt_no wa else pte_at s pd wa)"
    using adds_table_pde [OF ok new user_index(1) [OF wa]] n(4,5) by (cases "pd_no wa = i") (simp_all add: pte_at_def)
  consider "pd_no wa = i" | "pd_no wa \<noteq> i" "pte_at s pd wa = NULL" | "pd_no wa \<noteq> i" "pte_at s pd wa \<noteq> NULL" by blast
  then show "entry s' pd wa = entry s pd wa"
  proof cases
    case 1
    then have "pte_at s pd wa = NULL" using empty by (simp add: pte_at_def)
    then show ?thesis using at 1 n(7) [OF user_index(2) [OF wa]] by (simp add: entry_def)
  next
    case 2
    then show ?thesis using at by (simp add: entry_def)
  next
    case 3
    note w = entry_in_table [OF ok wa 3(2)]
    have tk: "pte_at s pd wa div 4096 \<in> taken (pages_of s)" "pte_at s pd wa div 4096 \<noteq> pd div 4096"
      using w(1) pd_okD(5,6) [OF ok user_index(1) [OF wa] w(4)] by simp_all
    have "pte_at s pd wa \<noteq> pd + 4 * i" using tk(2) in_page(1) [OF pd_okD(2) [OF ok], of i] i by auto
    moreover have "pte_at s pd wa div 4096 \<noteq> q" using tk(1) n(2) by metis
    ultimately have "ld s' (pte_at s pd wa) = ld s (pte_at s pd wa)" using n(8) [OF w(2)] by blast
    then show ?thesis using at 3 by (simp add: entry_def)
  qed
qed

lemma adds_table_owned:
  assumes ok: "pd_ok s pd" and new: "adds_table s pd i q s'"
  shows "owned s' pd \<subseteq> insert q (owned s pd)"
proof
  fix x assume "x \<in> owned s' pd"
  then consider "x = pd div 4096" | j where "j < 768" "ld s' (pd + 4 * j) \<noteq> 0" "x = target (ld s' (pd + 4 * j))"
    by (auto simp: owned_def)
  then show "x \<in> insert q (owned s pd)"
  proof cases
    case 2
    then show ?thesis
      using adds_table_pde [OF ok new 2(1)] adds_tableD(4) [OF new] by (cases "j = i") (auto simp: owned_def)
  qed (simp add: owned_def)
qed

lemma adds_tableI:
  assumes ok: "pd_ok s pd" and i: "i < 768" and p: "palloc_inv p" "taken p = insert q (taken (pages_of s))"
    and q: "q \<notin> taken (pages_of s)" and e: "target e = q" "e < 2 ^ 32" "e \<noteq> 0" "e AND PTE_P \<noteq> 0"
    and m: "\<And>a. a div 4096 \<noteq> q \<Longrightarrow> memory p a = memory (pages_of s) a" "\<And>a. a div 4096 = q \<Longrightarrow> memory p a = 0"
  shows "adds_table s pd i q (st (pd + 4 * i) e (s\<lparr>pages_of := p\<rparr>))" (is "adds_table _ _ _ _ ?s")
proof -
  note page = in_page [OF pd_okD(2) [OF ok]]
  note ls = ld_st [OF e(2) page(2)]
  have old: "ld ?s a = ld s a" if "a mod 4 = 0" "a div 4096 \<noteq> q" "a \<noteq> pd + 4 * i" for a
  proof -
    have "ld (s\<lparr>pages_of := p\<rparr>) a = ld s a" by (rule ld_cong [OF that(1)]) (simp add: m that(2))
    then show ?thesis using ls [OF that(1)] that(3) by simp
  qed
  have new: "ld ?s (4096 * q + 4 * k) = 0" if "k < 1024" for k
  proof -
    have qp: "(4096 * q + 4 * k) div 4096 = q" "(4096 * q + 4 * k) mod 4 = 0"
      using in_page [of "4096 * q" k] that by simp_all
    have "ld (s\<lparr>pages_of := p\<rparr>) (4096 * q + 4 * k) = 0"
      by (rule ld_zero [OF qp(2)]) (simp add: qp(1) m(2))
    moreover have "(pd + 4 * i) div 4096 \<noteq> q" using page(1) [of i] i pd_okD(3) [OF ok] q by auto
    then have "4096 * q + 4 * k \<noteq> pd + 4 * i" using qp(1) by metis
    ultimately show ?thesis using ls [OF qp(2)] by simp
  qed
  show ?thesis
    using p q e old new ls [OF page(2)] unfolding adds_table_def by simp
qed

text \<open>Looking up an entry, creating a page table for it if there is none and memory is left.\<close>

lemma lookup_page_create:
  assumes ok: "pd_ok s pd" and va: "is_user_vaddr va"
  obtains "lookup_page pd va True s = Some (NULL, s)" "pool_free (kernel_pool (pages_of s)) = {}"
  | s' where "lookup_page pd va True s = Some (pte_at s' pd va, s')" "pd_ok s' pd" "pte_at s' pd va \<noteq> NULL"
    "\<And>wa. is_user_vaddr wa \<Longrightarrow> entry s' pd wa = entry s pd wa"
    "init_page_dir s' = init_page_dir s" "init_ram_pages s' = init_ram_pages s" "cr3 s' = cr3 s"
    "taken (pages_of s) \<subseteq> taken (pages_of s')" "owned s' pd \<inter> taken (pages_of s) \<subseteq> owned s pd"
proof (cases "ld s (pd + 4 * pd_no va) = 0")
  case False
  then have "lookup_page pd va True s = lookup_page pd va False s" using va by (simp add: lookup_page_def)
  then have "lookup_page pd va True s = Some (pte_at s pd va, s)" using lookup_page_find [OF ok va] by simp
  then show ?thesis using that(2) ok False by (simp add: pte_at_def)
next
  case True
  note i = user_index(1) [OF va]
  have z: "PAL_ZERO AND PAL_ASSERT = 0" "PAL_ZERO AND PAL_ZERO \<noteq> 0" by (simp_all add: PAL_ZERO_def PAL_ASSERT_def)
  show ?thesis
  proof (rule get_kernel_page [OF pd_okD(1) [OF ok] z(1)])
    assume "palloc_get_page PAL_ZERO (pages_of s) = Some (NULL, pages_of s)"
      "pool_free (get_pool (PAL_ZERO AND PAL_USER \<noteq> 0) (pages_of s)) = {}"
    then show ?thesis
      using that(1) True va pd_nonnull [OF ok] by (simp add: lookup_page_def get_pool_def PAL_ZERO_def PAL_USER_def)
  next
    fix q p
    assume g: "palloc_get_page PAL_ZERO (pages_of s) = Some (4096 * q, p)" "palloc_inv p"
      and q: "q \<notin> taken (pages_of s)" "0xc0000 \<le> q" "q < 2 ^ 20" and t: "taken p = insert q (taken (pages_of s))"
      and m: "\<And>a. a div 4096 \<noteq> q \<Longrightarrow> memory p a = memory (pages_of s) a"
      and "\<And>a. a div 4096 = q \<Longrightarrow> memory p a = (if PAL_ZERO AND PAL_ZERO \<noteq> 0 then 0 else memory (pages_of s) a)"
    then have zero: "\<And>a. a div 4096 = q \<Longrightarrow> memory p a = 0" using z(2) by simp
    obtain e where e: "pde_create (4096 * q) = Some e" "target e = q" "e < 2 ^ 32" "e \<noteq> 0" "e AND PTE_P \<noteq> 0"
      using pde_create_page [OF q(2,3)] by blast
    define s' where "s' = st (pd + 4 * pd_no va) e (s\<lparr>pages_of := p\<rparr>)"
    have new: "adds_table s pd (pd_no va) q s'"
      unfolding s'_def by (rule adds_tableI [OF ok i g(2) t q(1) e(2-5) m zero])
    note at = adds_table_entry [OF ok new i True]
    have "pde_get_pt e = Some (4096 * q)"
      using target_addr [OF e(3)] e(2,5) q(3) by (simp add: pde_get_pt_def)
    moreover have "ld s' (pd + 4 * pd_no va) = e"
      using ld_st [OF e(3)] in_page(2) [OF pd_okD(2) [OF ok]] by (simp add: s'_def)
    ultimately have "lookup_page pd va True s = Some (pte_at s' pd va, s')"
      using True va pd_nonnull [OF ok] g(1) e(1) q(2) at(1) [OF va] by (simp add: lookup_page_def s'_def)
    moreover have T: "taken (pages_of s) \<subseteq> taken (pages_of s')" "owned s' pd \<inter> taken (pages_of s) \<subseteq> owned s pd"
      using adds_tableD(2,3) [OF new] adds_table_owned [OF ok new] by auto
    ultimately show ?thesis
      using that(2) [OF _ adds_table_ok [OF ok new] _ at(2)] at(1) [OF va] q(2) T by (simp add: s'_def)
  qed
qed

section \<open>Address spaces\<close>

text \<open>
  The frames a directory maps.  In a well-formed address space the frames are allocated pages that are not part of the directory, and no two user pages
  share a frame.
\<close>

definition mapped :: "paging \<Rightarrow> addr \<Rightarrow> nat \<Rightarrow> nat option" where
  "mapped s pd va = (if entry s pd va AND PTE_P \<noteq> 0 then Some (target (entry s pd va)) else None)"

definition frames :: "paging \<Rightarrow> addr \<Rightarrow> nat set" where
  "frames s pd = {q. \<exists>va. is_user_vaddr va \<and> mapped s pd va = Some q}"

definition space_ok :: "paging \<Rightarrow> addr \<Rightarrow> bool" where
  "space_ok s pd \<longleftrightarrow> pd_ok s pd \<and> frames s pd \<subseteq> taken (pages_of s) - owned s pd \<and>
     (\<forall>va wa q. is_user_vaddr va \<longrightarrow> is_user_vaddr wa \<longrightarrow> mapped s pd va = Some q \<longrightarrow> mapped s pd wa = Some q \<longrightarrow>
        pg_no va = pg_no wa)"

lemma space_okD:
  assumes "space_ok s pd"
  shows "pd_ok s pd" and "is_user_vaddr va \<Longrightarrow> mapped s pd va = Some q \<Longrightarrow> q \<in> taken (pages_of s)"
    and "is_user_vaddr va \<Longrightarrow> mapped s pd va = Some q \<Longrightarrow> q \<notin> owned s pd"
    and "is_user_vaddr va \<Longrightarrow> is_user_vaddr wa \<Longrightarrow> mapped s pd va = Some q \<Longrightarrow> mapped s pd wa = Some q \<Longrightarrow> pg_no va = pg_no wa"
  using assms unfolding space_ok_def frames_def by blast+

lemma owned_simps [simp]: "pd div 4096 \<in> owned s pd" "i < 768 \<Longrightarrow> ld s (pd + 4 * i) \<noteq> 0 \<Longrightarrow> target (ld s (pd + 4 * i)) \<in> owned s pd"
  by (auto simp: owned_def)

lemma get_page_mapped:
  assumes ok: "space_ok s pd" and va: "is_user_vaddr va"
  shows "pagedir_get_page pd va s = Some (case mapped s pd va of None \<Rightarrow> NULL | Some q \<Rightarrow> 4096 * q + pg_ofs va)"
proof (cases "mapped s pd va")
  case None
  then show ?thesis
    using va lookup_page_find [OF space_okD(1) [OF ok] va]
    by (auto simp: pagedir_get_page_def mapped_def entry_def split: if_splits)
next
  case (Some q)
  then have e: "entry s pd va AND PTE_P \<noteq> 0" "target (entry s pd va) = q" by (simp_all add: mapped_def split: if_splits)
  then have nn: "pte_at s pd va \<noteq> NULL" "entry s pd va = ld s (pte_at s pd va)" by (auto simp: entry_def split: if_splits)
  have "q < 2 ^ 20" using taken_range(2) [OF pd_okD(1) [OF space_okD(1) [OF ok]] space_okD(2) [OF ok va Some]] .
  then show ?thesis
    using Some e nn va lookup_page_find [OF space_okD(1) [OF ok] va] target_addr [OF ld_less]
    by (simp add: pagedir_get_page_def pte_get_page_def)
qed

text \<open>A state with the same directory entries for user addresses and the same pages in use.\<close>

lemma mapped_cong: "entry s' pd va = entry s pd va \<Longrightarrow> mapped s' pd va = mapped s pd va"
  by (simp add: mapped_def)

lemma store_mapped:
  assumes ok: "pd_ok s pd" and va: "is_user_vaddr va" and nn: "pte_at s pd va \<noteq> NULL" and v: "v < 2 ^ 32"
  defines "s' \<equiv> st (pte_at s pd va) v s"
  shows "pd_ok s' pd" and "owned s' pd = owned s pd" and "taken (pages_of s') = taken (pages_of s)"
    and "is_user_vaddr wa \<Longrightarrow> mapped s' pd wa =
      (if pg_no wa = pg_no va then if v AND PTE_P \<noteq> 0 then Some (target v) else None else mapped s pd wa)"
proof -
  note S = store_entry [OF ok va nn v, folded s'_def]
  show "pd_ok s' pd" by (rule S(1))
  show "taken (pages_of s') = taken (pages_of s)" by (simp add: s'_def)
  note t = entry_in_table [OF ok va nn]
  have "ld s' (pd + 4 * i) = ld s (pd + 4 * i)" if i: "i < 768" for i
  proof -
    note page = in_page [OF pd_okD(2) [OF ok], of i]
    have "pd + 4 * i \<noteq> pte_at s pd va"
      using t(1) pd_okD(6) [OF ok user_index(1) [OF va] t(4)] page(1) i by auto
    then show ?thesis unfolding s'_def using ld_st [OF v t(2) page(2)] by simp
  qed
  then show "owned s' pd = owned s pd" unfolding owned_def by (intro arg_cong2 [of _ _ _ _ insert] image_cong) auto
  show "mapped s' pd wa = (if pg_no wa = pg_no va then if v AND PTE_P \<noteq> 0 then Some (target v) else None else mapped s pd wa)"
    if "is_user_vaddr wa" using S(3) [OF that] by (simp add: mapped_def)
qed

text \<open>The cached translations are no part of the address space.\<close>

lemma tlb_irrelevant [simp]:
  "ld (s\<lparr>tlb := t\<rparr>) a = ld s a" "pte_at (s\<lparr>tlb := t\<rparr>) pd va = pte_at s pd va" "entry (s\<lparr>tlb := t\<rparr>) pd va = entry s pd va"
  "mapped (s\<lparr>tlb := t\<rparr>) pd = mapped s pd" "owned (s\<lparr>tlb := t\<rparr>) pd = owned s pd" "pd_ok (s\<lparr>tlb := t\<rparr>) pd = pd_ok s pd"
  "frames (s\<lparr>tlb := t\<rparr>) pd = frames s pd" "space_ok (s\<lparr>tlb := t\<rparr>) pd = space_ok s pd"
proof -
  show ld: "ld (s\<lparr>tlb := t\<rparr>) a = ld s a" for a by (simp add: ld_def)
  show at: "pte_at (s\<lparr>tlb := t\<rparr>) pd va = pte_at s pd va" for va by (simp add: pte_at_def ld)
  show e: "entry (s\<lparr>tlb := t\<rparr>) pd va = entry s pd va" for va by (simp add: entry_def at ld)
  show m: "mapped (s\<lparr>tlb := t\<rparr>) pd = mapped s pd" by (rule ext) (simp add: mapped_def e)
  show o: "owned (s\<lparr>tlb := t\<rparr>) pd = owned s pd" by (simp add: owned_def ld)
  show p: "pd_ok (s\<lparr>tlb := t\<rparr>) pd = pd_ok s pd" by (simp add: pd_ok_def ld)
  show f: "frames (s\<lparr>tlb := t\<rparr>) pd = frames s pd" by (simp add: frames_def m)
  show "space_ok (s\<lparr>tlb := t\<rparr>) pd = space_ok s pd" by (simp add: space_ok_def p f o m)
qed

lemma space_okI:
  assumes "pd_ok s pd" "\<And>va q. is_user_vaddr va \<Longrightarrow> mapped s pd va = Some q \<Longrightarrow> q \<in> taken (pages_of s) \<and> q \<notin> owned s pd"
    "\<And>va wa q. is_user_vaddr va \<Longrightarrow> is_user_vaddr wa \<Longrightarrow> mapped s pd va = Some q \<Longrightarrow> mapped s pd wa = Some q \<Longrightarrow> pg_no va = pg_no wa"
  shows "space_ok s pd"
  using assms unfolding space_ok_def frames_def by blast

lemma store_space:
  assumes ok: "space_ok s pd" and va: "is_user_vaddr va" and nn: "pte_at s pd va \<noteq> NULL" and v: "v < 2 ^ 32"
    and fresh: "v AND PTE_P \<noteq> 0 \<Longrightarrow> mapped s pd va = Some (target v) \<or>
      target v \<in> taken (pages_of s) - owned s pd - frames s pd"
  shows "space_ok (st (pte_at s pd va) v s) pd" (is "space_ok ?s pd")
proof (rule space_okI)
  note S = store_mapped [OF space_okD(1) [OF ok] va nn v]
  show "pd_ok ?s pd" by (rule S(1))
  show "q \<in> taken (pages_of ?s) \<and> q \<notin> owned ?s pd" if wa: "is_user_vaddr wa" and m: "mapped ?s pd wa = Some q" for wa q
  proof (cases "pg_no wa = pg_no va")
    case True
    then have "v AND PTE_P \<noteq> 0" "q = target v" using m S(4) [OF wa] by (simp_all split: if_splits)
    then show ?thesis using fresh S(2,3) space_okD(2,3) [OF ok va] by auto
  next
    case False
    then show ?thesis using m S(4) [OF wa] S(2,3) space_okD(2,3) [OF ok wa] by simp
  qed
  have new: "pg_no xa = pg_no va"
    if xa: "is_user_vaddr xa" and v: "v AND PTE_P \<noteq> 0" and m: "mapped s pd xa = Some (target v)" for xa
    using fresh [OF v] xa m space_okD(4) [OF ok xa va] by (auto simp: frames_def)
  show "pg_no xa = pg_no wa"
    if xa: "is_user_vaddr xa" and wa: "is_user_vaddr wa" and m: "mapped ?s pd xa = Some q" "mapped ?s pd wa = Some q" for xa wa q
    using m S(4) [OF xa] S(4) [OF wa] new [OF xa] new [OF wa] space_okD(4) [OF ok xa wa]
    by (cases "pg_no xa = pg_no va"; cases "pg_no wa = pg_no va") (auto split: if_splits)
qed

section \<open>Mapping and unmapping pages\<close>

lemma set_page_ok:
  assumes ok: "space_ok s pd" and u: "is_user_vaddr upage" "upage mod 4096 = 0" "mapped s pd upage = None"
    and q: "q \<in> taken (pages_of s) - owned s pd - frames s pd" "q - 0xc0000 < init_ram_pages s" and pd: "pd \<noteq> init_page_dir s"
  shows "\<exists>fin s'. pagedir_set_page pd upage (4096 * q) w s = Some (fin, s') \<and>
    (if fin then space_ok s' pd \<and> cr3 s' = cr3 s \<and> init_page_dir s' = init_page_dir s \<and>
       (\<forall>va. is_user_vaddr va \<longrightarrow> mapped s' pd va = (if pg_no va = pg_no upage then Some q else mapped s pd va))
     else s' = s \<and> pool_free (kernel_pool (pages_of s)) = {})"
proof -
  note O = space_okD(1) [OF ok]
  have qr: "0xc0000 \<le> q" "q < 2 ^ 20" using taken_range [OF pd_okD(1) [OF O]] q(1) by auto
  then have vt: "vtop (4096 * q) = Some (4096 * q - PHYS_BASE)" by (rule made_entry(1) [of q 0]) simp
  have "4096 * q - PHYS_BASE = 4096 * (q - 0xc0000)" by (simp add: PHYS_BASE_def)
  then have ram: "drop_bit PTSHIFT (4096 * q - PHYS_BASE) < init_ram_pages s"
    using q(2) by (simp add: page_defs drop_bit_eq_div)
  note pre = u(1,2) vt ram pd
  show ?thesis
  proof (rule lookup_page_create [OF O u(1)])
    assume l: "lookup_page pd upage True s = Some (NULL, s)" "pool_free (kernel_pool (pages_of s)) = {}"
    then have "pagedir_set_page pd upage (4096 * q) w s = Some (False, s)"
      using pre by (simp add: pagedir_set_page_def pg_ofs_mod)
    then show ?thesis using l(2) by (intro exI [of _ False] exI [of _ s]) simp
  next
    fix s1 assume l: "lookup_page pd upage True s = Some (pte_at s1 pd upage, s1)" "pd_ok s1 pd" "pte_at s1 pd upage \<noteq> NULL"
      and e: "\<And>wa. is_user_vaddr wa \<Longrightarrow> entry s1 pd wa = entry s pd wa"
      and same: "init_page_dir s1 = init_page_dir s" "init_ram_pages s1 = init_ram_pages s" "cr3 s1 = cr3 s"
      and t: "taken (pages_of s) \<subseteq> taken (pages_of s1)" "owned s1 pd \<inter> taken (pages_of s) \<subseteq> owned s pd"
    have m1: "mapped s1 pd wa = mapped s pd wa" if "is_user_vaddr wa" for wa using mapped_cong [OF e [OF that]] .
    have ok1: "space_ok s1 pd"
    proof (rule space_okI [OF l(2)])
      show "x \<in> taken (pages_of s1) \<and> x \<notin> owned s1 pd" if "is_user_vaddr va" "mapped s1 pd va = Some x" for va x
        using space_okD(2,3) [OF ok that(1)] that(2) t unfolding m1 [OF that(1)] by blast
      show "pg_no va = pg_no wa" if "is_user_vaddr va" "is_user_vaddr wa" "mapped s1 pd va = Some x" "mapped s1 pd wa = Some x" for va wa x
        using space_okD(4) [OF ok that(1,2)] that(3,4) unfolding m1 [OF that(1)] m1 [OF that(2)] .
    qed
    obtain v where v: "pte_create_user (4096 * q) w = Some v" "target v = q" "v < 2 ^ 32" "v AND PTE_P \<noteq> 0"
      using pte_create_page [OF qr] by blast
    have "ld s1 (pte_at s1 pd upage) AND PTE_P = 0"
      using u(3) m1 [OF u(1)] l(3) by (auto simp: mapped_def entry_def split: if_splits)
    then have run: "pagedir_set_page pd upage (4096 * q) w s = Some (True, st (pte_at s1 pd upage) v s1)"
      using pre l(1,3) v(1) by (simp add: pagedir_set_page_def pg_ofs_mod)
    have fr: "frames s1 pd = frames s pd" using m1 by (auto simp: frames_def)
    have "space_ok (st (pte_at s1 pd upage) v s1) pd"
      by (rule store_space [OF ok1 u(1) l(3) v(3)]) (use q(1) t fr v(2) in auto)
    then show ?thesis
      using run store_mapped(4) [OF l(2) u(1) l(3) v(3)] v(2,4) m1 same
      by (intro exI [of _ True] exI [of _ "st (pte_at s1 pd upage) v s1"]) simp
  qed
qed

lemma bit_complement:
  assumes "f < 2 ^ 32"
  shows "bit (complement f) j \<longleftrightarrow> j < 32 \<and> \<not> bit f j"
proof -
  have "int (complement f) = mask 32 - take_bit 32 (int f)"
    using assms by (simp add: complement_def mask_eq_exp_minus_1 take_bit_int_eq_self of_nat_diff)
  also have "\<dots> = take_bit 32 (NOT (int f))" by (simp add: take_bit_not_eq_mask_diff)
  finally have "bit (int (complement f)) j \<longleftrightarrow> j < 32 \<and> \<not> bit (int f) j"
    by (simp add: bit_take_bit_iff bit_not_iff)
  then show ?thesis by (simp add: bit_of_nat_iff)
qed

lemma bit_below: "bit (e :: nat) j \<Longrightarrow> e < 2 ^ 32 \<Longrightarrow> j < 32"
  by (metis bit_take_bit_iff take_bit_nat_eq_self)

lemma clear_flag:
  assumes "e < 2 ^ 32" "f < 4096"
  shows "(e AND complement f) < 2 ^ 32" and "target (e AND complement f) = target e"
    and "g AND f = 0 \<Longrightarrow> (e AND complement f) AND g = e AND g" and "(e AND complement f) AND f = 0"
proof -
  have b: "bit (complement f) j \<longleftrightarrow> j < 32 \<and> \<not> bit f j" for j
    using bit_complement [of f j] assms(2) by simp
  have "take_bit 32 (e AND complement f) = e AND complement f"
    by (rule bit_eqI) (auto simp: bit_simps b)
  then show "(e AND complement f) < 2 ^ 32" by (metis take_bit_nat_less_exp)
  have c: "(e AND complement f) AND g = e AND g" if "g AND f = 0" for g
  proof (rule bit_eqI)
    fix j
    have "\<not> (bit g j \<and> bit f j)" using that by (metis bit_0_eq bit_and_iff bot_apply bot_bool_def)
    then show "bit ((e AND complement f) AND g) j \<longleftrightarrow> bit (e AND g) j"
      using bit_below [OF _ assms(1), of j] by (auto simp: bit_simps b)
  qed
  from c show "g AND f = 0 \<Longrightarrow> (e AND complement f) AND g = e AND g" .
  have "PTE_ADDR AND f = 0" using assms(2) by (simp add: PTE_ADDR_def high_bits and.commute)
  then show "target (e AND complement f) = target e" by (simp add: target_def c)
  show "(e AND complement f) AND f = 0"
    by (rule bit_eqI) (auto simp: bit_simps b)
qed

lemma clear_page_ok:
  assumes ok: "space_ok s pd" and u: "is_user_vaddr upage" "upage mod 4096 = 0" and cr: "cr3 s < PHYS_BASE"
  shows "\<exists>s'. pagedir_clear_page pd upage s = Some s' \<and> space_ok s' pd \<and> cr3 s' = cr3 s \<and>
    (mapped s pd upage \<noteq> None \<longrightarrow> active_pd s = Some pd \<longrightarrow> tlb s' = Map.empty) \<and>
    (\<forall>va. is_user_vaddr va \<longrightarrow> mapped s' pd va = (if pg_no va = pg_no upage then None else mapped s pd va))"
proof (cases "mapped s pd upage")
  case None
  then have "pagedir_clear_page pd upage s = Some s"
    using u lookup_page_find [OF space_okD(1) [OF ok] u(1)]
    by (auto simp: pagedir_clear_page_def mapped_def entry_def pg_ofs_mod split: if_splits)
  moreover have "mapped s pd va = None" if "is_user_vaddr va" "pg_no va = pg_no upage" for va
  proof -
    have "pte_at s pd va = pte_at s pd upage" using same_page [OF that(1) u(1)] that(2) by (simp add: pte_at_def Let_def)
    then have "entry s pd va = entry s pd upage" by (simp add: entry_def)
    then show ?thesis using None by (simp add: mapped_def split: if_splits)
  qed
  ultimately show ?thesis using ok None by auto
next
  case (Some q)
  then have nn: "pte_at s pd upage \<noteq> NULL" and P: "ld s (pte_at s pd upage) AND PTE_P \<noteq> 0"
    by (auto simp: mapped_def entry_def split: if_splits)
  define v where "v = ld s (pte_at s pd upage) AND complement PTE_P"
  have v: "v < 2 ^ 32" "v AND PTE_P = 0" using clear_flag [OF ld_less, of PTE_P] by (simp_all add: v_def PTE_P_def)
  define s1 where "s1 = st (pte_at s pd upage) v s"
  have ok1: "space_ok s1 pd" unfolding s1_def by (rule store_space [OF ok u(1) nn v(1)]) (simp add: v(2))
  have run: "pagedir_clear_page pd upage s = invalidate_pagedir pd s1"
    using u P nn lookup_page_find [OF space_okD(1) [OF ok] u(1)]
    by (simp add: pagedir_clear_page_def pg_ofs_mod v_def s1_def)
  note pdr = taken_range [OF pd_okD(1,3) [OF space_okD(1) [OF ok]]]
  have vt: "vtop pd = Some (pd - PHYS_BASE)"
    using pdr(1) by (simp add: vtop_def is_kernel_vaddr_def PHYS_BASE_def)
  have cr_pd: "pd = cr3 s + PHYS_BASE" if "active_pd s = Some pd"
  proof -
    have *: "pd = size_t (cr3 s + 0xc0000000)" using that by (auto simp: active_pd_def ptov_def PHYS_BASE_def split: bind_splits)
    have "cr3 s + 0xc0000000 < 2 ^ 32"
    proof (rule ccontr)
      assume "\<not> cr3 s + 0xc0000000 < 2 ^ 32"
      then have "pd = cr3 s + 0xc0000000 - 2 ^ 32" using cr * by (simp add: size_t_def PHYS_BASE_def le_mod_geq)
      then have "pd div 4096 < 0xc0000" using cr by (intro less_mult_imp_div_less) (simp add: PHYS_BASE_def)
      then show False using pdr(1) by simp
    qed
    then show ?thesis using * by (simp add: size_t_id PHYS_BASE_def)
  qed
  define s2 where "s2 = (if active_pd s = Some pd then s1\<lparr>tlb := Map.empty\<rparr> else s1)"
  obtain a where act: "active_pd s = Some a" "active_pd s1 = Some a"
    using cr by (auto simp: active_pd_def ptov_def s1_def)
  have run2: "pagedir_clear_page pd upage s = Some s2"
  proof (cases "a = pd")
    case True
    have "pagedir_activate pd s1 = Some (s1\<lparr>cr3 := cr3 s1, tlb := Map.empty\<rparr>)"
      using vt cr_pd act(1) True pd_nonnull [OF space_okD(1) [OF ok]] by (auto simp: pagedir_activate_def s1_def)
    then show ?thesis using run act True by (simp add: invalidate_pagedir_def s2_def)
  next
    case False
    then show ?thesis using run act by (simp add: invalidate_pagedir_def s2_def)
  qed
  have eq: "space_ok s2 pd = space_ok s1 pd" "mapped s2 pd = mapped s1 pd"
    by (simp_all add: s2_def)
  show ?thesis
    using run2 eq ok1 store_mapped(4) [OF space_okD(1) [OF ok] u(1) nn v(1)] v(2)
    by (auto simp: s2_def s1_def)
qed

end
