(* ===== verification/Pagedir_Destroy.thy ===== *)
theory Pagedir_Destroy
  imports Pagedir
begin

text \<open>
  Destroying a page directory gives back exactly the pages it owns and maps.
\<close>

unbundle bit_operations_syntax

section \<open>Destroying an address space\<close>

lemma free_page_ok:
  assumes inv: "palloc_inv (pages_of s)" and q: "q \<in> taken (pages_of s)"
  shows "\<exists>p. free_page (4096 * q) s = Some (s\<lparr>pages_of := p\<rparr>) \<and> palloc_inv p \<and> taken p = taken (pages_of s) - {q} \<and>
    (\<forall>a. a div 4096 \<noteq> q \<longrightarrow> memory p a = memory (pages_of s) a)"
proof -
  let ?P = "pages_of s"
  have "q \<in> pool_pages (kernel_pool ?P) \<or> q \<in> pool_pages (user_pool ?P)" using q by (auto simp: taken_def all_pages_def)
  then obtain u where u: "q \<in> pool_pages (get_pool u ?P)" by (metis get_pool_def)
  moreover have "q \<notin> pool_free (get_pool u ?P)" using q by (auto simp: taken_def free_pages_def get_pool_def)
  ultimately have grp: "slot_range q 1 \<subseteq> pool_pages (get_pool u ?P) - pool_free (get_pool u ?P)" by auto
  obtain b m where b: "release_pages q 1 ?P = Some ((set_pool u ((get_pool u ?P)\<lparr>used_map := b\<rparr>) ?P)\<lparr>memory := m\<rparr>)"
    "m = (\<lambda>a. if 4096 * q \<le> a \<and> a < 4096 * (q + 1) then 0xcc else memory ?P a)"
    using release_pages_cases [OF inv zero_less_one grp] by blast
  have c: "slot_range q 1 \<subseteq> (all_pages ?P - free_pages ?P) \<inter> pool_pages (get_pool (fst (u, False)) ?P)"
    using q u by (auto simp: taken_def)
  obtain p where p: "release_pages q 1 ?P = Some p" "palloc_inv p" "all_pages p = all_pages ?P"
    "free_pages p = free_pages ?P \<union> slot_range q 1"
    using pages.release [OF inv zero_less_one c] by blast
  have "memory p a = memory ?P a" if "a div 4096 \<noteq> q" for a
    using p(1) b that by (auto simp: div_nat_eqI)
  moreover have "taken p = taken ?P - {q}" using p(3,4) by (auto simp: taken_def)
  ultimately show ?thesis
    using p(1,2) by (intro exI [of _ p]) (simp add: free_page_def palloc_free_page_def release_pages_def)
qed

text \<open>The frames that some entries of a page table refer to.\<close>

definition table_frames :: "paging \<Rightarrow> addr \<Rightarrow> nat set \<Rightarrow> nat set" where
  "table_frames s pt I = (\<lambda>i. target (ld s (pt + 4 * i))) ` {i \<in> I. ld s (pt + 4 * i) AND PTE_P \<noteq> 0}"

definition table_ok :: "paging \<Rightarrow> nat \<Rightarrow> nat set \<Rightarrow> bool" where
  "table_ok s t I \<longleftrightarrow> table_frames s (4096 * t) I \<subseteq> taken (pages_of s) - {t} \<and>
     inj_on (\<lambda>i. target (ld s (4096 * t + 4 * i))) {i \<in> I. ld s (4096 * t + 4 * i) AND PTE_P \<noteq> 0}"

lemma table_framesI: "i \<in> I \<Longrightarrow> ld s (pt + 4 * i) AND PTE_P \<noteq> 0 \<Longrightarrow> target (ld s (pt + 4 * i)) \<in> table_frames s pt I"
  by (auto simp: table_frames_def)

lemma table_framesE:
  assumes "x \<in> table_frames s pt I"
  obtains i where "i \<in> I" "ld s (pt + 4 * i) AND PTE_P \<noteq> 0" "x = target (ld s (pt + 4 * i))"
  using assms by (auto simp: table_frames_def)

lemma table_frames_insert:
  "table_frames s pt (insert i I) =
     (if ld s (pt + 4 * i) AND PTE_P \<noteq> 0 then {target (ld s (pt + 4 * i))} else {}) \<union> table_frames s pt I"
  by (auto simp: table_frames_def)

lemma table_okD:
  assumes "table_ok s t I"
  shows "x \<in> table_frames s (4096 * t) I \<Longrightarrow> x \<in> taken (pages_of s)" and "t \<notin> table_frames s (4096 * t) I"
    and "i \<in> I \<Longrightarrow> j \<in> I \<Longrightarrow> ld s (4096 * t + 4 * i) AND PTE_P \<noteq> 0 \<Longrightarrow> ld s (4096 * t + 4 * j) AND PTE_P \<noteq> 0 \<Longrightarrow>
      target (ld s (4096 * t + 4 * i)) = target (ld s (4096 * t + 4 * j)) \<Longrightarrow> i = j"
  using assms unfolding table_ok_def inj_on_def by blast+

text \<open>A step that frees the pages in \<open>X\<close> and leaves the memory of all others as it is.\<close>

definition frees :: "nat set \<Rightarrow> paging \<Rightarrow> paging \<Rightarrow> bool" where
  "frees X s s' \<longleftrightarrow> palloc_inv (pages_of s') \<and> taken (pages_of s') = taken (pages_of s) - X \<and>
     (\<forall>a. a div 4096 \<notin> X \<longrightarrow> memory (pages_of s') a = memory (pages_of s) a)"

lemma frees_trans: "frees X s s' \<Longrightarrow> frees Y s' s'' \<Longrightarrow> frees (X \<union> Y) s s''"
  by (auto simp: frees_def)

lemma frees_ld: "frees X s s' \<Longrightarrow> a mod 4 = 0 \<Longrightarrow> a div 4096 \<notin> X \<Longrightarrow> ld s' a = ld s a"
  by (rule ld_cong) (auto simp: frees_def)

lemma free_page_frees:
  assumes "palloc_inv (pages_of s)" "q \<in> taken (pages_of s)"
  shows "\<exists>s'. free_page (4096 * q) s = Some s' \<and> frees {q} s s'"
  using free_page_ok [OF assms] by (auto simp: frees_def)

lemma table_ld:
  assumes "frees X s s'" "t \<notin> X" "i < 1024"
  shows "ld s' (4096 * t + 4 * i) = ld s (4096 * t + 4 * i)"
  using frees_ld [OF assms(1), of "4096 * t + 4 * i"] in_page [of "4096 * t" i] assms(2,3) by simp

lemma table_frames_frees:
  assumes "frees X s s'" "t \<notin> X" "I \<subseteq> {..<1024}"
  shows "table_frames s' (4096 * t) I = table_frames s (4096 * t) I"
proof -
  have "ld s' (4096 * t + 4 * i) = ld s (4096 * t + 4 * i)" if "i \<in> I" for i
    using table_ld [OF assms(1,2)] assms(3) that by auto
  then show ?thesis unfolding table_frames_def by (intro image_cong) auto
qed

lemma table_ok_frees:
  assumes ok: "table_ok s t J" and f: "frees X s s'" and t: "t \<notin> X" and I: "I \<subseteq> J" "J \<subseteq> {..<1024}"
    and X: "X \<inter> table_frames s (4096 * t) I = {}"
  shows "table_ok s' t I"
proof -
  have eq: "ld s' (4096 * t + 4 * i) = ld s (4096 * t + 4 * i)" if "i \<in> I" for i
    using table_ld [OF f t] I that by auto
  have "table_frames s (4096 * t) I \<subseteq> table_frames s (4096 * t) J" using I(1) by (auto simp: table_frames_def)
  then have "table_frames s' (4096 * t) I \<subseteq> taken (pages_of s') - {t}"
    using ok f X table_frames_frees [OF f t, of I] I unfolding table_ok_def frees_def by auto
  moreover have "inj_on (\<lambda>i. target (ld s' (4096 * t + 4 * i))) {i \<in> I. ld s' (4096 * t + 4 * i) AND PTE_P \<noteq> 0}"
  proof (rule inj_onI)
    fix i j assume "i \<in> {i \<in> I. ld s' (4096 * t + 4 * i) AND PTE_P \<noteq> 0}" "j \<in> {i \<in> I. ld s' (4096 * t + 4 * i) AND PTE_P \<noteq> 0}"
      and e: "target (ld s' (4096 * t + 4 * i)) = target (ld s' (4096 * t + 4 * j))"
    then have "i \<in> I" "j \<in> I" "ld s (4096 * t + 4 * i) AND PTE_P \<noteq> 0" "ld s (4096 * t + 4 * j) AND PTE_P \<noteq> 0"
      using eq by auto
    then show "i = j" using table_okD(3) [OF ok, of i j] e eq I(1) by auto
  qed
  ultimately show ?thesis by (simp add: table_ok_def)
qed

lemma free_table_ok:
  assumes "palloc_inv (pages_of s)" "table_ok s t {i..<i + n}" "i + n \<le> 1024"
  shows "\<exists>s'. free_table (4096 * t) i n s = Some s' \<and> frees (table_frames s (4096 * t) {i..<i + n}) s s'"
  using assms
proof (induction n arbitrary: i s)
  case 0
  then show ?case by (simp add: frees_def table_frames_def)
next
  case (Suc n)
  let ?e = "ld s (4096 * t + 4 * i)"
  have split: "{i..<i + Suc n} = insert i {Suc i..<Suc i + n}" by auto
  have sub: "{i..<i + Suc n} \<subseteq> {..<1024}" using Suc.prems(3) by auto
  show ?case
  proof (cases "?e AND PTE_P \<noteq> 0")
    case True
    have "target ?e \<in> table_frames s (4096 * t) {i..<i + Suc n}" by (rule table_framesI [OF _ True]) simp
    then have q: "target ?e \<in> taken (pages_of s)" "target ?e \<noteq> t" using table_okD(1,2) [OF Suc.prems(2)] by auto
    obtain s1 where s1: "free_page (4096 * target ?e) s = Some s1" "frees {target ?e} s s1"
      using free_page_frees [OF Suc.prems(1) q(1)] by blast
    have page: "pte_get_page ?e = Some (4096 * target ?e)"
      using target_addr [OF ld_less taken_range(2) [OF Suc.prems(1) q(1)]] by (simp add: pte_get_page_def)
    have "target ?e \<notin> table_frames s (4096 * t) {Suc i..<Suc i + n}"
    proof
      assume "target ?e \<in> table_frames s (4096 * t) {Suc i..<Suc i + n}"
      then obtain j where "j \<in> {Suc i..<Suc i + n}" "ld s (4096 * t + 4 * j) AND PTE_P \<noteq> 0"
        "target ?e = target (ld s (4096 * t + 4 * j))" by (rule table_framesE)
      then show False using table_okD(3) [OF Suc.prems(2), of i j] True by auto
    qed
    then have ok1: "table_ok s1 t {Suc i..<Suc i + n}"
      using table_ok_frees [OF Suc.prems(2) s1(2), of "{Suc i..<Suc i + n}"] q(2) sub split by auto
    obtain s' where s': "free_table (4096 * t) (Suc i) n s1 = Some s'"
      "frees (table_frames s1 (4096 * t) {Suc i..<Suc i + n}) s1 s'"
      using Suc.IH [OF _ ok1] s1(2) Suc.prems(3) by (auto simp: frees_def)
    have "table_frames s1 (4096 * t) {Suc i..<Suc i + n} = table_frames s (4096 * t) {Suc i..<Suc i + n}"
      using table_frames_frees [OF s1(2), of t] q(2) sub split by auto
    moreover have "table_frames s (4096 * t) {i..<i + Suc n} = {target ?e} \<union> table_frames s (4096 * t) {Suc i..<Suc i + n}"
      using True table_frames_insert unfolding split by simp
    ultimately show ?thesis using True page s1(1) s' frees_trans [OF s1(2) s'(2)] by simp
  next
    case False
    then have eq: "table_frames s (4096 * t) {i..<i + Suc n} = table_frames s (4096 * t) {Suc i..<Suc i + n}"
      using table_frames_insert unfolding split by simp
    have "table_ok s t {Suc i..<Suc i + n}"
      using Suc.prems(2) unfolding table_ok_def eq by (auto intro: inj_on_subset)
    then show ?thesis using Suc.IH [OF Suc.prems(1), of "Suc i"] Suc.prems(3) False eq by simp
  qed
qed

text \<open>What entry \<open>k\<close> of a directory refers to: a page table and the frames it maps.\<close>

definition pde_pages :: "paging \<Rightarrow> addr \<Rightarrow> nat \<Rightarrow> nat set" where
  "pde_pages s pd k = (if ld s (pd + 4 * k) AND PTE_P \<noteq> 0
     then insert (target (ld s (pd + 4 * k))) (table_frames s (4096 * target (ld s (pd + 4 * k))) {..<1024}) else {})"

definition pde_ok :: "paging \<Rightarrow> addr \<Rightarrow> nat \<Rightarrow> bool" where
  "pde_ok s pd k \<longleftrightarrow> (ld s (pd + 4 * k) AND PTE_P \<noteq> 0 \<longrightarrow>
       target (ld s (pd + 4 * k)) \<in> taken (pages_of s) \<and> table_ok s (target (ld s (pd + 4 * k))) {..<1024}) \<and>
     pd div 4096 \<notin> pde_pages s pd k"

lemma pde_frees:
  assumes f: "frees X s s'" and pd: "pd mod 4096 = 0" "pd div 4096 \<notin> X" and k: "k < 1024" and X: "X \<inter> pde_pages s pd k = {}"
  shows "pde_pages s' pd k = pde_pages s pd k" and "pde_ok s pd k \<Longrightarrow> pde_ok s' pd k"
proof -
  note page = in_page [OF pd(1), of k]
  have e: "ld s' (pd + 4 * k) = ld s (pd + 4 * k)" using frees_ld [OF f page(2)] page(1) k pd(2) by simp
  show p: "pde_pages s' pd k = pde_pages s pd k"
  proof (cases "ld s (pd + 4 * k) AND PTE_P \<noteq> 0")
    case True
    then have "target (ld s (pd + 4 * k)) \<notin> X" using X by (auto simp: pde_pages_def)
    then show ?thesis using table_frames_frees [OF f] e by (simp add: pde_pages_def)
  qed (simp add: pde_pages_def e)
  assume ok: "pde_ok s pd k"
  have "target (ld s (pd + 4 * k)) \<in> taken (pages_of s') \<and> table_ok s' (target (ld s (pd + 4 * k))) {..<1024}"
    if P: "ld s (pd + 4 * k) AND PTE_P \<noteq> 0"
  proof -
    let ?t = "target (ld s (pd + 4 * k))"
    have t: "?t \<notin> X" "X \<inter> table_frames s (4096 * ?t) {..<1024} = {}" using X P by (auto simp: pde_pages_def)
    have o: "?t \<in> taken (pages_of s)" "table_ok s ?t {..<1024}" using ok P by (simp_all add: pde_ok_def)
    show ?thesis using t(1) o(1) f table_ok_frees [OF o(2) f t(1) subset_refl subset_refl t(2)] by (simp add: frees_def)
  qed
  then show "pde_ok s' pd k" using ok p by (simp add: pde_ok_def e)
qed

lemma free_pde:
  assumes inv: "palloc_inv (pages_of s)" and ok: "pde_ok s pd k" and P: "ld s (pd + 4 * k) AND PTE_P \<noteq> 0"
  defines "t \<equiv> target (ld s (pd + 4 * k))"
  shows "\<exists>s1 s2. pde_get_pt (ld s (pd + 4 * k)) = Some (4096 * t) \<and> free_table (4096 * t) 0 1024 s = Some s1 \<and>
    free_page (4096 * t) s1 = Some s2 \<and> frees (pde_pages s pd k) s s2"
proof -
  have t: "t \<in> taken (pages_of s)" "table_ok s t {..<1024}" using ok P by (simp_all add: pde_ok_def t_def)
  have pt: "pde_get_pt (ld s (pd + 4 * k)) = Some (4096 * t)"
    using target_addr [OF ld_less taken_range(2) [OF inv t(1) [unfolded t_def]]] P by (simp add: pde_get_pt_def t_def)
  have r: "{0..<0 + 1024} = {..<1024 :: nat}" by auto
  obtain s1 where s1: "free_table (4096 * t) 0 1024 s = Some s1" "frees (table_frames s (4096 * t) {..<1024}) s s1"
    using free_table_ok [OF inv, of t 0 1024] t(2) unfolding r by auto
  have "t \<in> taken (pages_of s1)" "palloc_inv (pages_of s1)" using s1(2) t(1) table_okD(2) [OF t(2)] by (auto simp: frees_def)
  then obtain s2 where s2: "free_page (4096 * t) s1 = Some s2" "frees {t} s1 s2" using free_page_frees by blast
  have "pde_pages s pd k = table_frames s (4096 * t) {..<1024} \<union> {t}" using P by (simp add: pde_pages_def t_def)
  then show ?thesis using pt s1(1) s2(1) frees_trans [OF s1(2) s2(2)] by simp
qed

lemma free_tables_ok:
  assumes "palloc_inv (pages_of s)" "pd mod 4096 = 0" "i + n \<le> 1024"
    "\<And>k. k \<in> {i..<i + n} \<Longrightarrow> pde_ok s pd k"
    "\<And>j k. j \<in> {i..<i + n} \<Longrightarrow> k \<in> {i..<i + n} \<Longrightarrow> j \<noteq> k \<Longrightarrow> pde_pages s pd j \<inter> pde_pages s pd k = {}"
  shows "\<exists>s'. free_tables pd i n s = Some s' \<and> frees (\<Union>k\<in>{i..<i + n}. pde_pages s pd k) s s'"
  using assms
proof (induction n arbitrary: i s)
  case 0
  then show ?case by (simp add: frees_def)
next
  case (Suc n)
  have split: "{i..<i + Suc n} = insert i {Suc i..<Suc i + n}" by auto
  have ok: "pde_ok s pd i" using Suc.prems(4) by simp
  obtain s1 where s1: "free_tables pd i (Suc n) s = free_tables pd (Suc i) n s1" "frees (pde_pages s pd i) s s1"
  proof (cases "ld s (pd + 4 * i) AND PTE_P \<noteq> 0")
    case True
    then show ?thesis using that free_pde [OF Suc.prems(1) ok True] by auto
  next
    case False
    then show ?thesis using that [of s] Suc.prems(1) by (simp add: pde_pages_def frees_def)
  qed
  have pd: "pd div 4096 \<notin> pde_pages s pd i" using ok by (simp add: pde_ok_def)
  have keep: "pde_pages s1 pd k = pde_pages s pd k" "pde_ok s1 pd k" if "k \<in> {Suc i..<Suc i + n}" for k
  proof -
    have k: "k < 1024" "k \<in> {i..<i + Suc n}" "i \<noteq> k" using that Suc.prems(3) by auto
    have "pde_pages s pd i \<inter> pde_pages s pd k = {}" using Suc.prems(5) [of i k] k by simp
    note F = pde_frees [OF s1(2) Suc.prems(2) pd k(1) this]
    show "pde_pages s1 pd k = pde_pages s pd k" by (rule F(1))
    show "pde_ok s1 pd k" by (rule F(2) [OF Suc.prems(4) [OF k(2)]])
  qed
  have d: "pde_pages s1 pd j \<inter> pde_pages s1 pd k = {}" if "j \<in> {Suc i..<Suc i + n}" "k \<in> {Suc i..<Suc i + n}" "j \<noteq> k" for j k
    using Suc.prems(5) [of j k] that keep(1) by auto
  have inv1: "palloc_inv (pages_of s1)" using s1(2) by (simp add: frees_def)
  have "Suc i + n \<le> 1024" using Suc.prems(3) by simp
  from Suc.IH [OF inv1 Suc.prems(2) this keep(2) d]
  obtain s' where s': "free_tables pd (Suc i) n s1 = Some s'" "frees (\<Union>k\<in>{Suc i..<Suc i + n}. pde_pages s1 pd k) s1 s'"
    by blast
  have "(\<Union>k\<in>{i..<i + Suc n}. pde_pages s pd k) = pde_pages s pd i \<union> (\<Union>k\<in>{Suc i..<Suc i + n}. pde_pages s1 pd k)"
    unfolding split using keep(1) by simp
  then show ?case using s1(1) s'(1) frees_trans [OF s1(2) s'(2)] by simp
qed

text \<open>The user address with given directory and table indices.\<close>

lemma user_addr:
  assumes "k < 768" "j < 1024"
  shows "is_user_vaddr (k * 2 ^ 22 + j * 4096)" and "pd_no (k * 2 ^ 22 + j * 4096) = k" and "pt_no (k * 2 ^ 22 + j * 4096) = j"
proof -
  let ?va = "k * 2 ^ 22 + j * 4096"
  have "?va < 768 * 2 ^ 22" using assms by simp
  then show u: "is_user_vaddr ?va" by (simp add: is_user_vaddr_def PHYS_BASE_def)
  have j: "j * 4096 < 2 ^ 22" using assms(2) by simp
  then show "pd_no ?va = k" by (simp add: pd_no_div)
  have "?va = 4096 * (k * 1024 + j)" by simp
  then have "?va div 4096 = k * 1024 + j" by (simp only: nonzero_mult_div_cancel_left)
  then show "pt_no ?va = j" using assms(2) user_index(3) [OF u] by (simp add: pt_no_div)
qed

lemma entry_user_addr:
  assumes "k < 768" "j < 1024" "ld s (pd + 4 * k) \<noteq> 0"
  shows "entry s pd (k * 2 ^ 22 + j * 4096) = ld s (4096 * target (ld s (pd + 4 * k)) + 4 * j)"
  using user_addr [OF assms(1,2)] assms(3) by (simp add: entry_def pte_at_def)

lemma table_frame_mapped:
  assumes "k < 768" "ld s (pd + 4 * k) \<noteq> 0" "x \<in> table_frames s (4096 * target (ld s (pd + 4 * k))) {..<1024}"
  obtains j where "j < 1024" "mapped s pd (k * 2 ^ 22 + j * 4096) = Some x"
    "x = target (ld s (4096 * target (ld s (pd + 4 * k)) + 4 * j))"
proof -
  obtain j where "j \<in> {..<1024}" "ld s (4096 * target (ld s (pd + 4 * k)) + 4 * j) AND PTE_P \<noteq> 0"
    "x = target (ld s (4096 * target (ld s (pd + 4 * k)) + 4 * j))" using assms(3) by (rule table_framesE)
  then show thesis using that [of j] entry_user_addr [OF assms(1) _ assms(2)] by (simp add: mapped_def)
qed

text \<open>For a well-formed address space, what the directory entries refer to is what the space owns and maps.\<close>

lemma pde_present:
  assumes "space_ok s pd" "k < 768"
  shows "ld s (pd + 4 * k) AND PTE_P \<noteq> 0 \<longleftrightarrow> ld s (pd + 4 * k) \<noteq> 0"
  using pd_okD(4) [OF space_okD(1) [OF assms(1)] assms(2)] by (cases "ld s (pd + 4 * k) = 0") auto

lemma pde_pagesE:
  assumes ok: "space_ok s pd" and k: "k < 768" and x: "x \<in> pde_pages s pd k"
  obtains "ld s (pd + 4 * k) \<noteq> 0" "x = target (ld s (pd + 4 * k))" "x \<in> owned s pd"
  | j where "j < 1024" "mapped s pd (k * 2 ^ 22 + j * 4096) = Some x" "x \<notin> owned s pd" "x \<in> frames s pd"
proof (cases "ld s (pd + 4 * k) = 0")
  case False
  then consider "x = target (ld s (pd + 4 * k))" | "x \<in> table_frames s (4096 * target (ld s (pd + 4 * k))) {..<1024}"
    using x by (auto simp: pde_pages_def split: if_splits)
  then show thesis
  proof cases
    case 1
    then show ?thesis using that(1) False k by simp
  next
    case 2
    obtain j where j: "j < 1024" "mapped s pd (k * 2 ^ 22 + j * 4096) = Some x"
      using table_frame_mapped [OF k False 2] by blast
    then show ?thesis
      using that(2) user_addr(1) [OF k j(1)] space_okD(3) [OF ok] unfolding frames_def by blast
  qed
qed (use x in \<open>simp add: pde_pages_def\<close>)

lemma space_pde_ok:
  assumes ok: "space_ok s pd" and k: "k < 768"
  shows "pde_ok s pd k"
proof -
  let ?e = "ld s (pd + 4 * k)"
  note O = space_okD(1) [OF ok]
  have "table_ok s (target ?e) {..<1024}" if nz: "?e \<noteq> 0"
    unfolding table_ok_def
  proof (intro conjI subsetI inj_onI)
    fix x assume "x \<in> table_frames s (4096 * target ?e) {..<1024}"
    then obtain j where j: "j < 1024" "mapped s pd (k * 2 ^ 22 + j * 4096) = Some x"
      using table_frame_mapped [OF k nz] by blast
    then show "x \<in> taken (pages_of s) - {target ?e}"
      using space_okD(2,3) [OF ok user_addr(1) [OF k j(1)] j(2)] owned_simps(2) [OF k nz] by auto
  next
    fix i j assume "i \<in> {i \<in> {..<1024}. ld s (4096 * target ?e + 4 * i) AND PTE_P \<noteq> 0}"
      "j \<in> {i \<in> {..<1024}. ld s (4096 * target ?e + 4 * i) AND PTE_P \<noteq> 0}"
      and e: "target (ld s (4096 * target ?e + 4 * i)) = target (ld s (4096 * target ?e + 4 * j))"
    then have ij: "i < 1024" "j < 1024" "mapped s pd (k * 2 ^ 22 + i * 4096) = Some (target (ld s (4096 * target ?e + 4 * i)))"
      "mapped s pd (k * 2 ^ 22 + j * 4096) = Some (target (ld s (4096 * target ?e + 4 * i)))"
      using entry_user_addr [OF k _ nz] by (auto simp: mapped_def)
    note u = user_addr [OF k ij(1)] user_addr [OF k ij(2)]
    have "pg_no (k * 2 ^ 22 + i * 4096) = pg_no (k * 2 ^ 22 + j * 4096)" by (rule space_okD(4) [OF ok u(1,4) ij(3,4)])
    then show "i = j" using same_page [OF u(1,4)] u(3,6) by simp
  qed
  moreover have "pd div 4096 \<notin> pde_pages s pd k"
    using pde_pagesE [OF ok k] owned_simps(1) pd_okD(6) [OF O k] by metis
  ultimately show ?thesis using pde_present [OF ok k] pd_okD(5) [OF O k] by (simp add: pde_ok_def)
qed

lemma space_disjoint:
  assumes ok: "space_ok s pd" and jk: "j < 768" "k < 768" "j \<noteq> k"
  shows "pde_pages s pd j \<inter> pde_pages s pd k = {}"
proof (rule ccontr)
  assume "pde_pages s pd j \<inter> pde_pages s pd k \<noteq> {}"
  then obtain x where xj: "x \<in> pde_pages s pd j" and xk: "x \<in> pde_pages s pd k" by blast
  show False
  proof (rule pde_pagesE [OF ok jk(1) xj])
    assume a: "ld s (pd + 4 * j) \<noteq> 0" "x = target (ld s (pd + 4 * j))" "x \<in> owned s pd"
    show False
      using pde_pagesE [OF ok jk(2) xk] a pd_okD(7) [OF space_okD(1) [OF ok] jk(1,2)] jk(3) by metis
  next
    fix a assume a: "a < 1024" "mapped s pd (j * 2 ^ 22 + a * 4096) = Some x" "x \<notin> owned s pd"
    show False
    proof (rule pde_pagesE [OF ok jk(2) xk])
      fix b assume b: "b < 1024" "mapped s pd (k * 2 ^ 22 + b * 4096) = Some x"
      note u = user_addr [OF jk(1) a(1)] user_addr [OF jk(2) b(1)]
      have "pg_no (j * 2 ^ 22 + a * 4096) = pg_no (k * 2 ^ 22 + b * 4096)" by (rule space_okD(4) [OF ok u(1,4) a(2) b(2)])
      then show False using same_page [OF u(1,4)] u(2,5) jk(3) by simp
    qed (use a(3) in blast)
  qed
qed

lemma space_pages:
  assumes ok: "space_ok s pd"
  shows "(\<Union>k\<in>{..<768}. pde_pages s pd k) \<union> {pd div 4096} = owned s pd \<union> frames s pd" (is "?L = ?R")
proof
  show "?L \<subseteq> ?R" by (auto elim: pde_pagesE [OF ok])
  show "?R \<subseteq> ?L"
  proof
    fix x assume "x \<in> ?R"
    then consider "x = pd div 4096" | k where "k < 768" "ld s (pd + 4 * k) \<noteq> 0" "x = target (ld s (pd + 4 * k))"
      | va where "is_user_vaddr va" "mapped s pd va = Some x"
      by (auto simp: owned_def frames_def)
    then show "x \<in> ?L"
    proof cases
      case 2
      then show ?thesis using pde_present [OF ok 2(1)] by (auto simp: pde_pages_def)
    next
      case 3
      note u = user_index [OF 3(1)]
      have e: "entry s pd va AND PTE_P \<noteq> 0" "x = target (entry s pd va)" using 3(2) by (auto simp: mapped_def split: if_splits)
      then have nn: "pte_at s pd va \<noteq> NULL" by (auto simp: entry_def split: if_splits)
      note t = entry_in_table [OF space_okD(1) [OF ok] 3(1) nn]
      have "entry s pd va = ld s (4096 * target (ld s (pd + 4 * pd_no va)) + 4 * pt_no va)"
        using nn t(4) by (simp add: entry_def pte_at_def)
      then have "x \<in> table_frames s (4096 * target (ld s (pd + 4 * pd_no va))) {..<1024}"
        using e u(2) table_framesI [of "pt_no va" "{..<1024}" s "4096 * target (ld s (pd + 4 * pd_no va))"] by simp
      then have "x \<in> pde_pages s pd (pd_no va)" using pde_present [OF ok u(1)] t(4) by (simp add: pde_pages_def)
      then show ?thesis using u(1) by blast
    qed simp
  qed
qed

lemma pagedir_destroy_ok:
  assumes ok: "space_ok s pd" and pd: "pd \<noteq> init_page_dir s"
  shows "\<exists>s'. pagedir_destroy pd s = Some s' \<and> frees (owned s pd \<union> frames s pd) s s'"
proof -
  note O = space_okD(1) [OF ok]
  let ?X = "\<Union>k\<in>{0..<0 + 768}. pde_pages s pd k"
  have n: "pd_no PHYS_BASE = 768" by (simp add: pd_no_div PHYS_BASE_def)
  have pok: "pde_ok s pd k" if "k \<in> {0..<0 + 768}" for k using space_pde_ok [OF ok] that by simp
  have dis: "pde_pages s pd j \<inter> pde_pages s pd k = {}" if "j \<in> {0..<0 + 768}" "k \<in> {0..<0 + 768}" "j \<noteq> k" for j k
    using space_disjoint [OF ok] that by simp
  have len: "0 + 768 \<le> (1024 :: nat)" by simp
  obtain s1 where s1: "free_tables pd 0 768 s = Some s1" "frees ?X s s1"
    using free_tables_ok [OF pd_okD(1,2) [OF O] len pok dis] by blast
  have "pd div 4096 \<notin> ?X" using pok by (auto simp: pde_ok_def)
  then have t: "pd div 4096 \<in> taken (pages_of s1)" "palloc_inv (pages_of s1)"
    using s1(2) pd_okD(3) [OF O] by (simp_all add: frees_def)
  obtain s2 where s2: "free_page (4096 * (pd div 4096)) s1 = Some s2" "frees {pd div 4096} s1 s2"
    using free_page_frees [OF t(2,1)] by blast
  have "4096 * (pd div 4096) = pd" using pd_okD(2) [OF O] by auto
  moreover have "?X \<union> {pd div 4096} = owned s pd \<union> frames s pd"
    using space_pages [OF ok] by (simp add: lessThan_atLeast0)
  ultimately show ?thesis
    using s1(1) s2(1) pd pd_nonnull [OF O] frees_trans [OF s1(2) s2(2)] by (simp add: pagedir_destroy_def n)
qed

section \<open>The life of an address space\<close>

lemma load32_shift:
  assumes "\<And>i. i < 4 \<Longrightarrow> m (a + i) = m' (b + i)"
  shows "load32 m a = load32 m' b"
  using assms [of 0] assms [of 1] assms [of 2] assms [of 3] by (simp add: load32_def)

text \<open>A new directory is an address space in which nothing is mapped.\<close>

lemma pagedir_create_ok:
  assumes inv: "palloc_inv (pages_of s)" and ip: "init_page_dir s mod 4096 = 0" "init_page_dir s div 4096 \<in> taken (pages_of s)"
    and zero: "\<And>i. i < 768 \<Longrightarrow> ld s (init_page_dir s + 4 * i) = 0"
  obtains "pagedir_create s = Some (NULL, s)"
  | pd s' where "pagedir_create s = Some (pd, s')" "pd div 4096 \<notin> taken (pages_of s)"
    "taken (pages_of s') = insert (pd div 4096) (taken (pages_of s))" "space_ok s' pd" "owned s' pd = {pd div 4096}"
    "frames s' pd = {}"
proof (rule get_kernel_page [OF inv, of 0])
  assume "palloc_get_page 0 (pages_of s) = Some (NULL, pages_of s)"
  then show thesis using that(1) by (simp add: pagedir_create_def)
next
  fix q p
  assume g: "palloc_get_page 0 (pages_of s) = Some (4096 * q, p)" "palloc_inv p" "q \<notin> taken (pages_of s)"
    "taken p = insert q (taken (pages_of s))" "0xc0000 \<le> q"
    and m: "\<And>a. a div 4096 \<noteq> q \<Longrightarrow> memory p a = memory (pages_of s) a"
  define i0 where "i0 = init_page_dir s"
  obtain t where t: "i0 = 4096 * t" "t \<in> taken (pages_of s)" using ip by (auto simp: i0_def)
  have tq: "t \<noteq> q" using t(2) g(3) by metis
  then have "4096 * q + 4096 \<le> i0 \<or> i0 + 4096 \<le> 4096 * q" unfolding t(1) by auto
  then have cp: "copy_up (memory p) (4096 * q) i0 4096 a =
      (if 4096 * q \<le> a \<and> a < 4096 * q + 4096 then memory p (i0 + (a - 4096 * q)) else memory p a)" for a
    by (intro copy_up_correct) auto
  define s' where "s' = s\<lparr>pages_of := p\<lparr>memory := copy_up (memory p) (4096 * q) i0 4096\<rparr>\<rparr>"
  have nn: "i0 \<noteq> NULL" using taken_range(1) [OF inv t(2)] t(1) by simp
  have run: "pagedir_create s = Some (4096 * q, s')"
    using g(1,5) nn by (simp add: pagedir_create_def memcpy_def s'_def i0_def)
  have pde: "ld s' (4096 * q + 4 * i) = 0" if i: "i < 768" for i
  proof -
    have "load32 (memory (pages_of s')) (4096 * q + 4 * i) = load32 (memory (pages_of s)) (i0 + 4 * i)"
    proof (rule load32_shift)
      fix k :: nat assume k: "k < 4"
      have "(i0 + (4 * i + k)) div 4096 = t" using i k unfolding t(1) by simp
      then have "memory p (i0 + (4 * i + k)) = memory (pages_of s) (i0 + (4 * i + k))" using m tq by metis
      then show "memory (pages_of s') (4096 * q + 4 * i + k) = memory (pages_of s) (i0 + 4 * i + k)"
        using cp [of "4096 * q + 4 * i + k"] i k by (simp add: s'_def add.assoc)
    qed
    then show ?thesis using zero [OF i] by (simp add: ld_def i0_def)
  qed
  have e: "entry s' (4096 * q) va = 0" if "is_user_vaddr va" for va
    using pde [OF user_index(1) [OF that]] by (simp add: entry_def pte_at_def)
  have tk: "taken (pages_of s') = insert q (taken (pages_of s))" using g(4) by (simp add: s'_def taken_def)
  have "pd_ok s' (4096 * q)" using g(2) tk pde by (simp add: pd_ok_def s'_def)
  moreover have fr: "frames s' (4096 * q) = {}" using e by (auto simp: frames_def mapped_def)
  ultimately have "space_ok s' (4096 * q)" using e by (auto simp: space_ok_def mapped_def)
  moreover have "owned s' (4096 * q) = {q}" using pde by (auto simp: owned_def)
  ultimately show thesis using that(2) [OF run] g(3) tk fr by simp
qed (simp add: PAL_ASSERT_def)


text \<open>
  C35: Destroying an address space leaks nothing and frees nothing else: \<open>pagedir_destroy\<close> never panics,
  and afterwards the pages in use are those in use before without the directory, its page tables and
  the frames it maps, each given back once; no byte of any other page changes.
\<close>

theorem pagedir_destroy_exact:
  assumes "space_ok s pd" and "pd \<noteq> init_page_dir s"
  shows "\<exists>s'. pagedir_destroy pd s = Some s' \<and> palloc_inv (pages_of s') \<and>
    taken (pages_of s') = taken (pages_of s) - (owned s pd \<union> frames s pd) \<and>
    (\<forall>a. a div 4096 \<notin> owned s pd \<union> frames s pd \<longrightarrow> memory (pages_of s') a = memory (pages_of s) a)"
  using pagedir_destroy_ok [OF assms] unfolding frees_def by blast

text \<open>A machine with two pages in use: a directory and a frame.\<close>

definition demo_paging :: paging where
  "demo_paging = \<lparr>pages_of = \<lparr>
       kernel_pool = \<lparr>pool_lock = False, used_map = \<lparr>bit_cnt = 4, bits = [3]\<rparr>, pool_base = 0xc0100000\<rparr>,
       user_pool = \<lparr>pool_lock = False, used_map = \<lparr>bit_cnt = 4, bits = [0]\<rparr>, pool_base = 0xc0104000\<rparr>,
       memory = (\<lambda>_. 0)\<rparr>,
     init_page_dir = 0xc0010000, init_ram_pages = 1024, cr3 = 0x100000, tlb = [0 \<mapsto> 0]\<rparr>"

lemma demo_bits: "free_bits \<lparr>bit_cnt = 4, bits = [3]\<rparr> = {2, 3}" "free_bits \<lparr>bit_cnt = 4, bits = [0]\<rparr> = {0, 1, 2, 3}"
proof -
  have b: "bits_of \<lparr>bit_cnt = 4, bits = [3]\<rparr> = [True, True, False, False]" "bits_of \<lparr>bit_cnt = 4, bits = [0]\<rparr> = [False, False, False, False]"
    by (simp_all add: bits_of_def upt_rec)
  show "free_bits \<lparr>bit_cnt = 4, bits = [3]\<rparr> = {2, 3}" "free_bits \<lparr>bit_cnt = 4, bits = [0]\<rparr> = {0, 1, 2, 3}"
    unfolding free_bits_def b by (auto simp: less_Suc_eq numeral_eq_Suc)
qed

lemma demo_taken: "taken (pages_of demo_paging) = {0xc0100, 0xc0101}"
proof (rule set_eqI)
  fix n :: nat
  have "n \<in> free_pages (pages_of demo_paging) \<longleftrightarrow>
      0xc0100 \<le> n \<and> (n - 0xc0100 = 2 \<or> n - 0xc0100 = 3) \<or>
      0xc0104 \<le> n \<and> (n - 0xc0104 = 0 \<or> n - 0xc0104 = 1 \<or> n - 0xc0104 = 2 \<or> n - 0xc0104 = 3)"
    unfolding free_pages_def pool_free_def by (simp add: demo_paging_def demo_bits pg_no_div)
  then have f: "n \<in> free_pages (pages_of demo_paging) \<longleftrightarrow> 0xc0102 \<le> n \<and> n < 0xc0108" by linarith
  have "n \<in> all_pages (pages_of demo_paging) \<longleftrightarrow> 0xc0100 \<le> n \<and> n < 0xc0104 \<or> 0xc0104 \<le> n \<and> n < 0xc0108"
    unfolding all_pages_def pool_pages_def by (simp add: demo_paging_def pg_no_div)
  then have a: "n \<in> all_pages (pages_of demo_paging) \<longleftrightarrow> 0xc0100 \<le> n \<and> n < 0xc0108" by linarith
  have "n \<in> taken (pages_of demo_paging) \<longleftrightarrow> n = 0xc0100 \<or> n = 0xc0101"
    unfolding taken_def Diff_iff f a by linarith
  then show "n \<in> taken (pages_of demo_paging) \<longleftrightarrow> n \<in> {0xc0100, 0xc0101}" by simp
qed

lemma demo_space:
  "space_ok demo_paging 0xc0100000" "owned demo_paging 0xc0100000 = {0xc0100}" "frames demo_paging 0xc0100000 = {}"
proof -
  have z: "ld demo_paging a = 0" for a by (simp add: ld_def demo_paging_def load32_def)
  have "palloc_inv (pages_of demo_paging)"
    by (simp add: demo_paging_def palloc_inv_def pool_ok_def wf_bitmap_def elem_cnt_def ELEM_BITS_def PHYS_BASE_def)
  then have "pd_ok demo_paging 0xc0100000" by (simp add: pd_ok_def demo_taken z)
  then show "space_ok demo_paging 0xc0100000" "owned demo_paging 0xc0100000 = {0xc0100}" "frames demo_paging 0xc0100000 = {}"
    by (auto simp: space_ok_def frames_def mapped_def entry_def pte_at_def z owned_def)
qed

theorem pagedir_destroy_exact_witness:
  "\<exists>s'. pagedir_destroy 0xc0100000 demo_paging = Some s' \<and> taken (pages_of s') = {0xc0101}"
proof -
  have "(0xc0100000 :: nat) \<noteq> init_page_dir demo_paging" by (simp add: demo_paging_def)
  from pagedir_destroy_exact [OF demo_space(1) this] show ?thesis by (auto simp: demo_space demo_taken)
qed


end
