(* ===== verification/Spec2Isabelle.thy ===== *)
theory Spec2Isabelle
  imports Pintos_Prelude Klist Klist_Sort Klist_Trace Slots Bitmap Arith64 Fixed_Point Cstring Ctype
    Stdlib_C Random_C Pairing_Heap Khash Kstate Sched Synch
    Kthread Timer Kernel_Steps Donation Malloc_Correct Partition Cache Pagedir_Destroy
begin

text \<open>
  \<^bold>\<open>A verification library for the Pintos kernel of this repository.\<close>

  Pintos is a small x86 kernel written in C.  Its parts are the libraries of
  \<open>src/src/lib\<close> (strings, numbers, lists, bitmaps, hash tables, heaps, sorting), the threads and
  their synchronisation (\<open>src/src/threads\<close>, with the timer of \<open>src/src/devices\<close>), the memory
  allocators, the block devices and their partitions, the file system with its buffer cache, and user
  processes with virtual memory.  The kernel code above uses the code below it in this order, and
  the theories are layered the same way.

  \<^bold>\<open>How C is represented.\<close>  A C function is a HOL function from the state it reads to the state it
  leaves, in the option monad: \<open>None\<close> is a failed \<open>ASSERT\<close>, a \<open>PANIC\<close>, a null or wild
  access, a trap of the processor, or a run without end; a theorem whose conclusion is a value
  \<open>Some\<close> thus states that none of these happens.  Unsigned words are machine words or naturals
  with the reduction modulo \<open>2 ^ 32\<close> (\<open>size_t\<close>) written out; signed values are integers with
  \<open>to_s32\<close> and similar wrap-around at every operation that can overflow.  Loops are recursive
  functions; a loop that need not end is a \<open>partial_function (option)\<close>.  No definition uses fuel
  except loops whose C bound is the number of turns given as a natural.  Whether \<open>malloc\<close> or a
  device succeeds is an argument where the caller must cope with both.

  \<^bold>\<open>The theories.\<close>

  \<^item> \<open>Pintos_Prelude\<close>: the option monad, \<open>ASSERT\<close>, machine integers, shared lemmas on lists.
  \<^item> \<open>Klist\<close>, \<open>Klist_Sort\<close>, \<open>Klist_Trace\<close> (\<open>lib/kernel/list.c\<close>): doubly linked lists on a
    heap of links.  \<open>is_list\<close> relates a heap to a sequence; every routine refines the operation on
    sequences, and \<open>list_sort\<close> is a stable sort.
  \<^item> \<open>Bitmap\<close> (\<open>lib/kernel/bitmap.c\<close>), \<open>Slots\<close>: bitmaps as words; scanning finds the first
    run.  \<open>Slots\<close> is the interface of an allocator of numbered slots (locale \<open>slot_allocator\<close>),
    provided by bitmaps and by the page allocator.
  \<^item> \<open>Arith64\<close> (\<open>lib/arithmetic.c\<close>), \<open>Fixed_Point\<close> (\<open>lib/kernel/fixed.h\<close>): 64-bit division from 32-bit
    instructions, and 17.14 arithmetic with its error bounds.
  \<^item> \<open>Cstring\<close>, \<open>Ctype\<close>, \<open>Stdlib_C\<close>, \<open>Random_C\<close> (\<open>lib/string.c\<close>, \<open>ctype.h\<close>,
    \<open>stdlib.c\<close>, \<open>random.c\<close>): a byte memory, the string routines, \<open>atoi\<close>, heap sort, binary search
    and the RC4 generator.
  \<^item> \<open>Pairing_Heap\<close>, \<open>Khash\<close> (\<open>lib/kernel/heap.c\<close>, \<open>hash.c\<close>): the heap pops in order;
    the hash table refines a finite set of keyed elements and its iterator visits each once.
  \<^item> \<open>Kstate\<close>, \<open>Sched\<close>, \<open>Synch\<close>, \<open>Kthread\<close>, \<open>Timer\<close>, \<open>Kernel_Steps\<close>, \<open>Donation\<close>
    (\<open>threads/thread.c\<close>, \<open>synch.c\<close>, \<open>interrupt.c\<close>, \<open>devices/timer.c\<close>): the scheduler with
    priorities and the feedback queue, semaphores, locks, condition variables and read-write locks.
    \<open>Kernel_Steps\<close> is an interleaving semantics (\<open>kstep\<close>) of threads that run the
    synchronisation code and may be preempted wherever interrupts are on; mutual exclusion is an
    invariant of its reachable states.
  \<^item> \<open>Vaddr\<close>, \<open>Palloc\<close>, \<open>Malloc\<close>, \<open>Malloc_Heap\<close>, \<open>Malloc_Correct\<close>
    (\<open>threads/vaddr.h\<close>, \<open>pte.h\<close>, \<open>palloc.c\<close>, \<open>malloc.c\<close>): address arithmetic, the page pools,
    and the block allocator with its arenas in byte memory.  Blocks handed out never overlap and
    keep their bytes.
  \<^item> \<open>Block\<close>, \<open>Partition\<close> (\<open>devices/block.c\<close>, \<open>partition.c\<close>): devices, partitions of devices
    and the scan of partition tables.
  \<^item> \<open>Cache\<close> (\<open>filesys/cache.c\<close>): the buffer cache, an implementation of the interface
    \<open>sector_store\<close>.
  \<^item> \<open>Pagedir\<close>, \<open>Pagedir_Destroy\<close> (\<open>userprog/pagedir.c\<close>): page directories and page tables in byte
    memory; they represent a map from user pages to frames with their bits, and are freed exactly once.

  \<^bold>\<open>What is not modelled.\<close>  Drivers are port input and output on hardware (\<open>ide.c\<close>, \<open>serial.c\<close>,
  \<open>vga.c\<close>, \<open>kbd.c\<close>, \<open>pit.c\<close>, \<open>rtc.c\<close>, \<open>speaker.c\<close>, \<open>shutdown.c\<close>, most of
  \<open>interrupt.c\<close>); a raw disk is therefore its array of sectors.  Assembly (\<open>loader.S\<close>, \<open>start.S\<close>,
  \<open>switch.S\<close>, \<open>intr-stubs.S\<close>) has no C semantics.  Printing has no effect on the modelled states.
  The manifest lists every other part that is left out with its reason.
\<close>

end
